(* ===== verification/Prelude.thy ===== *)
theory Prelude
  imports Main "HOL-Library.Word" "HOL-Library.Monad_Syntax"
begin

text \<open>
  The shared vocabulary of the development: names for the machine integers of the C++ sources,
  little-endian positional values of word lists (limbs of a big integer, bytes of a blob),
  their bit-level characterisation, and generic facts on lists and arithmetic that
  the component theories rely on.

  Conventions used by every component.  \<open>uintN_t\<close> is \<open>N word\<close> wherever the source lets it wrap
  or works on its bits.  Signed integers (\<open>int\<close>, \<open>int64_t\<close>, \<open>CAmount\<close>) are \<open>int\<close>: overflow of a signed
  integer is undefined in C++, and where a sum could leave the range the bound is a lemma.
  An \<open>assert\<close>, a null dereference or a thrown exception is the result \<open>None\<close>
  (or \<open>Inl\<close> of an error where the source distinguishes several).
\<close>

unbundle bit_operations_syntax

type_synonym u8 = "8 word"
type_synonym u16 = "16 word"
type_synonym u32 = "32 word"
type_synonym u64 = "64 word"
type_synonym bytes = "u8 list"

named_theorems val_simps \<open>positional values of word lists\<close>

section \<open>Little-endian positional values\<close>

fun val_le :: "'a::len word list \<Rightarrow> nat" where
  "val_le [] = 0"
| "val_le (x # xs) = unat x + 2 ^ LENGTH('a) * val_le xs"

lemma val_le_append [val_simps]:
  fixes xs :: "'a::len word list"
  shows "val_le (xs @ ys) = val_le xs + 2 ^ (LENGTH('a) * length xs) * val_le ys"
  by (induction xs) (simp_all add: algebra_simps power_add)

lemma val_le_replicate_0 [simp]: "val_le (replicate n 0) = 0"
  by (induction n) simp_all

lemma val_le_less:
  fixes xs :: "'a::len word list"
  shows "val_le xs < 2 ^ (LENGTH('a) * length xs)"
proof (induction xs)
  case Nil
  show ?case by simp
next
  case (Cons x xs)
  let ?B = "2 ^ LENGTH('a) :: nat" and ?R = "2 ^ (LENGTH('a) * length xs) :: nat"
  have "?B * (val_le xs + 1) \<le> ?B * ?R" using Cons.IH by (intro mult_le_mono2) simp
  then have "unat x + ?B * val_le xs < ?B * ?R"
    using unsigned_less[of x, where ?'a = nat] by (simp only: distrib_left)
  then show ?case by (simp add: power_add)
qed

lemma val_le_mod_self [simp]:
  fixes xs :: "'a::len word list"
  shows "val_le xs mod 2 ^ (LENGTH('a) * length xs) = val_le xs"
  using val_le_less[of xs] by simp

lemma val_le_Cons_mod:
  fixes x :: "'a::len word"
  shows "val_le (x # xs) mod 2 ^ LENGTH('a) = unat x"
  using unsigned_less[of x, where ?'a = nat] by simp

lemma val_le_Cons_div:
  fixes x :: "'a::len word"
  shows "val_le (x # xs) div 2 ^ LENGTH('a) = val_le xs"
  using unsigned_less[of x, where ?'a = nat] by simp

lemma val_le_eq_0_iff: "val_le xs = 0 \<longleftrightarrow> (\<forall>x \<in> set xs. x = 0)"
  by (induction xs) (auto simp: unat_eq_zero)

lemma val_le_inject:
  fixes xs ys :: "'a::len word list"
  assumes "length xs = length ys" "val_le xs = val_le ys"
  shows "xs = ys"
  using assms
proof (induction xs ys rule: list_induct2)
  case Nil
  show ?case by simp
next
  case (Cons x xs y ys)
  have "unat x = unat y" using Cons.prems val_le_Cons_mod[of x xs] val_le_Cons_mod[of y ys] by simp
  moreover have "val_le xs = val_le ys"
    using Cons.prems val_le_Cons_div[of x xs] val_le_Cons_div[of y ys] by simp
  ultimately show ?case using Cons.IH by (simp add: word_unat_eq_iff)
qed

text \<open>Bit \<open>n\<close> of the value is bit \<open>n mod w\<close> of word \<open>n div w\<close>.\<close>

lemma bit_val_le:
  fixes xs :: "'a::len word list"
  shows "bit (val_le xs) n \<longleftrightarrow>
    n div LENGTH('a) < length xs \<and> bit (xs ! (n div LENGTH('a))) (n mod LENGTH('a))"
proof (induction xs arbitrary: n)
  case Nil
  show ?case by simp
next
  case (Cons x xs)
  let ?L = "LENGTH('a)"
  show ?case
  proof (cases "n < ?L")
    case True
    have "bit (val_le (x # xs)) n \<longleftrightarrow> bit (take_bit ?L (val_le (x # xs))) n"
      using True by (simp only: bit_take_bit_iff) simp
    also have "take_bit ?L (val_le (x # xs)) = unat x"
      by (simp only: take_bit_eq_mod val_le_Cons_mod)
    also have "bit (unat x) n \<longleftrightarrow> bit x n" using True by (simp add: bit_unsigned_iff)
    finally show ?thesis using True by simp
  next
    case False
    then obtain m where m: "n = ?L + m" using le_Suc_ex not_less by blast
    have "bit (val_le (x # xs)) n \<longleftrightarrow> bit (drop_bit ?L (val_le (x # xs))) m"
      by (simp only: bit_drop_bit_eq comp_def m)
    moreover have "drop_bit ?L (val_le (x # xs)) = val_le xs"
      by (simp only: drop_bit_eq_div val_le_Cons_div)
    moreover have "n div ?L = Suc (m div ?L)" "n mod ?L = m mod ?L"
      by (simp_all add: m div_add_self1)
    ultimately show ?thesis using Cons.IH[of m] by simp
  qed
qed

lemma val_le_take_drop:
  fixes xs :: "'a::len word list"
  shows "val_le xs = val_le (take n xs) + 2 ^ (LENGTH('a) * min n (length xs)) * val_le (drop n xs)"
proof -
  have "val_le xs = val_le (take n xs @ drop n xs)" by simp
  then show ?thesis by (simp only: val_le_append length_take min.commute)
qed

lemma val_le_update:
  fixes xs :: "'a::len word list"
  assumes "i < length xs"
  shows "val_le (xs[i := w]) + 2 ^ (LENGTH('a) * i) * unat (xs ! i) =
    val_le xs + 2 ^ (LENGTH('a) * i) * unat w"
  using assms
proof (induction xs arbitrary: i)
  case Nil
  then show ?case by simp
next
  case (Cons x xs)
  show ?case
  proof (cases i)
    case 0
    then show ?thesis by simp
  next
    case (Suc j)
    with Cons.prems have "j < length xs" by simp
    from arg_cong[OF Cons.IH[OF this], of "(*) (2 ^ LENGTH('a))"] Suc show ?thesis
      by (simp add: power_add distrib_left mult.assoc)
  qed
qed

section \<open>Words from digits of a number\<close>

fun words_of_nat :: "nat \<Rightarrow> nat \<Rightarrow> 'a::len word list" where
  "words_of_nat 0 v = []"
| "words_of_nat (Suc n) v = word_of_nat v # words_of_nat n (v div 2 ^ LENGTH('a))"

lemma length_words_of_nat [simp]: "length (words_of_nat n v :: 'a::len word list) = n"
  by (induction n arbitrary: v) simp_all

lemma val_le_words_of_nat:
  "val_le (words_of_nat n v :: 'a::len word list) = v mod 2 ^ (LENGTH('a) * n)"
proof (induction n arbitrary: v)
  case 0
  show ?case by simp
next
  case (Suc n)
  let ?B = "2 ^ LENGTH('a) :: nat"
  have "val_le (words_of_nat (Suc n) v :: 'a word list) =
      v mod ?B + ?B * ((v div ?B) mod 2 ^ (LENGTH('a) * n))"
    by (simp add: Suc.IH unat_of_nat)
  also have "\<dots> = v mod (?B * 2 ^ (LENGTH('a) * n))"
    by (simp add: mod_mult2_eq)
  finally show ?case by (simp add: power_add)
qed

lemma words_of_nat_val_le:
  fixes xs :: "'a::len word list"
  shows "length xs = n \<Longrightarrow> words_of_nat n (val_le xs) = xs"
proof (induction n arbitrary: xs)
  case 0
  then show ?case by simp
next
  case (Suc n)
  then obtain x ys where xs: "xs = x # ys" "length ys = n" by (cases xs) auto
  have "val_le xs div 2 ^ LENGTH('a) = val_le ys" by (simp only: xs val_le_Cons_div)
  moreover have "(word_of_nat (val_le xs) :: 'a word) = x"
    by (simp add: xs of_nat_add of_nat_mult word_eq_iff_unsigned)
  ultimately show ?case using Suc.IH[OF xs(2)] by (simp add: xs(1))
qed

lemma unat_push_bit_exact:
  fixes w :: "'a::len word"
  assumes "unat w * 2 ^ n < 2 ^ LENGTH('a)"
  shows "unat (push_bit n w) = unat w * 2 ^ n"
proof -
  have "unat (push_bit n w) = take_bit LENGTH('a) (push_bit n (unat w))"
    by (rule unsigned_push_bit_eq)
  also have "\<dots> = push_bit n (unat w)"
    using assms by (simp add: push_bit_eq_mult take_bit_nat_eq_self)
  finally show ?thesis by (simp add: push_bit_eq_mult)
qed

section \<open>Numbers\<close>

lemma nat_bit_length_unique:
  fixes v :: nat
  assumes "2 ^ a \<le> v" "v < 2 ^ Suc a" "2 ^ b \<le> v" "v < 2 ^ Suc b"
  shows "a = b"
proof (rule ccontr)
  assume "a \<noteq> b"
  then consider "Suc a \<le> b" | "Suc b \<le> a" by linarith
  then show False
  proof cases
    case 1
    then have "(2::nat) ^ Suc a \<le> 2 ^ b" by (rule power_increasing) simp
    with assms show False by linarith
  next
    case 2
    then have "(2::nat) ^ Suc b \<le> 2 ^ a" by (rule power_increasing) simp
    with assms show False by linarith
  qed
qed

end
