(* ===== verification/Website.thy ===== *)
theory Website
  imports Prelude
begin

text \<open>
  The script of the web site (\<open>website/script.js\<close>, all of it), on a model of what it uses of the
  browser: the elements of the document in tree order, their inline styles, registered listeners,
  the intersection observer, pending clipboard writes and timers.  An element is named by its
  position in the document, which the script never changes.  \<open>load_script\<close> runs the top level of the
  file; \<open>handle\<close> runs one event of the browser to completion, which is how the event loop
  interleaves the handlers, the continuations after \<open>await\<close> and the timeouts.  \<open>query\<close> stands for
  \<open>document.querySelector\<close> on a selector computed at run time: \<open>Inl\<close> is the exception of a
  malformed selector, \<open>Inr\<close> the first match, if any.
\<close>

section \<open>Model\<close>

subsection \<open>The document\<close>

type_synonym eid = nat

datatype Node = TextNode string | ElementNode string "Node list"

text \<open>\<open>textContent\<close>: the text of all descendants; elements such as \<open>br\<close> contribute nothing.\<close>

fun node_text :: "Node \<Rightarrow> string" where
  "node_text (TextNode s) = s"
| "node_text (ElementNode tag ns) = concat (map node_text ns)"

record Style =
  animation :: string
  transform :: string
  background :: string
  cursor :: string

record Element =
  tagName :: string
  classList :: "string list"
  href :: "string option"
  el_id :: "string option"
  childNodes :: "Node list"
  parentEl :: "eid option"
  el_title :: string
  style :: Style

definition textContent :: "Element \<Rightarrow> string" where
  "textContent el = concat (map node_text (childNodes el))"

datatype Selector = Sel_anchor_hash | Sel_tag string | Sel_class string

fun matches :: "Selector \<Rightarrow> Element \<Rightarrow> bool" where
  "matches Sel_anchor_hash el \<longleftrightarrow>
     tagName el = ''a'' \<and> (case href el of None \<Rightarrow> False | Some h \<Rightarrow> take 1 h = ''#'')"
| "matches (Sel_tag t) el \<longleftrightarrow> tagName el = t"
| "matches (Sel_class c) el \<longleftrightarrow> c \<in> set (classList el)"

definition querySelectorAll :: "Selector \<Rightarrow> Element list \<Rightarrow> eid list" where
  "querySelectorAll sel els = filter (\<lambda>e. matches sel (els ! e)) [0..<length els]"

definition querySelector :: "Selector \<Rightarrow> Element list \<Rightarrow> eid option" where
  "querySelector sel els = (case querySelectorAll sel els of [] \<Rightarrow> None | e # _ \<Rightarrow> Some e)"

subsection \<open>The state of the page\<close>

datatype Target = El eid | Window

datatype EventType = Ev_click | Ev_mouseenter | Ev_mouseleave | Ev_scroll

datatype Handler = Anchor_click | Parallax | Card_enter | Card_leave | Code_click

datatype Effect =
    PreventDefault eid
  | ScrollIntoView eid string string
  | Console_error string string
  | Uncaught string

record Timer =
  due :: nat
  timer_el :: eid
  originalBg :: string

record World =
  els :: "Element list"
  listeners :: "(Target \<times> EventType \<times> Handler) list"
  observed :: "eid list"
  obs_threshold_percent :: nat
  obs_rootMargin :: string
  pageYOffset :: int
  clipboard_present :: bool
  clipboard :: string
  writes :: "(eid \<times> string) list"
  timers :: "Timer list"
  now :: nat
  effects :: "Effect list"

type_synonym query = "Element list \<Rightarrow> string \<Rightarrow> string + eid option"

definition upd_el :: "eid \<Rightarrow> (Element \<Rightarrow> Element) \<Rightarrow> World \<Rightarrow> World" where
  "upd_el e f w = w\<lparr>els := (els w)[e := f (els w ! e)]\<rparr>"

definition upd_style :: "eid \<Rightarrow> (Style \<Rightarrow> Style) \<Rightarrow> World \<Rightarrow> World" where
  "upd_style e f w = upd_el e (\<lambda>el. el\<lparr>style := f (style el)\<rparr>) w"

definition style_of :: "World \<Rightarrow> eid \<Rightarrow> Style" where
  "style_of w e = style (els w ! e)"

definition emit :: "Effect \<Rightarrow> World \<Rightarrow> World" where
  "emit x w = w\<lparr>effects := effects w @ [x]\<rparr>"

definition addEventListener :: "Target \<Rightarrow> EventType \<Rightarrow> Handler \<Rightarrow> World \<Rightarrow> World" where
  "addEventListener t ty h w = w\<lparr>listeners := listeners w @ [(t, ty, h)]\<rparr>"

subsection \<open>Numbers in templates\<close>

fun nat_str :: "nat \<Rightarrow> string" where
  "nat_str n = (if n < 10 then [char_of (48 + n)] else nat_str (n div 10) @ [char_of (48 + n mod 10)])"

declare nat_str.simps [simp del]

text \<open>\<open>${n * 0.5}\<close> for a whole number \<open>n\<close>: the product is exact and prints as \<open>k\<close> or \<open>k.5\<close>.\<close>

definition half_str :: "int \<Rightarrow> string" where
  "half_str n =
     (if n < 0 then ''-'' else '''') @ nat_str (nat \<bar>n\<bar> div 2) @ (if odd n then ''.5'' else '''')"

subsection \<open>Handlers\<close>

text \<open>A missing attribute is \<open>null\<close>, which \<open>querySelector\<close> reads as the string \<open>null\<close>.\<close>

definition anchor_click :: "query \<Rightarrow> eid \<Rightarrow> World \<Rightarrow> World" where
  "anchor_click query e w =
     (let w = emit (PreventDefault e) w;
          sel = (case href (els w ! e) of None \<Rightarrow> ''null'' | Some h \<Rightarrow> h) in
      case query (els w) sel of
        Inl err \<Rightarrow> emit (Uncaught err) w
      | Inr None \<Rightarrow> w
      | Inr (Some target) \<Rightarrow> emit (ScrollIntoView target ''smooth'' ''start'') w)"

definition fadeInUp :: string where
  "fadeInUp = ''fadeInUp 0.8s ease-out forwards''"

fun observer_callback :: "(eid \<times> bool) list \<Rightarrow> World \<Rightarrow> World" where
  "observer_callback [] w = w"
| "observer_callback ((target, isIntersecting) # entries) w =
     observer_callback entries
       (if isIntersecting then upd_style target (\<lambda>s. s\<lparr>animation := fadeInUp\<rparr>) w else w)"

definition parallax :: "World \<Rightarrow> World" where
  "parallax w =
     (let scrolled = pageYOffset w in
      case querySelector (Sel_class ''hero-bg'') (els w) of
        None \<Rightarrow> w
      | Some heroBg \<Rightarrow>
          upd_style heroBg (\<lambda>s. s\<lparr>transform := ''translateY('' @ half_str scrolled @ ''px)''\<rparr>) w)"

definition card_hover :: string where
  "card_hover = ''translateY(-10px) scale(1.02)''"

definition card_rest :: string where
  "card_rest = ''translateY(0) scale(1)''"

definition card_enter :: "eid \<Rightarrow> World \<Rightarrow> World" where
  "card_enter e w = upd_style e (\<lambda>s. s\<lparr>transform := card_hover\<rparr>) w"

definition card_leave :: "eid \<Rightarrow> World \<Rightarrow> World" where
  "card_leave e w = upd_style e (\<lambda>s. s\<lparr>transform := card_rest\<rparr>) w"

definition highlight :: string where
  "highlight = ''rgba(0, 212, 255, 0.2)''"

text \<open>
  The click on a code block up to its \<open>await\<close>: without a clipboard object the property access
  throws inside the \<open>try\<close>; otherwise the write is pending.
\<close>

definition code_click :: "eid \<Rightarrow> World \<Rightarrow> World" where
  "code_click e w =
     (let txt = textContent (els w ! e) in
      if clipboard_present w then w\<lparr>writes := writes w @ [(e, txt)]\<rparr>
      else emit (Console_error ''Failed to copy:'' ''TypeError'') w)"

text \<open>The rest of the handler once the write succeeded, its \<open>catch\<close> block, and the timeout.\<close>

definition code_copied :: "eid \<Rightarrow> World \<Rightarrow> World" where
  "code_copied e w =
     (let bg = background (style_of w e);
          w = upd_style e (\<lambda>s. s\<lparr>background := highlight\<rparr>) w in
      w\<lparr>timers := timers w @ [\<lparr>due = now w + 200, timer_el = e, originalBg = bg\<rparr>]\<rparr>)"

definition code_failed :: "string \<Rightarrow> World \<Rightarrow> World" where
  "code_failed err w = emit (Console_error ''Failed to copy:'' err) w"

definition code_timeout :: "Timer \<Rightarrow> World \<Rightarrow> World" where
  "code_timeout t w = upd_style (timer_el t) (\<lambda>s. s\<lparr>background := originalBg t\<rparr>) w"

fun run_handler :: "query \<Rightarrow> Handler \<Rightarrow> Target \<Rightarrow> World \<Rightarrow> World" where
  "run_handler query Anchor_click (El e) w = anchor_click query e w"
| "run_handler query Card_enter (El e) w = card_enter e w"
| "run_handler query Card_leave (El e) w = card_leave e w"
| "run_handler query Code_click (El e) w = code_click e w"
| "run_handler query Parallax t w = parallax w"
| "run_handler query h Window w = w"

subsection \<open>Loading the script\<close>

definition reg_anchors :: "World \<Rightarrow> World" where
  "reg_anchors w =
     fold (\<lambda>e. addEventListener (El e) Ev_click Anchor_click) (querySelectorAll Sel_anchor_hash (els w)) w"

definition make_observer :: "World \<Rightarrow> World" where
  "make_observer w = w\<lparr>obs_threshold_percent := 10, obs_rootMargin := ''0px 0px -100px 0px''\<rparr>"

definition observe_sections :: "World \<Rightarrow> World" where
  "observe_sections w =
     fold (\<lambda>e w. w\<lparr>observed := observed w @ [e]\<rparr>) (querySelectorAll (Sel_tag ''section'') (els w)) w"

definition reg_parallax :: "World \<Rightarrow> World" where
  "reg_parallax w = addEventListener Window Ev_scroll Parallax w"

definition reg_cards :: "World \<Rightarrow> World" where
  "reg_cards w =
     fold (\<lambda>e w. addEventListener (El e) Ev_mouseleave Card_leave
                  (addEventListener (El e) Ev_mouseenter Card_enter w))
       (querySelectorAll (Sel_class ''feature-card'') (els w)) w"

definition init_code :: "eid \<Rightarrow> World \<Rightarrow> World" where
  "init_code e w =
     (let w = upd_style e (\<lambda>s. s\<lparr>cursor := ''pointer''\<rparr>) w;
          w = upd_el e (\<lambda>el. el\<lparr>el_title := ''Click to copy''\<rparr>) w in
      addEventListener (El e) Ev_click Code_click w)"

definition reg_code :: "World \<Rightarrow> World" where
  "reg_code w = fold init_code (querySelectorAll (Sel_tag ''code'') (els w)) w"

definition load_script :: "World \<Rightarrow> World" where
  "load_script w = reg_code (reg_cards (reg_parallax (observe_sections (make_observer (reg_anchors w)))))"

subsection \<open>Events\<close>

datatype Event =
    Click eid
  | Enter eid
  | Leave eid
  | Scroll int
  | Intersect "(eid \<times> bool) list"
  | Resolve nat
  | Reject nat string
  | Advance nat
  | Timeout

definition dispatch :: "query \<Rightarrow> Target \<Rightarrow> EventType \<Rightarrow> World \<Rightarrow> World" where
  "dispatch query t ty w =
     fold (\<lambda>(t', ty', h) w. if t' = t \<and> ty' = ty then run_handler query h t w else w) (listeners w) w"

text \<open>A click bubbles: the target, then its ancestors (a parent precedes its children in tree order).\<close>

function event_path :: "Element list \<Rightarrow> eid \<Rightarrow> eid list" where
  "event_path ds e =
     e # (case parentEl (ds ! e) of None \<Rightarrow> [] | Some p \<Rightarrow> if p < e then event_path ds p else [])"
  by pat_completeness auto
termination
  by (relation "measure snd") auto

declare event_path.simps [simp del]

definition drop_nth :: "nat \<Rightarrow> 'a list \<Rightarrow> 'a list" where
  "drop_nth i xs = take i xs @ drop (Suc i) xs"

fun handle :: "query \<Rightarrow> World \<Rightarrow> Event \<Rightarrow> World" where
  "handle query w (Click e) = fold (\<lambda>t. dispatch query (El t) Ev_click) (event_path (els w) e) w"
| "handle query w (Enter e) = dispatch query (El e) Ev_mouseenter w"
| "handle query w (Leave e) = dispatch query (El e) Ev_mouseleave w"
| "handle query w (Scroll y) = dispatch query Window Ev_scroll (w\<lparr>pageYOffset := y\<rparr>)"
| "handle query w (Intersect entries) = observer_callback entries w"
| "handle query w (Resolve i) =
     (let (e, txt) = writes w ! i in
      code_copied e (w\<lparr>writes := drop_nth i (writes w), clipboard := txt\<rparr>))"
| "handle query w (Reject i err) = code_failed err (w\<lparr>writes := drop_nth i (writes w)\<rparr>)"
| "handle query w (Advance d) = w\<lparr>now := now w + d\<rparr>"
| "handle query w Timeout = code_timeout (hd (timers w)) (w\<lparr>timers := tl (timers w)\<rparr>)"

text \<open>
  What the browser delivers: events on elements of the document, entries for observed elements, the
  settlement of a pending write, and the oldest timeout once it is due (all delays are equal, so
  the queue is in the order of the due times).
\<close>

fun enabled :: "World \<Rightarrow> Event \<Rightarrow> bool" where
  "enabled w (Click e) \<longleftrightarrow> e < length (els w)"
| "enabled w (Enter e) \<longleftrightarrow> e < length (els w)"
| "enabled w (Leave e) \<longleftrightarrow> e < length (els w)"
| "enabled w (Scroll y) \<longleftrightarrow> True"
| "enabled w (Intersect entries) \<longleftrightarrow> (\<forall>(e, i) \<in> set entries. e \<in> set (observed w))"
| "enabled w (Resolve i) \<longleftrightarrow> i < length (writes w)"
| "enabled w (Reject i err) \<longleftrightarrow> i < length (writes w)"
| "enabled w (Advance d) \<longleftrightarrow> True"
| "enabled w Timeout \<longleftrightarrow> timers w \<noteq> [] \<and> due (hd (timers w)) \<le> now w"

inductive page_run :: "query \<Rightarrow> World \<Rightarrow> Event list \<Rightarrow> World \<Rightarrow> bool" for query where
  run_nil: "page_run query w [] w"
| run_cons: "enabled w ev \<Longrightarrow> page_run query (handle query w ev) evs w' \<Longrightarrow> page_run query w (ev # evs) w'"

inductive_cases page_run_NilE: "page_run query w [] w'"
inductive_cases page_run_ConsE: "page_run query w (ev # evs) w'"

section \<open>Frames\<close>

text \<open>What the script never touches of an element: everything but its style and its title.\<close>

definition skel :: "Element \<Rightarrow> string \<times> string list \<times> string option \<times> string option \<times> Node list \<times> eid option" where
  "skel el = (tagName el, classList el, href el, el_id el, childNodes el, parentEl el)"

lemma matches_skel: "skel a = skel b \<Longrightarrow> matches sel a = matches sel b"
  by (cases sel) (auto simp: skel_def)

lemma textContent_skel: "skel a = skel b \<Longrightarrow> textContent a = textContent b"
  by (simp add: skel_def textContent_def)

definition same_skel :: "World \<Rightarrow> World \<Rightarrow> bool" where
  "same_skel w w' \<longleftrightarrow> map skel (els w') = map skel (els w)"

lemma same_skel_refl [simp]: "same_skel w w"
  by (simp add: same_skel_def)

lemma same_skel_trans: "same_skel w w' \<Longrightarrow> same_skel w' w'' \<Longrightarrow> same_skel w w''"
  by (simp add: same_skel_def)

lemma same_skelD:
  assumes "same_skel w w'"
  shows "length (els w') = length (els w)" "e < length (els w) \<Longrightarrow> skel (els w' ! e) = skel (els w ! e)"
proof -
  show len: "length (els w') = length (els w)" using assms map_eq_imp_length_eq by (simp add: same_skel_def)
  show "skel (els w' ! e) = skel (els w ! e)" if "e < length (els w)"
    using assms that len nth_map[of e "els w" skel] nth_map[of e "els w'" skel] by (simp add: same_skel_def)
qed

lemma querySelectorAll_skel:
  assumes "map skel ds' = map skel ds"
  shows "querySelectorAll sel ds' = querySelectorAll sel ds"
proof -
  have len: "length ds' = length ds" using assms by (metis length_map)
  have "skel (ds' ! e) = skel (ds ! e)" if "e < length ds" for e
    using assms that len by (metis nth_map)
  then have "matches sel (ds' ! e) = matches sel (ds ! e)" if "e < length ds" for e
    using that by (intro matches_skel) blast
  then show ?thesis unfolding querySelectorAll_def len by (intro filter_cong) simp_all
qed

lemma map_skel_upd_el:
  assumes "\<And>el. skel (f el) = skel el"
  shows "map skel (els (upd_el e f w)) = map skel (els w)"
proof (rule nth_equalityI)
  fix i assume "i < length (map skel (els (upd_el e f w)))"
  then show "map skel (els (upd_el e f w)) ! i = map skel (els w) ! i"
    using assms by (cases "i = e") (simp_all add: upd_el_def)
qed (simp add: upd_el_def)

lemma map_skel_upd_style [simp]: "map skel (els (upd_style e f w)) = map skel (els w)"
  unfolding upd_style_def by (rule map_skel_upd_el) (simp add: skel_def)

lemma upd_el_simps [simp]:
  "listeners (upd_el e f w) = listeners w" "observed (upd_el e f w) = observed w"
  "timers (upd_el e f w) = timers w" "writes (upd_el e f w) = writes w" "now (upd_el e f w) = now w"
  "effects (upd_el e f w) = effects w" "clipboard (upd_el e f w) = clipboard w"
  "clipboard_present (upd_el e f w) = clipboard_present w" "pageYOffset (upd_el e f w) = pageYOffset w"
  "length (els (upd_el e f w)) = length (els w)"
  by (simp_all add: upd_el_def)

lemma upd_style_simps [simp]:
  "listeners (upd_style e f w) = listeners w" "observed (upd_style e f w) = observed w"
  "timers (upd_style e f w) = timers w" "writes (upd_style e f w) = writes w" "now (upd_style e f w) = now w"
  "effects (upd_style e f w) = effects w" "clipboard (upd_style e f w) = clipboard w"
  "clipboard_present (upd_style e f w) = clipboard_present w" "pageYOffset (upd_style e f w) = pageYOffset w"
  "length (els (upd_style e f w)) = length (els w)"
  by (simp_all add: upd_style_def)

lemma style_of_upd_style:
  "e' < length (els w) \<Longrightarrow> style_of (upd_style e f w) e' = (if e = e' then f (style_of w e') else style_of w e')"
  by (simp add: style_of_def upd_style_def upd_el_def)

lemma emit_simps [simp]:
  "els (emit x w) = els w" "listeners (emit x w) = listeners w" "observed (emit x w) = observed w"
  "timers (emit x w) = timers w" "writes (emit x w) = writes w" "now (emit x w) = now w"
  "effects (emit x w) = effects w @ [x]" "clipboard (emit x w) = clipboard w"
  "clipboard_present (emit x w) = clipboard_present w" "style_of (emit x w) = style_of w"
  by (simp_all add: emit_def style_of_def fun_eq_iff)

lemma addEventListener_simps [simp]:
  "els (addEventListener t ty h w) = els w" "listeners (addEventListener t ty h w) = listeners w @ [(t, ty, h)]"
  "observed (addEventListener t ty h w) = observed w" "timers (addEventListener t ty h w) = timers w"
  "writes (addEventListener t ty h w) = writes w" "effects (addEventListener t ty h w) = effects w"
  "clipboard (addEventListener t ty h w) = clipboard w" "now (addEventListener t ty h w) = now w"
  "clipboard_present (addEventListener t ty h w) = clipboard_present w"
  by (simp_all add: addEventListener_def)

text \<open>
  The three parts of the state that different handlers own.  A property of a whole run is an
  induction that only looks at the handlers that own the part in question.
\<close>

definition frame :: "(Style \<Rightarrow> 'a) \<Rightarrow> World \<Rightarrow> World \<Rightarrow> bool" where
  "frame p w w' \<longleftrightarrow> same_skel w w' \<and> listeners w' = listeners w \<and> observed w' = observed w \<and>
     (\<forall>e < length (els w). p (style_of w' e) = p (style_of w e))"

lemma frame_refl [simp]: "frame p w w"
  by (simp add: frame_def)

lemma frame_trans: "frame p w w' \<Longrightarrow> frame p w' w'' \<Longrightarrow> frame p w w''"
  unfolding frame_def by (auto intro: same_skel_trans simp: same_skelD(1))

lemma frame_upd_style:
  assumes "\<And>s. p (f s) = p s"
  shows "frame p w (upd_style e f w)"
  using assms by (simp add: frame_def same_skel_def style_of_upd_style)

lemma frame_emit [simp]: "frame p w (emit x w)"
  by (simp add: frame_def same_skel_def)

lemma frame_fold:
  assumes "\<And>x w. x \<in> set xs \<Longrightarrow> frame p w (g x w)"
  shows "frame p w (fold g xs w)"
  using assms by (induction xs arbitrary: w) (auto intro: frame_trans)

lemma dispatch_inv:
  assumes "\<And>h w. P w \<Longrightarrow> P (run_handler query h t w)" "P w"
  shows "P (dispatch query t ty w)"
proof -
  have "P (fold (\<lambda>(t', ty', h) w. if t' = t \<and> ty' = ty then run_handler query h t w else w) ls w)" for ls
    using assms by (induction ls arbitrary: w) auto
  then show ?thesis by (simp add: dispatch_def)
qed

lemma fold_inv: "(\<And>x w. P w \<Longrightarrow> P (g x w)) \<Longrightarrow> P w \<Longrightarrow> P (fold g xs w)"
  by (induction xs arbitrary: w) auto

end
