(* ===== verification/Website_Highlight.thy ===== *)
theory Website_Highlight
  imports Website
begin

text \<open>
  The highlight of the code blocks of the site (\<open>website/script.js\<close>, the click handler of the code blocks) as a small
  abstract machine, the refinement between the handlers and that machine, and what the machine does
  to the background of a block when copies overlap and when they do not.
\<close>

section \<open>The highlight of a code block\<close>

text \<open>
  What the handlers do to one code block, seen alone: its background and the backgrounds its pending
  timeouts will restore.  A successful copy highlights the block and remembers the background it
  found; a timeout restores the oldest one.
\<close>

datatype highlight_act = Copy | Restore | Other

fun highlight_step :: "string \<times> string list \<Rightarrow> highlight_act \<Rightarrow> string \<times> string list" where
  "highlight_step (bg, q) Copy = (highlight, q @ [bg])"
| "highlight_step (bg, b # q) Restore = (b, q)"
| "highlight_step (bg, []) Restore = (bg, [])"
| "highlight_step s Other = s"

definition highlight_state :: "World \<Rightarrow> eid \<Rightarrow> string \<times> string list" where
  "highlight_state w e =
     (background (style_of w e), map originalBg (filter (\<lambda>t. timer_el t = e) (timers w)))"

fun highlight_act_of :: "World \<Rightarrow> eid \<Rightarrow> Event \<Rightarrow> highlight_act" where
  "highlight_act_of w e (Resolve i) = (if fst (writes w ! i) = e then Copy else Other)"
| "highlight_act_of w e Timeout = (if timer_el (hd (timers w)) = e then Restore else Other)"
| "highlight_act_of w e _ = Other"

lemma run_handler_bg: "frame background w (run_handler query h t w) \<and> timers (run_handler query h t w) = timers w"
  by (cases "(query, h, t, w)" rule: run_handler.cases)
    (auto simp: anchor_click_def Let_def card_enter_def card_leave_def code_click_def parallax_def
      intro!: frame_upd_style frame_trans[OF frame_emit frame_emit] split: option.splits sum.splits,
      simp_all add: frame_def same_skel_def style_of_def)

lemma dispatch_bg: "frame background w (dispatch query t ty w) \<and> timers (dispatch query t ty w) = timers w"
  by (rule dispatch_inv) (auto intro: frame_trans[OF _ run_handler_bg[THEN conjunct1]] simp: run_handler_bg)

lemma observer_callback_frame:
  assumes "\<And>s. p (s\<lparr>animation := fadeInUp\<rparr>) = p s"
  shows "frame p w (observer_callback entries w) \<and> timers (observer_callback entries w) = timers w \<and>
    writes (observer_callback entries w) = writes w"
proof (induction entries w rule: observer_callback.induct)
  case (2 target i entries w)
  have "frame p w (if i then upd_style target (\<lambda>s. s\<lparr>animation := fadeInUp\<rparr>) w else w)"
    using assms by (simp add: frame_upd_style)
  then show ?case using 2 frame_trans by (auto split: if_splits)
qed simp

lemma handle_same_skel: "same_skel w (handle query w ev)"
proof -
  have d: "same_skel w (dispatch query t ty w)" for t ty w using dispatch_bg[of w] by (simp add: frame_def)
  show ?thesis
  proof (cases ev)
    case (Click e)
    have "same_skel w (fold (\<lambda>t. dispatch query (El t) Ev_click) xs w)" for xs
      by (rule fold_inv) (auto intro: same_skel_trans d)
    then show ?thesis using Click by simp
  next
    case (Scroll y)
    have "same_skel w (w\<lparr>pageYOffset := y\<rparr>)" by (simp add: same_skel_def)
    then show ?thesis using Scroll d same_skel_trans by auto
  next
    case (Intersect entries)
    then show ?thesis using observer_callback_frame[of background w entries] by (simp add: frame_def)
  qed (auto simp: d[unfolded same_skel_def] code_copied_def code_failed_def code_timeout_def same_skel_def Let_def split: prod.splits)
qed

lemma handle_highlight:
  assumes e: "e < length (els w)" and en: "enabled w ev"
  shows "highlight_state (handle query w ev) e = highlight_step (highlight_state w e) (highlight_act_of w e ev)"
proof -
  have keep: "highlight_state w' e = highlight_state w e" if "frame background w w'" "timers w' = timers w" for w'
    using that e by (simp add: highlight_state_def frame_def)
  show ?thesis
  proof (cases ev)
    case (Click t)
    have "frame background w (fold (\<lambda>t. dispatch query (El t) Ev_click) xs w) \<and>
        timers (fold (\<lambda>t. dispatch query (El t) Ev_click) xs w) = timers w" for xs
      by (rule fold_inv) (auto intro: frame_trans[OF _ dispatch_bg[THEN conjunct1]] simp: dispatch_bg)
    from keep[OF this[THEN conjunct1] this[THEN conjunct2]] show ?thesis by (simp add: Click)
  next
    case (Enter t)
    from keep[OF dispatch_bg[THEN conjunct1] dispatch_bg[THEN conjunct2]] show ?thesis by (simp add: Enter)
  next
    case (Leave t)
    from keep[OF dispatch_bg[THEN conjunct1] dispatch_bg[THEN conjunct2]] show ?thesis by (simp add: Leave)
  next
    case (Scroll y)
    let ?w = "w\<lparr>pageYOffset := y\<rparr>"
    have f: "frame background w ?w" by (simp add: frame_def same_skel_def style_of_def)
    have "timers (dispatch query Window Ev_scroll ?w) = timers w" using dispatch_bg[of ?w query Window Ev_scroll] by simp
    from keep[OF frame_trans[OF f dispatch_bg[THEN conjunct1]] this] show ?thesis by (simp add: Scroll)
  next
    case (Intersect entries)
    have "frame background w (observer_callback entries w)" "timers (observer_callback entries w) = timers w"
      using observer_callback_frame[of background w entries] by simp_all
    from keep[OF this] show ?thesis by (simp add: Intersect)
  next
    case (Resolve i)
    then show ?thesis using e
      by (simp add: highlight_state_def code_copied_def Let_def style_of_upd_style split: prod.splits)
        (simp add: style_of_def upd_style_def upd_el_def)
  next
    case (Reject i err)
    then show ?thesis by (simp add: highlight_state_def code_failed_def style_of_def emit_def)
  next
    case Timeout
    then obtain t ts where t: "timers w = t # ts" using en by (cases "timers w") auto
    have "e < length (els (w\<lparr>timers := ts\<rparr>))" using e by simp
    from style_of_upd_style[OF this] show ?thesis
      using Timeout t by (simp add: highlight_state_def code_timeout_def) (simp add: style_of_def)
  qed (simp add: highlight_state_def style_of_def)
qed

text \<open>A run, as seen by one code block.\<close>

fun run_acts :: "query \<Rightarrow> World \<Rightarrow> Event list \<Rightarrow> eid \<Rightarrow> highlight_act list" where
  "run_acts query w [] e = []"
| "run_acts query w (ev # evs) e = highlight_act_of w e ev # run_acts query (handle query w ev) evs e"

lemma length_els_handle [simp]: "length (els (handle query w ev)) = length (els w)"
  by (rule same_skelD(1)[OF handle_same_skel])

lemma page_run_same_skel: "page_run query w evs w' \<Longrightarrow> same_skel w w'"
  by (induction rule: page_run.induct) (auto intro: same_skel_trans handle_same_skel)

lemma page_run_highlight:
  "page_run query w evs w' \<Longrightarrow> e < length (els w) \<Longrightarrow>
    highlight_state w' e = foldl highlight_step (highlight_state w e) (run_acts query w evs e)"
  by (induction rule: page_run.induct) (simp_all add: handle_highlight)

text \<open>No copy completes while a timeout of the block is pending.\<close>

fun calm :: "nat \<Rightarrow> highlight_act list \<Rightarrow> bool" where
  "calm n [] \<longleftrightarrow> True"
| "calm n (Copy # as) \<longleftrightarrow> n = 0 \<and> calm 1 as"
| "calm n (Restore # as) \<longleftrightarrow> calm (n - 1) as"
| "calm n (Other # as) \<longleftrightarrow> calm n as"

definition settled :: "string \<Rightarrow> string \<times> string list \<Rightarrow> bool" where
  "settled b s \<longleftrightarrow> s = (b, []) \<or> snd s = [b]"

lemma settled_step:
  "settled b s \<Longrightarrow> calm (length (snd s)) (a # as) \<Longrightarrow>
    settled b (highlight_step s a) \<and> calm (length (snd (highlight_step s a))) as"
  by (cases a; cases s) (auto simp: settled_def)

lemma calm_settled:
  "settled b s \<Longrightarrow> calm (length (snd s)) as \<Longrightarrow> settled b (foldl highlight_step s as)"
proof (induction as arbitrary: s)
  case (Cons a as)
  from settled_step[OF Cons.prems] have "settled b (highlight_step s a)"
    and "calm (length (snd (highlight_step s a))) as" by blast+
  then have "settled b (foldl highlight_step (highlight_step s a) as)" by (rule Cons.IH)
  then show ?case by simp
qed simp

text \<open>With no further copies the queue drains from the front.\<close>

lemma no_copy_idle: "Copy \<notin> set as \<Longrightarrow> foldl highlight_step (b, []) as = (b, [])"
proof (induction as)
  case (Cons a as)
  then show ?case by (cases a) auto
qed simp

lemma drain:
  "Copy \<notin> set as \<Longrightarrow> q \<noteq> [] \<Longrightarrow> foldl highlight_step (bg, q) as = (bg', []) \<Longrightarrow> bg' = last q"
proof (induction as arbitrary: bg q)
  case (Cons a as)
  show ?case
  proof (cases a)
    case Restore
    then obtain x xs where q: "q = x # xs" using Cons.prems by (cases q) auto
    show ?thesis
    proof (cases "xs = []")
      case True
      then show ?thesis using no_copy_idle[of as x] Cons.prems(1,3) Restore q by simp
    next
      case False
      then show ?thesis using Cons.IH[of xs x] Cons.prems Restore q by simp
    qed
  qed (use Cons in auto)
qed simp

text \<open>The background a block ends up with is the one its last copy found.\<close>

lemma last_copy_decides:
  assumes "foldl highlight_step s as = (bg, q)" "Copy \<notin> set cs"
    "foldl highlight_step s (as @ Copy # cs) = (bg', [])"
  shows "bg' = bg"
  using drain[OF assms(2), of "q @ [bg]" highlight bg'] assms(1,3) by simp

lemma highlight_values:
  "fst s \<in> {b, highlight} \<Longrightarrow> set (snd s) \<subseteq> {b, highlight} \<Longrightarrow>
    fst (foldl highlight_step s as) \<in> {b, highlight} \<and> set (snd (foldl highlight_step s as)) \<subseteq> {b, highlight}"
proof (induction as arbitrary: s)
  case (Cons a as)
  obtain bg q where s: "s = (bg, q)" by (cases s)
  have "fst (highlight_step s a) \<in> {b, highlight} \<and> set (snd (highlight_step s a)) \<subseteq> {b, highlight}"
    using Cons.prems s by (cases a; cases q) auto
  then show ?case using Cons.IH by simp
qed simp

end
