(* ===== verification/Website_Page.thy ===== *)
theory Website_Page
  imports Website_Highlight
begin

text \<open>
  What loading the script registers, which handlers each event runs, and the properties of whole runs of the page:
  the transforms and animations of its elements, the clipboard and the queue of timeouts.
\<close>

section \<open>Which handlers run\<close>

fun pick :: "Target \<Rightarrow> EventType \<Rightarrow> (Target \<times> EventType \<times> Handler) list \<Rightarrow> Handler list" where
  "pick t ty [] = []"
| "pick t ty ((t', ty', h) # ls) = (if t' = t \<and> ty' = ty then h # pick t ty ls else pick t ty ls)"

lemma pick_append [simp]: "pick t ty (xs @ ys) = pick t ty xs @ pick t ty ys"
  by (induction t ty xs rule: pick.induct) auto

lemma dispatch_pick: "dispatch query t ty w = fold (\<lambda>h. run_handler query h t) (pick t ty (listeners w)) w"
proof -
  have "fold (\<lambda>(t', ty', h) w. if t' = t \<and> ty' = ty then run_handler query h t w else w) ls w =
      fold (\<lambda>h. run_handler query h t) (pick t ty ls) w" for ls
    by (induction t ty ls arbitrary: w rule: pick.induct) auto
  then show ?thesis by (simp add: dispatch_def)
qed

lemma fold_addEventListener:
  "fold (\<lambda>e. addEventListener (El e) ty h) xs w = w\<lparr>listeners := listeners w @ map (\<lambda>e. (El e, ty, h)) xs\<rparr>"
  by (induction xs arbitrary: w) (simp_all add: addEventListener_def)

lemma fold_card_listeners:
  "fold (\<lambda>e w. addEventListener (El e) Ev_mouseleave Card_leave (addEventListener (El e) Ev_mouseenter Card_enter w)) xs w =
    w\<lparr>listeners := listeners w @ concat (map (\<lambda>e. [(El e, Ev_mouseenter, Card_enter), (El e, Ev_mouseleave, Card_leave)]) xs)\<rparr>"
  by (induction xs arbitrary: w) (simp_all add: addEventListener_def)

lemma fold_observe: "fold (\<lambda>e w. w\<lparr>observed := observed w @ [e]\<rparr>) xs w = w\<lparr>observed := observed w @ xs\<rparr>"
  by (induction xs arbitrary: w) simp_all

definition code_inited :: "Element \<Rightarrow> Element" where
  "code_inited el = el\<lparr>style := (style el)\<lparr>cursor := ''pointer''\<rparr>, el_title := ''Click to copy''\<rparr>"

lemma code_inited_idem [simp]: "code_inited (code_inited el) = code_inited el"
  by (simp add: code_inited_def)

lemma init_code_eq:
  "init_code e w = w\<lparr>els := (els w)[e := code_inited (els w ! e)], listeners := listeners w @ [(El e, Ev_click, Code_click)]\<rparr>"
proof (cases "e < length (els w)")
  case True
  then show ?thesis by (simp add: init_code_def Let_def upd_style_def upd_el_def addEventListener_def code_inited_def)
next
  case False
  then have "(els w)[e := x] = els w" for x by (simp add: list_update_beyond)
  then show ?thesis by (simp add: init_code_def Let_def upd_style_def upd_el_def addEventListener_def)
qed

lemma init_code_simps [simp]:
  "listeners (init_code e w) = listeners w @ [(El e, Ev_click, Code_click)]"
  "observed (init_code e w) = observed w" "timers (init_code e w) = timers w"
  "writes (init_code e w) = writes w" "effects (init_code e w) = effects w"
  "clipboard (init_code e w) = clipboard w" "length (els (init_code e w)) = length (els w)"
  by (simp_all add: init_code_eq)

lemma els_init_code:
  "e < length (els w) \<Longrightarrow> els (init_code x w) ! e = (if e = x then code_inited (els w ! e) else els w ! e)"
  by (simp add: init_code_eq)

lemma fold_init_code_simps [simp]:
  "listeners (fold init_code xs w) = listeners w @ map (\<lambda>e. (El e, Ev_click, Code_click)) xs"
  "observed (fold init_code xs w) = observed w" "timers (fold init_code xs w) = timers w"
  "writes (fold init_code xs w) = writes w" "effects (fold init_code xs w) = effects w"
  "clipboard (fold init_code xs w) = clipboard w" "length (els (fold init_code xs w)) = length (els w)"
  by (induction xs arbitrary: w) simp_all

lemma els_fold_init_code:
  "e < length (els w) \<Longrightarrow>
    els (fold init_code xs w) ! e = (if e \<in> set xs then code_inited (els w ! e) else els w ! e)"
  by (induction xs arbitrary: w) (auto simp: els_init_code)

text \<open>What loading the script leaves: the listeners in registration order, the observed sections, and the code blocks marked.\<close>

definition page_listeners :: "Element list \<Rightarrow> (Target \<times> EventType \<times> Handler) list" where
  "page_listeners ds =
     map (\<lambda>e. (El e, Ev_click, Anchor_click)) (querySelectorAll Sel_anchor_hash ds) @
     (Window, Ev_scroll, Parallax) #
     concat (map (\<lambda>e. [(El e, Ev_mouseenter, Card_enter), (El e, Ev_mouseleave, Card_leave)])
       (querySelectorAll (Sel_class ''feature-card'') ds)) @
     map (\<lambda>e. (El e, Ev_click, Code_click)) (querySelectorAll (Sel_tag ''code'') ds)"

lemmas load_defs = load_script_def reg_anchors_def make_observer_def observe_sections_def reg_parallax_def
  reg_cards_def reg_code_def fold_addEventListener fold_card_listeners fold_observe

lemma load_script_listeners: "listeners (load_script w) = listeners w @ page_listeners (els w)"
  by (simp add: load_defs page_listeners_def)

lemma load_script_observed: "observed (load_script w) = observed w @ querySelectorAll (Sel_tag ''section'') (els w)"
  by (simp add: load_defs)

lemma load_script_simps [simp]:
  "timers (load_script w) = timers w" "writes (load_script w) = writes w" "effects (load_script w) = effects w"
  "clipboard (load_script w) = clipboard w" "length (els (load_script w)) = length (els w)"
  by (simp_all add: load_defs)

lemma querySelectorAll_iff: "e \<in> set (querySelectorAll sel ds) \<longleftrightarrow> e < length ds \<and> matches sel (ds ! e)"
  by (auto simp: querySelectorAll_def)

lemma distinct_querySelectorAll [simp]: "distinct (querySelectorAll sel ds)"
  by (simp add: querySelectorAll_def)

lemma load_script_els:
  "e < length (els w) \<Longrightarrow>
    els (load_script w) ! e = (if tagName (els w ! e) = ''code'' then code_inited (els w ! e) else els w ! e)"
  by (simp add: load_defs els_fold_init_code querySelectorAll_iff)

lemma load_script_same_skel: "same_skel w (load_script w)"
proof -
  have "skel (code_inited el) = skel el" for el by (simp add: skel_def code_inited_def)
  then show ?thesis unfolding same_skel_def
    by (intro nth_equalityI) (simp_all add: load_script_els)
qed

text \<open>The handlers of an event on a page whose only listeners are the script's.\<close>

lemma pick_map:
  "distinct xs \<Longrightarrow> pick t ty (map (\<lambda>e. (El e, ty', h)) xs) = (if ty' = ty \<and> (\<exists>e \<in> set xs. t = El e) then [h] else [])"
  by (induction xs) auto

lemma pick_hover:
  "distinct xs \<Longrightarrow>
    pick t ty (concat (map (\<lambda>e. [(El e, Ev_mouseenter, Card_enter), (El e, Ev_mouseleave, Card_leave)]) xs)) =
    (if \<exists>e \<in> set xs. t = El e then (if ty = Ev_mouseenter then [Card_enter] else if ty = Ev_mouseleave then [Card_leave] else []) else [])"
  by (induction xs) auto

lemma pick_page_listeners:
  "pick (El e) Ev_click (page_listeners ds) =
    (if e < length ds \<and> matches Sel_anchor_hash (ds ! e) then [Anchor_click] else []) @
    (if e < length ds \<and> tagName (ds ! e) = ''code'' then [Code_click] else [])"
  "pick (El e) Ev_mouseenter (page_listeners ds) =
    (if e < length ds \<and> ''feature-card'' \<in> set (classList (ds ! e)) then [Card_enter] else [])"
  "pick (El e) Ev_mouseleave (page_listeners ds) =
    (if e < length ds \<and> ''feature-card'' \<in> set (classList (ds ! e)) then [Card_leave] else [])"
  "pick Window Ev_scroll (page_listeners ds) = [Parallax]"
  by (simp_all add: page_listeners_def pick_map pick_hover querySelectorAll_iff del: matches.simps(1))

section \<open>Runs of the page\<close>

text \<open>The page \<open>ds\<close> with the script loaded: the document up to styles and titles, the listeners and the observed sections.\<close>

definition page :: "Element list \<Rightarrow> World \<Rightarrow> bool" where
  "page ds w \<longleftrightarrow> map skel (els w) = map skel ds \<and> listeners w = page_listeners ds \<and>
     observed w = querySelectorAll (Sel_tag ''section'') ds"

lemma pageD:
  assumes "page ds w"
  shows "length (els w) = length ds" "listeners w = page_listeners ds"
    "observed w = querySelectorAll (Sel_tag ''section'') ds"
    "querySelectorAll sel (els w) = querySelectorAll sel ds"
    "e < length ds \<Longrightarrow> skel (els w ! e) = skel (ds ! e)"
proof -
  have m: "map skel (els w) = map skel ds" using assms by (simp add: page_def)
  show l: "length (els w) = length ds" using m by (metis length_map)
  show "skel (els w ! e) = skel (ds ! e)" if "e < length ds" using m l that by (metis nth_map)
  show "querySelectorAll sel (els w) = querySelectorAll sel ds" by (rule querySelectorAll_skel[OF m])
qed (use assms in \<open>simp_all add: page_def\<close>)

lemma page_load_script: "listeners w = [] \<Longrightarrow> observed w = [] \<Longrightarrow> page (els w) (load_script w)"
  using load_script_same_skel[of w] by (simp add: page_def same_skel_def load_script_listeners load_script_observed)

lemma frame_page: "page ds w \<Longrightarrow> frame p w w' \<Longrightarrow> page ds w'"
  by (simp add: page_def frame_def same_skel_def)

lemma page_matches: "page ds w \<Longrightarrow> e < length ds \<Longrightarrow> matches sel (els w ! e) = matches sel (ds ! e)"
  by (rule matches_skel) (rule pageD(5))

lemma page_textContent: "page ds w \<Longrightarrow> e < length ds \<Longrightarrow> textContent (els w ! e) = textContent (ds ! e)"
  by (rule textContent_skel) (rule pageD(5))

lemma handle_listeners: "listeners (handle query w ev) = listeners w \<and> observed (handle query w ev) = observed w"
proof -
  have d: "listeners (dispatch query t ty w) = listeners w \<and> observed (dispatch query t ty w) = observed w" for t ty w
    using dispatch_bg[of w query t ty] by (simp add: frame_def)
  have f: "listeners (fold (\<lambda>t. dispatch query (El t) Ev_click) xs w) = listeners w \<and>
      observed (fold (\<lambda>t. dispatch query (El t) Ev_click) xs w) = observed w" for xs
    by (rule fold_inv) (auto simp: d)
  have o: "listeners (observer_callback es w) = listeners w \<and> observed (observer_callback es w) = observed w" for es
    using observer_callback_frame[of background w es] by (simp add: frame_def)
  show ?thesis
    by (cases ev) (simp_all add: d f o code_copied_def code_failed_def code_timeout_def Let_def split: prod.splits)
qed

lemma page_handle: "page ds w \<Longrightarrow> page ds (handle query w ev)"
  using handle_same_skel[of w query ev] handle_listeners[of query w ev] by (simp add: page_def same_skel_def)

lemma page_run_inv:
  assumes "page_run query w evs w'" "page ds w" "P w"
    "\<And>w ev. page ds w \<Longrightarrow> P w \<Longrightarrow> enabled w ev \<Longrightarrow> P (handle query w ev)"
  shows "page ds w' \<and> P w'"
  using assms(1-3) by (induction rule: page_run.induct) (use assms(4) page_handle in blast)+

text \<open>Runs as computations.\<close>

fun runnable :: "query \<Rightarrow> World \<Rightarrow> Event list \<Rightarrow> bool" where
  "runnable query w [] \<longleftrightarrow> True"
| "runnable query w (ev # evs) \<longleftrightarrow> enabled w ev \<and> runnable query (handle query w ev) evs"

lemma page_run_iff: "page_run query w evs w' \<longleftrightarrow> runnable query w evs \<and> w' = foldl (handle query) w evs"
proof
  show "page_run query w evs w' \<Longrightarrow> runnable query w evs \<and> w' = foldl (handle query) w evs"
    by (induction rule: page_run.induct) auto
  have "runnable query w evs \<Longrightarrow> page_run query w evs (foldl (handle query) w evs)"
    by (induction evs arbitrary: w) (auto intro: page_run.intros)
  then show "runnable query w evs \<and> w' = foldl (handle query) w evs \<Longrightarrow> page_run query w evs w'" by simp
qed

subsection \<open>One event\<close>

lemma handle_Enter:
  "page ds w \<Longrightarrow> handle query w (Enter e) =
    (if e < length ds \<and> ''feature-card'' \<in> set (classList (ds ! e)) then card_enter e w else w)"
  by (simp add: dispatch_pick pageD(2) pick_page_listeners)

lemma handle_Leave:
  "page ds w \<Longrightarrow> handle query w (Leave e) =
    (if e < length ds \<and> ''feature-card'' \<in> set (classList (ds ! e)) then card_leave e w else w)"
  by (simp add: dispatch_pick pageD(2) pick_page_listeners)

lemma handle_Scroll: "page ds w \<Longrightarrow> handle query w (Scroll y) = parallax (w\<lparr>pageYOffset := y\<rparr>)"
  by (simp add: dispatch_pick pageD(2) pick_page_listeners)

text \<open>What a click does on one element of its path.\<close>

definition anchor_effects :: "query \<Rightarrow> Element list \<Rightarrow> eid \<Rightarrow> Effect list" where
  "anchor_effects query ds e = PreventDefault e #
     (case query ds (case href (ds ! e) of None \<Rightarrow> ''null'' | Some h \<Rightarrow> h) of
        Inl err \<Rightarrow> [Uncaught err]
      | Inr None \<Rightarrow> []
      | Inr (Some target) \<Rightarrow> [ScrollIntoView target ''smooth'' ''start''])"

definition click_effects :: "query \<Rightarrow> bool \<Rightarrow> Element list \<Rightarrow> eid \<Rightarrow> Effect list" where
  "click_effects query clip ds e =
     (if matches Sel_anchor_hash (ds ! e) then anchor_effects query ds e else []) @
     (if tagName (ds ! e) = ''code'' \<and> \<not> clip then [Console_error ''Failed to copy:'' ''TypeError''] else [])"

definition click_writes :: "bool \<Rightarrow> Element list \<Rightarrow> eid \<Rightarrow> (eid \<times> string) list" where
  "click_writes clip ds e = (if tagName (ds ! e) = ''code'' \<and> clip then [(e, textContent (ds ! e))] else [])"

lemma anchor_click_eq: "anchor_click query e w = w\<lparr>effects := effects w @ anchor_effects query (els w) e\<rparr>"
  by (auto simp: anchor_click_def Let_def emit_def anchor_effects_def split: sum.splits option.splits)

lemma code_click_eq:
  "code_click e w = w\<lparr>writes := writes w @ (if clipboard_present w then [(e, textContent (els w ! e))] else []),
     effects := effects w @ (if clipboard_present w then [] else [Console_error ''Failed to copy:'' ''TypeError''])\<rparr>"
  by (simp add: code_click_def emit_def Let_def)

lemma dispatch_click:
  assumes p: "page ds w" and e: "e < length ds"
  shows "dispatch query (El e) Ev_click w =
    w\<lparr>writes := writes w @ click_writes (clipboard_present w) (els w) e,
      effects := effects w @ click_effects query (clipboard_present w) (els w) e\<rparr>"
proof -
  have a: "matches Sel_anchor_hash (ds ! e) \<longleftrightarrow> matches Sel_anchor_hash (els w ! e)"
    and c: "tagName (ds ! e) = ''code'' \<longleftrightarrow> tagName (els w ! e) = ''code''"
    using page_matches[OF p e, of Sel_anchor_hash] page_matches[OF p e, of "Sel_tag ''code''"] by simp_all
  show ?thesis unfolding dispatch_pick pageD(2)[OF p] pick_page_listeners(1) a c
    using e by (simp add: anchor_click_eq code_click_eq click_writes_def click_effects_def del: matches.simps)
qed

lemma event_path_le: "t \<in> set (event_path ds e) \<Longrightarrow> t \<le> e"
  by (induction ds e rule: event_path.induct) (subst (asm) (2) event_path.simps, force split: option.splits if_splits)

lemma handle_Click:
  assumes p: "page ds w" and e: "e < length ds"
  shows "handle query w (Click e) =
    w\<lparr>writes := writes w @ concat (map (click_writes (clipboard_present w) (els w)) (event_path (els w) e)),
      effects := effects w @ concat (map (click_effects query (clipboard_present w) (els w)) (event_path (els w) e))\<rparr>"
proof -
  have "\<forall>t \<in> set ts. t < length ds \<Longrightarrow> page ds v \<Longrightarrow> fold (\<lambda>t. dispatch query (El t) Ev_click) ts v =
    v\<lparr>writes := writes v @ concat (map (click_writes (clipboard_present v) (els v)) ts),
      effects := effects v @ concat (map (click_effects query (clipboard_present v) (els v)) ts)\<rparr>" for ts v
  proof (induction ts arbitrary: v)
    case (Cons t ts)
    let ?v = "dispatch query (El t) Ev_click v"
    have "page ds ?v" using Cons.prems(2) dispatch_bg frame_page by blast
    from Cons.IH[OF _ this] Cons.prems show ?case by (simp add: dispatch_click)
  qed simp
  then show ?thesis using p e event_path_le[of _ "els w" e] by fastforce
qed

subsection \<open>Transforms and animations over a run\<close>

text \<open>
  The abstract view of one element: its transform follows the pointer if it is a card and the scroll
  position if it is the hero background; its animation is set once it has intersected.
\<close>

definition hero_transform :: "int \<Rightarrow> string" where
  "hero_transform y = ''translateY('' @ half_str y @ ''px)''"

fun transform_step :: "Element list \<Rightarrow> eid \<Rightarrow> string \<Rightarrow> Event \<Rightarrow> string" where
  "transform_step ds e v (Enter e') =
     (if e' = e \<and> ''feature-card'' \<in> set (classList (ds ! e)) then card_hover else v)"
| "transform_step ds e v (Leave e') =
     (if e' = e \<and> ''feature-card'' \<in> set (classList (ds ! e)) then card_rest else v)"
| "transform_step ds e v (Scroll y) =
     (if querySelector (Sel_class ''hero-bg'') ds = Some e then hero_transform y else v)"
| "transform_step ds e v _ = v"

fun animation_step :: "eid \<Rightarrow> string \<Rightarrow> Event \<Rightarrow> string" where
  "animation_step e v (Intersect entries) = (if (e, True) \<in> set entries then fadeInUp else v)"
| "animation_step e v _ = v"

lemma style_of_more [simp]:
  "style_of (w\<lparr>timers := a\<rparr>) = style_of w" "style_of (w\<lparr>writes := b\<rparr>) = style_of w"
  "style_of (w\<lparr>writes := b, effects := c\<rparr>) = style_of w" "style_of (w\<lparr>now := n\<rparr>) = style_of w"
  "style_of (w\<lparr>writes := b, clipboard := d\<rparr>) = style_of w" "style_of (w\<lparr>pageYOffset := y\<rparr>) = style_of w"
  by (simp_all add: style_of_def fun_eq_iff)

lemma page_querySelector: "page ds w \<Longrightarrow> querySelector sel (els w) = querySelector sel ds"
  by (simp add: querySelector_def pageD(4))

lemma parallax_style:
  assumes "page ds w" "e < length ds"
  shows "style_of (parallax (w\<lparr>pageYOffset := y\<rparr>)) e =
    (if querySelector (Sel_class ''hero-bg'') ds = Some e then (style_of w e)\<lparr>transform := hero_transform y\<rparr>
     else style_of w e)"
  using assms
  by (auto simp: parallax_def Let_def page_querySelector style_of_upd_style pageD(1) hero_transform_def split: option.splits)

lemma observer_callback_style:
  "e < length (els w) \<Longrightarrow> style_of (observer_callback entries w) e =
    (if (e, True) \<in> set entries then (style_of w e)\<lparr>animation := fadeInUp\<rparr> else style_of w e)"
  by (induction entries w rule: observer_callback.induct) (auto simp: style_of_upd_style)

text \<open>The whole style of an element after one event, in terms of the parts its handlers own.\<close>

lemma handle_style:
  assumes p: "page ds w" and e: "e < length ds" and en: "enabled w ev"
  shows "style_of (handle query w ev) e = (style_of w e)\<lparr>
    transform := transform_step ds e (transform (style_of w e)) ev,
    animation := animation_step e (animation (style_of w e)) ev,
    background := fst (highlight_step (highlight_state w e) (highlight_act_of w e ev))\<rparr>"
proof -
  have l: "length (els w) = length ds" using p by (rule pageD)
  have id: "fst (highlight_state w e) = background (style_of w e)" by (simp add: highlight_state_def)
  note simps = l card_enter_def card_leave_def style_of_upd_style id code_failed_def
  show ?thesis
  proof (cases ev)
    case (Click e')
    then show ?thesis using handle_Click[OF p, of e'] en e by (simp add: simps del: handle.simps)
  next
    case (Enter e')
    then show ?thesis using handle_Enter[OF p, of query e'] e by (simp add: simps del: handle.simps)
  next
    case (Leave e')
    then show ?thesis using handle_Leave[OF p, of query e'] e by (simp add: simps del: handle.simps)
  next
    case (Scroll y)
    then show ?thesis using handle_Scroll[OF p, of query y] e parallax_style[OF p e, of y]
      by (simp add: simps del: handle.simps)
  next
    case (Intersect entries)
    then show ?thesis using e by (simp add: simps observer_callback_style)
  next
    case (Resolve i)
    then show ?thesis using e
      by (simp add: highlight_state_def code_copied_def Let_def style_of_upd_style l split: prod.splits)
  next
    case Timeout
    then obtain t ts where "timers w = t # ts" using en by (cases "timers w") auto
    then show ?thesis using Timeout e by (simp add: highlight_state_def code_timeout_def style_of_upd_style l)
  qed (simp_all add: simps)
qed

lemma page_run_style:
  assumes "page_run query w evs w'" "page ds w" "e < length ds"
  shows "transform (style_of w' e) = foldl (transform_step ds e) (transform (style_of w e)) evs \<and>
    animation (style_of w' e) = foldl (animation_step e) (animation (style_of w e)) evs \<and>
    cursor (style_of w' e) = cursor (style_of w e)"
  using assms
proof (induction rule: page_run.induct)
  case (run_cons w ev evs w')
  from run_cons.IH[OF page_handle[OF run_cons.prems(1)] run_cons.prems(2)] show ?case
    by (simp add: handle_style[OF run_cons.prems run_cons.hyps(1)] del: handle.simps)
qed simp

lemma animation_foldl:
  "foldl (animation_step e) v evs =
    (if \<exists>entries. Intersect entries \<in> set evs \<and> (e, True) \<in> set entries then fadeInUp else v)"
proof (induction evs arbitrary: v)
  case (Cons ev evs)
  then show ?case by (cases ev) auto
qed simp

subsection \<open>The clipboard\<close>

definition writes_ok :: "Element list \<Rightarrow> World \<Rightarrow> bool" where
  "writes_ok ds w \<longleftrightarrow> (\<forall>(e, txt) \<in> set (writes w).
     e < length ds \<and> tagName (ds ! e) = ''code'' \<and> txt = textContent (ds ! e))"

lemma set_drop_nth: "set (drop_nth i xs) \<subseteq> set xs"
  unfolding drop_nth_def using set_take_subset set_drop_subset by (metis Un_subset_iff set_append)

lemma page_tagName: "page ds w \<Longrightarrow> e < length ds \<Longrightarrow> tagName (els w ! e) = tagName (ds ! e)"
  using pageD(5)[of ds w e] by (simp add: skel_def)

lemma writes_observer_callback: "writes (observer_callback es w) = writes w"
  using observer_callback_frame[of background w es] by simp

lemma writes_ok_handle:
  assumes p: "page ds w" and ok: "writes_ok ds w" and en: "enabled w ev"
  shows "writes_ok ds (handle query w ev)"
proof (cases ev)
  case (Click e)
  then have e: "e < length ds" using en pageD(1)[OF p] by simp
  have "(t, s) \<in> set (click_writes c (els w) t') \<Longrightarrow> t' < length ds \<Longrightarrow>
      t < length ds \<and> tagName (ds ! t) = ''code'' \<and> s = textContent (ds ! t)" for t s t' c
    using page_tagName[OF p] page_textContent[OF p] by (auto simp: click_writes_def split: if_splits)
  moreover have "t < length ds" if "t \<in> set (event_path (els w) e)" for t
    using event_path_le[OF that] e by simp
  ultimately show ?thesis using ok Click by (auto simp: handle_Click[OF p e] writes_ok_def simp del: handle.simps)
next
  case (Enter e)
  then show ?thesis using ok by (simp add: handle_Enter[OF p] writes_ok_def card_enter_def del: handle.simps)
next
  case (Leave e)
  then show ?thesis using ok by (simp add: handle_Leave[OF p] writes_ok_def card_leave_def del: handle.simps)
next
  case (Scroll y)
  then show ?thesis using ok
    by (simp add: handle_Scroll[OF p] writes_ok_def parallax_def Let_def del: handle.simps split: option.splits)
next
  case (Resolve i)
  then show ?thesis using ok set_drop_nth[of i "writes w"]
    by (auto simp: writes_ok_def code_copied_def Let_def split: prod.splits)
next
  case (Reject i err)
  then show ?thesis using ok set_drop_nth[of i "writes w"] by (auto simp: writes_ok_def code_failed_def)
qed (use ok in \<open>simp_all add: writes_ok_def writes_observer_callback code_timeout_def\<close>)

lemma handle_Resolve:
  assumes "page ds w" "writes_ok ds w" "i < length (writes w)" "writes w ! i = (e, txt)"
  shows "clipboard (handle query w (Resolve i)) = textContent (ds ! e)"
    "background (style_of (handle query w (Resolve i)) e) = highlight"
    "timers (handle query w (Resolve i)) =
      timers w @ [\<lparr>due = now w + 200, timer_el = e, originalBg = background (style_of w e)\<rparr>]"
proof -
  have "(e, txt) \<in> set (writes w)" using assms(3,4) nth_mem by metis
  then have e: "e < length ds" "txt = textContent (ds ! e)" using assms(2) by (auto simp: writes_ok_def)
  then show "clipboard (handle query w (Resolve i)) = textContent (ds ! e)"
    "background (style_of (handle query w (Resolve i)) e) = highlight"
    "timers (handle query w (Resolve i)) =
      timers w @ [\<lparr>due = now w + 200, timer_el = e, originalBg = background (style_of w e)\<rparr>]"
    using assms(4) pageD(1)[OF assms(1)] by (simp_all add: code_copied_def Let_def style_of_upd_style)
qed

definition code_texts :: "Element list \<Rightarrow> string set" where
  "code_texts ds = {textContent (ds ! e) | e. e < length ds \<and> tagName (ds ! e) = ''code''}"

lemma clipboard_handle:
  assumes p: "page ds w" and ok: "writes_ok ds w" and en: "enabled w ev"
  shows "clipboard (handle query w ev) = clipboard w \<or>
    (\<exists>i. ev = Resolve i) \<and> clipboard (handle query w ev) \<in> code_texts ds"
proof (cases ev)
  case (Resolve i)
  obtain e s where i: "writes w ! i = (e, s)" by (cases "writes w ! i")
  have "i < length (writes w)" using en Resolve by simp
  from handle_Resolve(1)[OF p ok this i] nth_mem[OF this] i ok show ?thesis
    unfolding code_texts_def writes_ok_def Resolve by (auto simp del: handle.simps)
next
  case (Click e)
  then show ?thesis using handle_Click[OF p] en pageD(1)[OF p] by (simp del: handle.simps)
next
  case (Intersect es)
  have "clipboard (observer_callback es w) = clipboard w"
    by (induction es w rule: observer_callback.induct) auto
  then show ?thesis using Intersect by simp
next
  case (Scroll y)
  then show ?thesis by (simp add: handle_Scroll[OF p] parallax_def Let_def del: handle.simps split: option.splits)
qed (simp_all add: handle_Enter[OF p, unfolded handle.simps] handle_Leave[OF p, unfolded handle.simps]
  card_enter_def card_leave_def code_failed_def code_timeout_def)

lemma page_run_clipboard:
  assumes "page_run query w evs w'" "page ds w" "writes_ok ds w"
  shows "writes_ok ds w' \<and> clipboard w' \<in> insert (clipboard w) (code_texts ds)"
  using page_run_inv[OF assms(1,2), where P = "\<lambda>v. writes_ok ds v \<and> clipboard v \<in> insert (clipboard w) (code_texts ds)"]
    assms(3) writes_ok_handle clipboard_handle by (metis (no_types, lifting) insert_iff)

subsection \<open>Timeouts\<close>

text \<open>The queue is in the order of the due times and nothing is due later than 200 ms from now.\<close>

definition timers_ok :: "World \<Rightarrow> bool" where
  "timers_ok w \<longleftrightarrow> sorted (map due (timers w)) \<and> (\<forall>t \<in> set (timers w). due t \<le> now w + 200)"

lemma now_timers_handle:
  assumes p: "page ds w" and en: "enabled w ev"
  shows "(now (handle query w ev), timers (handle query w ev)) =
    (case ev of
       Advance d \<Rightarrow> (now w + d, timers w)
     | Resolve i \<Rightarrow> (let e = fst (writes w ! i) in
         (now w, timers w @ [\<lparr>due = now w + 200, timer_el = e, originalBg = background (style_of w e)\<rparr>]))
     | Timeout \<Rightarrow> (now w, tl (timers w))
     | _ \<Rightarrow> (now w, timers w))"
proof (cases ev)
  case (Click e)
  then show ?thesis using handle_Click[OF p] en pageD(1)[OF p] by (simp del: handle.simps)
next
  case (Intersect es)
  have "now (observer_callback es w) = now w \<and> timers (observer_callback es w) = timers w"
    by (induction es w rule: observer_callback.induct) auto
  then show ?thesis using Intersect by simp
next
  case (Scroll y)
  then show ?thesis by (simp add: handle_Scroll[OF p] parallax_def Let_def del: handle.simps split: option.splits)
qed (auto simp: handle_Enter[OF p, unfolded handle.simps] handle_Leave[OF p, unfolded handle.simps]
  card_enter_def card_leave_def code_failed_def code_timeout_def code_copied_def Let_def split: prod.splits)

lemma timers_ok_handle:
  assumes p: "page ds w" and ok: "timers_ok w" and en: "enabled w ev"
  shows "timers_ok (handle query w ev)"
proof -
  have tl: "sorted (map due (tl ts)) \<and> (\<forall>t \<in> set (tl ts). due t \<le> n)"
    if "sorted (map due ts)" "\<forall>t \<in> set ts. due t \<le> n" for ts n
    using that by (cases ts) auto
  have ok': "sorted (map due (timers w))" "\<forall>t \<in> set (timers w). due t \<le> now w + 200"
    using ok by (auto simp: timers_ok_def)
  show ?thesis unfolding timers_ok_def using now_timers_handle[OF p en, of query] ok' tl[OF ok']
    by (cases ev) (auto simp: sorted_append Let_def trans_le_add1 simp del: handle.simps)
qed

lemma page_run_timers_ok:
  "page_run query w evs w' \<Longrightarrow> page ds w \<Longrightarrow> timers_ok w \<Longrightarrow> timers_ok w'"
  using page_run_inv[where P = timers_ok] timers_ok_handle by blast

lemma no_copy_run:
  "page_run query w evs w' \<Longrightarrow> page ds w \<Longrightarrow> writes_ok ds w \<Longrightarrow> timers w = [] \<Longrightarrow> \<forall>i. Resolve i \<notin> set evs \<Longrightarrow>
    clipboard w' = clipboard w \<and> timers w' = [] \<and>
    (\<forall>e < length ds. background (style_of w' e) = background (style_of w e))"
proof (induction rule: page_run.induct)
  case (run_cons w ev evs w')
  note p = run_cons.prems(1) and en = run_cons.hyps(1)
  let ?w = "handle query w ev"
  have nt: "ev \<noteq> Timeout" "\<nexists>i. ev = Resolve i" using en run_cons.prems(3,4) by auto
  have t: "timers ?w = []" using now_timers_handle[OF p en, of query] nt run_cons.prems(3)
    by (cases ev) (auto simp del: handle.simps)
  have b: "background (style_of ?w e) = background (style_of w e)" if "e < length ds" for e
    using handle_style[OF p that en, of query] nt by (cases ev) (simp_all add: highlight_state_def del: handle.simps)
  have c: "clipboard ?w = clipboard w" using clipboard_handle[OF p run_cons.prems(2) en, of query] nt by blast
  from run_cons.IH[OF page_handle[OF p] writes_ok_handle[OF p run_cons.prems(2) en] t] run_cons.prems(4) b c
  show ?case by simp
qed simp

text \<open>After 200 ms every pending timeout can run; then none is left.\<close>

lemma drain_due:
  assumes "page ds w" "\<forall>t \<in> set (timers w). due t \<le> now w"
  shows "\<exists>w'. page_run query w (replicate (length (timers w)) Timeout) w' \<and> timers w' = []"
  using assms
proof (induction "timers w" arbitrary: w)
  case Nil
  then show ?case using run_nil by (metis length_0_conv replicate_0)
next
  case (Cons t ts)
  let ?w = "handle query w Timeout"
  have en: "enabled w Timeout" using Cons by (cases "timers w") auto
  have nt: "now ?w = now w" "timers ?w = ts"
    using now_timers_handle[OF Cons.prems(1) en, of query] Cons.hyps(2)[symmetric] by (simp_all del: handle.simps)
  have "\<exists>w'. page_run query ?w (replicate (length (timers ?w)) Timeout) w' \<and> timers w' = []"
  proof (rule Cons.hyps(1))
    show "ts = timers ?w" using nt by simp
    show "page ds ?w" by (rule page_handle[OF Cons.prems(1)])
    show "\<forall>t \<in> set (timers ?w). due t \<le> now ?w"
      unfolding nt using Cons.prems(2) unfolding Cons.hyps(2)[symmetric] by simp
  qed
  then show ?case using run_cons[OF en] nt Cons.hyps(2)[symmetric] by (auto simp del: handle.simps)
qed

lemma drain_timers:
  assumes "page ds w" "timers_ok w"
  shows "\<exists>w'. page_run query w (Advance 200 # replicate (length (timers w)) Timeout) w' \<and> timers w' = []"
proof -
  let ?w = "handle query w (Advance 200)"
  have "\<exists>w'. page_run query ?w (replicate (length (timers ?w)) Timeout) w' \<and> timers w' = []"
    by (rule drain_due[OF page_handle[OF assms(1)]]) (use assms(2) in \<open>simp add: timers_ok_def\<close>)
  then show ?thesis using run_cons[of w "Advance 200"] by auto
qed

subsection \<open>Numbers as text\<close>

definition str_nat :: "string \<Rightarrow> nat" where
  "str_nat s = foldl (\<lambda>a c. 10 * a + (of_char c - 48)) 0 s"

lemma str_nat_nat_str [simp]: "str_nat (nat_str n) = n"
proof (induction n rule: nat_str.induct)
  case (1 n)
  have d: "of_char (char_of (48 + k) :: char) - 48 = (k::nat)" if "k < 10" for k using that by simp
  show ?case
  proof (cases "n < 10")
    case True
    then show ?thesis using d[of n] by (simp add: nat_str.simps[of n] str_nat_def)
  next
    case False
    then show ?thesis using 1 d[of "n mod 10"] by (simp add: nat_str.simps[of n] str_nat_def)
  qed
qed

lemma nat_str_digits: "c \<in> set (nat_str n) \<Longrightarrow> 48 \<le> (of_char c :: nat) \<and> of_char c < (58 :: nat)"
proof (induction n rule: nat_str.induct)
  case (1 n)
  then show ?case by (subst (asm) (2) nat_str.simps) (auto split: if_splits)
qed

text \<open>Reading back what \<open>half_str\<close> prints.\<close>

definition half_int :: "string \<Rightarrow> int" where
  "half_int s =
     (let neg = take 1 s = ''-'';
          b = (if neg then tl s else s);
          v = 2 * int (str_nat (takeWhile (\<lambda>c. c \<noteq> CHR ''.'') b)) + (if CHR ''.'' \<in> set b then 1 else 0) in
      if neg then - v else v)"

lemma nat_str_no_punct: "CHR ''.'' \<notin> set (nat_str n)" "CHR ''-'' \<notin> set (nat_str n)"
  using nat_str_digits[of "CHR ''.''" n] nat_str_digits[of "CHR ''-''" n] by auto

lemma nat_str_Nil [simp]: "nat_str n \<noteq> []"
  by (simp add: nat_str.simps)

lemma half_int_body:
  assumes "take 1 b \<noteq> ''-''"
  shows "half_int b = 2 * int (str_nat (takeWhile (\<lambda>c. c \<noteq> CHR ''.'') b)) + (if CHR ''.'' \<in> set b then 1 else 0)"
    "half_int (CHR ''-'' # b) = - half_int b"
  using assms by (simp_all add: half_int_def Let_def)

lemma half_int_half_str: "half_int (half_str n) = n"
proof -
  define b where "b = nat_str (nat \<bar>n\<bar> div 2) @ (if odd n then ''.5'' else '''')"
  have "take 1 b \<noteq> ''-''"
    using nat_str_no_punct(2)[of "nat \<bar>n\<bar> div 2"] nat_str_Nil[of "nat \<bar>n\<bar> div 2"]
    by (cases "nat_str (nat \<bar>n\<bar> div 2)") (auto simp: b_def)
  note h = half_int_body[OF this]
  have no: "c \<noteq> CHR ''.''" if "c \<in> set (nat_str k)" for c k using that nat_str_no_punct(1) by metis
  have "takeWhile (\<lambda>c. c \<noteq> CHR ''.'') b = nat_str (nat \<bar>n\<bar> div 2)"
    unfolding b_def using no by (subst takeWhile_append2) auto
  moreover have "CHR ''.'' \<in> set b \<longleftrightarrow> odd n" using nat_str_no_punct(1) by (simp add: b_def)
  ultimately have "half_int b = \<bar>n\<bar>" using h(1) by (simp add: zdiv_int)
  moreover have "half_str n = (if n < 0 then CHR ''-'' # b else b)" by (simp add: half_str_def b_def)
  ultimately show ?thesis using h(2) by simp
qed

lemma hero_transform_inject: "hero_transform y = hero_transform y' \<longleftrightarrow> y = y'"
proof -
  have "half_str y = half_str y' \<Longrightarrow> y = y'" using half_int_half_str by metis
  then show ?thesis by (auto simp: hero_transform_def)
qed

end
