(* ===== verification/Index_Page.thy ===== *)
theory Index_Page
  imports Website_Page
begin

text \<open>
  Elements of \<open>website/index.html\<close> as a concrete page on which the script runs.
\<close>

section \<open>The page of the site\<close>

text \<open>
  A selection of the elements of \<open>website/index.html\<close> on which to run the script: two of the sections, the two kinds
  of link, the hero background, one of the six cards and both code blocks, without the layout elements
  between them.  \<open>id_query\<close> is \<open>querySelector\<close> for selectors of the form \<open>#id\<close>.
\<close>

definition no_style :: Style where
  "no_style = \<lparr>animation = '''', transform = '''', background = '''', cursor = ''''\<rparr>"

definition mk :: "string \<Rightarrow> string list \<Rightarrow> eid option \<Rightarrow> Element" where
  "mk tag cls parent = \<lparr>tagName = tag, classList = cls, href = None, el_id = None, childNodes = [],
     parentEl = parent, el_title = '''', style = no_style\<rparr>"

definition index_page :: "Element list" where
  "index_page =
    [mk ''body'' [] None,
     mk ''section'' [''hero''] (Some 0),
     (mk ''a'' [''btn'', ''btn-primary''] (Some 1))
       \<lparr>href := Some ''#get-started'', childNodes := [TextNode ''Start Mining'']\<rparr>,
     (mk ''a'' [''btn'', ''btn-secondary''] (Some 1))
       \<lparr>href := Some ''WHITEPAPER.pdf'', childNodes := [TextNode ''Whitepaper'']\<rparr>,
     mk ''div'' [''hero-bg''] (Some 1),
     mk ''div'' [''feature-card''] (Some 0),
     (mk ''section'' [''get-started''] (Some 0))\<lparr>el_id := Some ''get-started''\<rparr>,
     (mk ''code'' [] (Some 6))\<lparr>childNodes :=
       [TextNode ''./bin/btc3d -daemon'', ElementNode ''br'' [], TextNode ''./bin/btc3-cli createwallet \"miner\"'']\<rparr>,
     (mk ''code'' [] (Some 6))\<lparr>childNodes :=
       [TextNode ''./bin/btc3-cli generatetoaddress 1 $(./bin/btc3-cli getnewaddress)'']\<rparr>]"

definition id_query :: query where
  "id_query ds sel =
     (case sel of
        c # name \<Rightarrow>
          if c = CHR ''#'' \<and> name \<noteq> [] then
            Inr (case filter (\<lambda>e. el_id (ds ! e) = Some name) [0..<length ds] of [] \<Rightarrow> None | e # _ \<Rightarrow> Some e)
          else Inl ''SyntaxError''
      | [] \<Rightarrow> Inl ''SyntaxError'')"

definition fresh_world :: "Element list \<Rightarrow> World" where
  "fresh_world ds = \<lparr>els = ds, listeners = [], observed = [], obs_threshold_percent = 0, obs_rootMargin = '''',
     pageYOffset = 0, clipboard_present = True, clipboard = '''', writes = [], timers = [], now = 0, effects = []\<rparr>"

definition index_world :: World where
  "index_world = load_script (fresh_world index_page)"

lemma fresh_world_simps [simp]:
  "els (fresh_world ds) = ds" "listeners (fresh_world ds) = []" "observed (fresh_world ds) = []"
  "writes (fresh_world ds) = []" "timers (fresh_world ds) = []" "clipboard (fresh_world ds) = ''''"
  "effects (fresh_world ds) = []" "clipboard_present (fresh_world ds) = True" "now (fresh_world ds) = 0"
  by (simp_all add: fresh_world_def)

lemma page_index_world: "page index_page index_world"
  using page_load_script[of "fresh_world index_page"] by (simp add: index_world_def)

lemma index_world_simps [simp]:
  "length (els index_world) = 9" "writes index_world = []" "timers index_world = []" "effects index_world = []"
  "clipboard index_world = ''''"
  by (simp_all add: index_world_def index_page_def)

lemma index_world_ok [simp]: "writes_ok index_page index_world" "timers_ok index_world"
  by (simp_all add: writes_ok_def timers_ok_def)

text \<open>Two runs on the page of the site: one copy of the second code block, and two copies of it 50 ms apart.\<close>

abbreviation copy_once :: "Event list" where
  "copy_once \<equiv> [Scroll 11, Click 8, Enter 5, Resolve 0, Advance 200, Timeout]"

abbreviation copy_twice :: "Event list" where
  "copy_twice \<equiv> [Click 8, Resolve 0, Advance 50, Click 8, Resolve 0, Advance 150, Timeout, Advance 50, Timeout]"

end
