(* ===== verification/Arith_Uint256.thy ===== *)
theory Arith_Uint256
  imports Prelude
begin

text \<open>
  The 256-bit unsigned integers of \<open>src/src/arith_uint256.h\<close> and \<open>src/src/arith_uint256.cpp\<close>: a
  little-endian array \<open>pn\<close> of 32-bit limbs with schoolbook arithmetic, and the compact
  ("nBits") encoding of difficulty targets.  \<open>base_uint\<close> is the list of limbs; \<open>WIDTH\<close> is its length,
  so the operations are those of the class template at any width, and
  \<open>base_uint_0\<close> and \<open>base_uint_u64\<close> construct the 256-bit instance.  The lemmas relate every
  operation to arithmetic on the value \<open>val_le\<close> modulo \<open>2 ^ (32 * WIDTH)\<close>.
\<close>

section \<open>Model\<close>

type_synonym base_uint = "u32 list"

definition WIDTH :: nat where
  "WIDTH = 256 div 32"

definition base_uint_0 :: base_uint where
  "base_uint_0 = replicate WIDTH 0"

definition base_uint_u64 :: "u64 \<Rightarrow> base_uint" where
  "base_uint_u64 b = ucast b # ucast (drop_bit 32 b) # replicate (WIDTH - 2) 0"

subsection \<open>Bitwise operators\<close>

definition bu_not :: "base_uint \<Rightarrow> base_uint" where
  "bu_not pn = map NOT pn"

definition bu_xor :: "base_uint \<Rightarrow> base_uint \<Rightarrow> base_uint" where
  "bu_xor pn b = map2 (XOR) pn b"

definition bu_and :: "base_uint \<Rightarrow> base_uint \<Rightarrow> base_uint" where
  "bu_and pn b = map2 (AND) pn b"

definition bu_or :: "base_uint \<Rightarrow> base_uint \<Rightarrow> base_uint" where
  "bu_or pn b = map2 (OR) pn b"

definition bu_xor_u64 :: "base_uint \<Rightarrow> u64 \<Rightarrow> base_uint" where
  "bu_xor_u64 pn b =
     (let pn' = pn[0 := pn ! 0 XOR ucast b] in pn'[1 := pn' ! 1 XOR ucast (drop_bit 32 b)])"

definition bu_or_u64 :: "base_uint \<Rightarrow> u64 \<Rightarrow> base_uint" where
  "bu_or_u64 pn b =
     (let pn' = pn[0 := pn ! 0 OR ucast b] in pn'[1 := pn' ! 1 OR ucast (drop_bit 32 b)])"

text \<open>One iteration of the loop of \<open>operator<<=\<close>: limb \<open>i\<close> of the copy \<open>a\<close> is spread over two limbs.\<close>

definition bu_shl_step :: "base_uint \<Rightarrow> nat \<Rightarrow> nat \<Rightarrow> nat \<Rightarrow> base_uint \<Rightarrow> base_uint" where
  "bu_shl_step a k shift i pn =
     (let pn = (if i + k + 1 < length a \<and> shift \<noteq> 0
                then pn[i + k + 1 := pn ! (i + k + 1) OR drop_bit (32 - shift) (a ! i)] else pn)
      in if i + k < length a then pn[i + k := pn ! (i + k) OR push_bit shift (a ! i)] else pn)"

definition bu_shl :: "base_uint \<Rightarrow> nat \<Rightarrow> base_uint" where
  "bu_shl a shift =
     fold (bu_shl_step a (shift div 32) (shift mod 32)) [0..<length a] (replicate (length a) 0)"

definition bu_shr_step :: "base_uint \<Rightarrow> nat \<Rightarrow> nat \<Rightarrow> nat \<Rightarrow> base_uint \<Rightarrow> base_uint" where
  "bu_shr_step a k shift i pn =
     (let pn = (if i \<ge> k + 1 \<and> shift \<noteq> 0
                then pn[i - k - 1 := pn ! (i - k - 1) OR push_bit (32 - shift) (a ! i)] else pn)
      in if i \<ge> k then pn[i - k := pn ! (i - k) OR drop_bit shift (a ! i)] else pn)"

definition bu_shr :: "base_uint \<Rightarrow> nat \<Rightarrow> base_uint" where
  "bu_shr a shift =
     fold (bu_shr_step a (shift div 32) (shift mod 32)) [0..<length a] (replicate (length a) 0)"

subsection \<open>Arithmetic\<close>

fun bu_add_loop :: "u64 \<Rightarrow> base_uint \<Rightarrow> base_uint \<Rightarrow> base_uint" where
  "bu_add_loop carry (x # xs) (y # ys) =
     (let n = carry + ucast x + ucast y
      in ucast (n AND 0xffffffff) # bu_add_loop (drop_bit 32 n) xs ys)"
| "bu_add_loop carry _ _ = []"

definition bu_add :: "base_uint \<Rightarrow> base_uint \<Rightarrow> base_uint" where
  "bu_add a b = bu_add_loop 0 a b"

fun bu_inc :: "base_uint \<Rightarrow> base_uint" where
  "bu_inc [] = []"
| "bu_inc (x # xs) = (if x + 1 = 0 then (x + 1) # bu_inc xs else (x + 1) # xs)"

fun bu_dec :: "base_uint \<Rightarrow> base_uint" where
  "bu_dec [] = []"
| "bu_dec (x # xs) = (if x - 1 = 0xffffffff then (x - 1) # bu_dec xs else (x - 1) # xs)"

definition bu_neg :: "base_uint \<Rightarrow> base_uint" where
  "bu_neg pn = bu_inc (map NOT pn)"

definition bu_sub :: "base_uint \<Rightarrow> base_uint \<Rightarrow> base_uint" where
  "bu_sub a b = bu_add a (bu_neg b)"

definition bu_add_u64 :: "base_uint \<Rightarrow> u64 \<Rightarrow> base_uint" where
  "bu_add_u64 a b64 = bu_add a (base_uint_u64 b64)"

definition bu_sub_u64 :: "base_uint \<Rightarrow> u64 \<Rightarrow> base_uint" where
  "bu_sub_u64 a b64 = bu_add a (bu_neg (base_uint_u64 b64))"

fun bu_mul_u32_loop :: "u32 \<Rightarrow> u64 \<Rightarrow> base_uint \<Rightarrow> base_uint" where
  "bu_mul_u32_loop b32 carry [] = []"
| "bu_mul_u32_loop b32 carry (x # xs) =
     (let n = carry + ucast b32 * ucast x
      in ucast (n AND 0xffffffff) # bu_mul_u32_loop b32 (drop_bit 32 n) xs)"

definition bu_mul_u32 :: "base_uint \<Rightarrow> u32 \<Rightarrow> base_uint" where
  "bu_mul_u32 pn b32 = bu_mul_u32_loop b32 0 pn"

text \<open>
  The inner loop of \<open>operator*=\<close> runs over the limbs \<open>a.pn[j], a.pn[j + 1], ...\<close> of the accumulator
  together with \<open>b.pn[0], b.pn[1], ...\<close>, as long as \<open>i + j < WIDTH\<close>.
\<close>

fun bu_mul_row :: "u32 \<Rightarrow> u64 \<Rightarrow> base_uint \<Rightarrow> base_uint \<Rightarrow> base_uint" where
  "bu_mul_row pnj carry (x # xs) (y # ys) =
     (let n = carry + ucast x + ucast pnj * ucast y
      in ucast (n AND 0xffffffff) # bu_mul_row pnj (drop_bit 32 n) xs ys)"
| "bu_mul_row pnj carry xs _ = xs"

definition bu_mul :: "base_uint \<Rightarrow> base_uint \<Rightarrow> base_uint" where
  "bu_mul pn b =
     fold (\<lambda>j a. take j a @ bu_mul_row (pn ! j) 0 (drop j a) b) [0..<length pn]
       (replicate (length pn) 0)"

subsection \<open>Comparison\<close>

fun bu_cmp_loop :: "nat \<Rightarrow> base_uint \<Rightarrow> base_uint \<Rightarrow> int" where
  "bu_cmp_loop 0 pn b = 0"
| "bu_cmp_loop (Suc i) pn b =
     (if pn ! i < b ! i then -1 else if pn ! i > b ! i then 1 else bu_cmp_loop i pn b)"

definition CompareTo :: "base_uint \<Rightarrow> base_uint \<Rightarrow> int" where
  "CompareTo pn b = bu_cmp_loop (length pn) pn b"

definition bu_less :: "base_uint \<Rightarrow> base_uint \<Rightarrow> bool" where
  "bu_less a b \<longleftrightarrow> CompareTo a b < 0"

definition EqualTo :: "base_uint \<Rightarrow> u64 \<Rightarrow> bool" where
  "EqualTo pn b \<longleftrightarrow>
     (if list_ex (\<lambda>x. x \<noteq> 0) (drop 2 pn) then False
      else if (ucast (pn ! 1) :: u64) \<noteq> drop_bit 32 b then False
      else if (ucast (pn ! 0) :: u64) \<noteq> b AND 0xffffffff then False
      else True)"

subsection \<open>Bit length, division\<close>

fun bits_limb_loop :: "nat \<Rightarrow> u32 \<Rightarrow> nat" where
  "bits_limb_loop 0 w = 1"
| "bits_limb_loop (Suc n) w =
     (if w AND push_bit (Suc n) 1 \<noteq> 0 then Suc n + 1 else bits_limb_loop n w)"

fun bits_loop :: "nat \<Rightarrow> base_uint \<Rightarrow> nat" where
  "bits_loop 0 pn = 0"
| "bits_loop (Suc pos) pn =
     (if pn ! pos \<noteq> 0 then 32 * pos + bits_limb_loop 31 (pn ! pos) else bits_loop pos pn)"

definition bits :: "base_uint \<Rightarrow> nat" where
  "bits pn = bits_loop (length pn) pn"

text \<open>
  The loop of \<open>operator/=\<close>.  The first argument is \<open>shift + 1\<close>, so that it ends at 0 when the
  source's \<open>shift\<close> has reached \<open>-1\<close>; the result is the quotient with the remainder left in \<open>num\<close>.
\<close>

fun bu_div_loop :: "nat \<Rightarrow> base_uint \<Rightarrow> base_uint \<Rightarrow> base_uint \<Rightarrow> base_uint \<times> base_uint" where
  "bu_div_loop 0 num dv pn = (pn, num)"
| "bu_div_loop (Suc shift) num dv pn =
     (let (num', pn') =
        (if CompareTo num dv \<ge> 0
         then (bu_sub num dv,
               pn[shift div 32 := pn ! (shift div 32) OR push_bit (shift mod 32) 1])
         else (num, pn))
      in bu_div_loop shift num' (bu_shr dv 1) pn')"

definition bu_div :: "base_uint \<Rightarrow> base_uint \<Rightarrow> base_uint option" where
  "bu_div a b =
     (let num_bits = bits a; div_bits = bits b; zero = replicate (length a) 0 in
      if div_bits = 0 then None
      else if div_bits > num_bits then Some zero
      else let shift = num_bits - div_bits
           in Some (fst (bu_div_loop (Suc shift) a (bu_shl b shift) zero)))"

subsection \<open>Compact form, conversion to blobs\<close>

definition GetLow64 :: "base_uint \<Rightarrow> u64" where
  "GetLow64 pn = ucast (pn ! 0) OR push_bit 32 (ucast (pn ! 1))"

definition SetCompact :: "u32 \<Rightarrow> base_uint \<times> bool \<times> bool" where
  "SetCompact nCompact =
     (let nSize = unat (drop_bit 24 nCompact);
          nWord = nCompact AND 0x007fffff;
          (nWord, r) =
            (if nSize \<le> 3
             then let nWord = drop_bit (8 * (3 - nSize)) nWord in (nWord, base_uint_u64 (ucast nWord))
             else (nWord, bu_shl (base_uint_u64 (ucast nWord)) (8 * (nSize - 3))));
          fNegative = (nWord \<noteq> 0 \<and> nCompact AND 0x00800000 \<noteq> 0);
          fOverflow = (nWord \<noteq> 0 \<and> (nSize > 34 \<or> (nWord > 0xff \<and> nSize > 33) \<or>
                                     (nWord > 0xffff \<and> nSize > 32)))
      in (r, fNegative, fOverflow))"

definition GetCompact :: "bool \<Rightarrow> base_uint \<Rightarrow> u32 option" where
  "GetCompact fNegative pn =
     (let nSize = (bits pn + 7) div 8;
          nCompact =
            (if nSize \<le> 3 then ucast (push_bit (8 * (3 - nSize)) (GetLow64 pn))
             else ucast (GetLow64 (bu_shr pn (8 * (nSize - 3)))));
          (nCompact, nSize) =
            (if nCompact AND 0x00800000 \<noteq> 0 then (drop_bit 8 nCompact, nSize + 1)
             else (nCompact, nSize))
      in if nCompact AND NOT 0x007fffff \<noteq> 0 then None
         else if \<not> nSize < 256 then None
         else let nCompact = nCompact OR push_bit 24 (word_of_nat nSize)
              in Some (nCompact OR
                   (if fNegative \<and> nCompact AND 0x007fffff \<noteq> 0 then 0x00800000 else 0)))"

definition WriteLE32 :: "u32 \<Rightarrow> bytes" where
  "WriteLE32 x = [ucast x, ucast (drop_bit 8 x), ucast (drop_bit 16 x), ucast (drop_bit 24 x)]"

definition ReadLE32 :: "bytes \<Rightarrow> u32" where
  "ReadLE32 p = ucast (p ! 0) OR push_bit 8 (ucast (p ! 1)) OR
     push_bit 16 (ucast (p ! 2)) OR push_bit 24 (ucast (p ! 3))"

definition ArithToUint256 :: "base_uint \<Rightarrow> bytes" where
  "ArithToUint256 pn = concat (map WriteLE32 pn)"

definition UintToArith256 :: "bytes \<Rightarrow> base_uint" where
  "UintToArith256 a = map (\<lambda>x. ReadLE32 (drop (x * 4) a)) [0..<WIDTH]"

section \<open>Addition, negation, multiplication\<close>

lemma digit_step:
  fixes n r B M :: nat
  shows "n mod B + B * ((n div B + r) mod M) = (n + B * r) mod (B * M)"
proof (cases "B = 0")
  case False
  have "(n + B * r) mod (B * M) = B * ((n + B * r) div B mod M) + (n + B * r) mod B"
    by (rule mod_mult2_eq)
  also have "(n + B * r) div B = n div B + r" using False by simp
  finally show ?thesis by simp
qed simp

lemma unat_u32_less: "unat (x :: u32) < 4294967296"
  using unsigned_less[of x, where ?'a = nat] by simp

lemma unat_u64_less: "unat (x :: u64) < 18446744073709551616"
  using unsigned_less[of x, where ?'a = nat] by simp

lemma unat_ucast_32_64 [simp]: "unat (ucast (x :: u32) :: u64) = unat x"
  using unat_u32_less[of x] by (simp add: unsigned_ucast_eq take_bit_nat_eq_self_iff)

lemma unat_low_limb [simp]: "unat (ucast ((n :: u64) AND 0xffffffff) :: u32) = unat n mod 2 ^ 32"
proof -
  have "n AND 0xffffffff = take_bit 32 n" by (simp add: take_bit_eq_mask mask_eq_exp_minus_1)
  then show ?thesis by (simp add: unsigned_ucast_eq take_bit_eq_mod unat_mod)
qed

lemma unat_high_limb [simp]: "unat (drop_bit 32 (n :: u64)) = unat n div 2 ^ 32"
  by (simp add: drop_bit_eq_div unat_div)

lemma length_bu_add_loop [simp]: "length (bu_add_loop c xs ys) = min (length xs) (length ys)"
  by (induction c xs ys rule: bu_add_loop.induct) (simp_all add: Let_def)

lemma val_bu_add_loop:
  "length xs = length ys \<Longrightarrow> unat c < 2 ^ 32 \<Longrightarrow>
   val_le (bu_add_loop c xs ys) = (unat c + (val_le xs + val_le ys)) mod 2 ^ (32 * length xs)"
proof (induction c xs ys rule: bu_add_loop.induct)
  case (1 c x xs y ys)
  define n where "n = c + ucast x + ucast y"
  have un: "unat n = unat c + unat x + unat y"
    using 1(3) unat_u32_less[of x] unat_u32_less[of y]
    by (simp add: n_def unat_word_ariths)
  have "unat (drop_bit 32 n) < 2 ^ 32" using unat_u64_less[of n] by simp
  then have "val_le (bu_add_loop (drop_bit 32 n) xs ys) =
      (unat n div 2 ^ 32 + (val_le xs + val_le ys)) mod 2 ^ (32 * length xs)"
    using 1(1)[OF n_def] 1(2) by simp
  then have "val_le (bu_add_loop c (x # xs) (y # ys)) =
      unat n mod 2 ^ 32 + 2 ^ 32 * ((unat n div 2 ^ 32 + (val_le xs + val_le ys)) mod 2 ^ (32 * length xs))"
    by (simp add: Let_def n_def)
  also have "\<dots> = (unat n + 2 ^ 32 * (val_le xs + val_le ys)) mod (2 ^ 32 * 2 ^ (32 * length xs))"
    by (rule digit_step)
  also have "unat n + 2 ^ 32 * (val_le xs + val_le ys) = unat c + (val_le (x # xs) + val_le (y # ys))"
    by (simp add: un)
  also have "2 ^ 32 * 2 ^ (32 * length xs) = (2 :: nat) ^ (32 * length (x # xs))"
    by (simp add: power_add)
  finally show ?case .
qed simp_all

lemma length_bu_add [simp]: "length (bu_add a b) = min (length a) (length b)"
  by (simp add: bu_add_def)

lemma val_bu_add [val_simps]:
  "length a = length b \<Longrightarrow> val_le (bu_add a b) = (val_le a + val_le b) mod 2 ^ (32 * length a)"
  by (simp add: bu_add_def val_bu_add_loop)

lemma length_bu_inc [simp]: "length (bu_inc a) = length a"
  by (induction a) simp_all

lemma val_bu_inc [val_simps]: "val_le (bu_inc a) = (val_le a + 1) mod 2 ^ (32 * length a)"
proof (induction a)
  case (Cons x xs)
  show ?case
  proof (cases "x + 1 = 0")
    case True
    then have x: "unat x = 2 ^ 32 - 1" by (simp add: eq_neg_iff_add_eq_0[symmetric] unsigned_minus_1_eq_mask mask_eq_exp_minus_1)
    have "val_le (bu_inc (x # xs)) = 2 ^ 32 * ((val_le xs + 1) mod 2 ^ (32 * length xs))"
      using True Cons.IH by simp
    also have "\<dots> = (2 ^ 32 * (val_le xs + 1)) mod (2 ^ 32 * 2 ^ (32 * length xs))"
      by (simp only: mult_mod_right)
    also have "2 ^ 32 * (val_le xs + 1) = val_le (x # xs) + 1" using x by simp
    finally show ?thesis by (simp add: power_add)
  next
    case False
    then have x: "unat (x + 1) = unat x + 1" using unatSuc[of x] by (simp add: add.commute)
    then have eq: "val_le (bu_inc (x # xs)) = val_le (x # xs) + 1" using False by simp
    have "val_le (bu_inc (x # xs)) < 2 ^ (LENGTH(32) * length (x # xs))"
      using val_le_less[of "bu_inc (x # xs)"] by (simp only: length_bu_inc)
    then show ?thesis by (simp only: eq) simp
  qed
qed simp

lemma val_map_NOT: "val_le (map NOT (a :: u32 list)) = 2 ^ (32 * length a) - 1 - val_le a"
proof (induction a)
  case (Cons x xs)
  have "unat (NOT x) = 2 ^ 32 - 1 - unat x" proof -
    have "NOT x = - 1 - x" by (simp add: not_eq_complement)
    then show ?thesis
      using unat_sub[OF word_n1_ge[of x]] by (simp add: unsigned_minus_1_eq_mask mask_eq_exp_minus_1)
  qed
  then show ?case using Cons.IH val_le_less[of xs] unat_u32_less[of x]
    by (simp add: power_add)
qed simp

lemma length_bu_neg [simp]: "length (bu_neg a) = length a"
  by (simp add: bu_neg_def)

lemma val_bu_neg [val_simps]:
  "val_le (bu_neg a) = (2 ^ (32 * length a) - val_le a) mod 2 ^ (32 * length a)"
proof -
  have "val_le a < 2 ^ (32 * length a)" using val_le_less[of a] by simp
  then have "2 ^ (32 * length a) - 1 - val_le a + 1 = 2 ^ (32 * length a) - val_le a" by linarith
  then show ?thesis by (simp only: bu_neg_def val_bu_inc val_map_NOT length_map)
qed

lemma length_bu_sub [simp]: "length (bu_sub a b) = min (length a) (length b)"
  by (simp add: bu_sub_def)

lemma val_bu_sub [val_simps]:
  assumes "length a = length b"
  shows "val_le (bu_sub a b) = (val_le a + (2 ^ (32 * length a) - val_le b)) mod 2 ^ (32 * length a)"
proof -
  let ?M = "2 ^ (32 * length b) :: nat"
  have "val_le (bu_sub a b) = (val_le a + (?M - val_le b) mod ?M) mod ?M"
    unfolding bu_sub_def val_bu_neg[symmetric] using val_bu_add[of a "bu_neg b"] assms by simp
  also have "\<dots> = (val_le a + (?M - val_le b)) mod ?M" by (rule mod_add_right_eq)
  finally show ?thesis using assms by (simp only:)
qed

lemma val_bu_sub_ge:
  assumes "length a = length b" "val_le b \<le> val_le a"
  shows "val_le (bu_sub a b) = val_le a - val_le b"
proof -
  have "val_le a < 2 ^ (32 * length a)" using val_le_less[of a] by simp
  moreover from this have "val_le a + (2 ^ (32 * length a) - val_le b) =
      (val_le a - val_le b) + 2 ^ (32 * length a)" using assms(2) by linarith
  ultimately show ?thesis using assms(1) by (simp only: val_bu_sub mod_add_self2) simp
qed

lemma length_bu_dec [simp]: "length (bu_dec a) = length a"
  by (induction a) simp_all

lemma u64_mul_bound: "unat (p :: u32) * unat (y :: u32) \<le> 18446744065119617025"
proof -
  have "unat p \<le> 4294967295" "unat y \<le> 4294967295"
    using unat_u32_less[of p] unat_u32_less[of y] by linarith+
  then have "unat p * unat y \<le> 4294967295 * 4294967295" by (rule mult_le_mono)
  then show ?thesis by simp
qed

lemma unat_mac_u64:
  assumes "unat c < 2 ^ 32"
  shows "unat (c + ucast (x :: u32) + ucast (p :: u32) * ucast (y :: u32) :: u64) =
    unat c + unat x + unat p * unat y"
proof -
  let ?p = "ucast p :: u64" and ?x = "ucast x :: u64" and ?y = "ucast y :: u64"
  have m: "unat (?p * ?y) = unat p * unat y"
    using u64_mul_bound[of p y] unat_mult_lem[of ?p ?y] by simp
  have s: "unat (c + ?x) = unat c + unat x"
    using assms unat_u32_less[of x] unat_add_lem[of c ?x] by simp
  show ?thesis
    using assms unat_u32_less[of x] u64_mul_bound[of p y] unat_add_lem[of "c + ?x" "?p * ?y"]
    by (simp only: m s) simp
qed

lemma length_bu_mul_u32_loop [simp]: "length (bu_mul_u32_loop b c xs) = length xs"
  by (induction b c xs rule: bu_mul_u32_loop.induct) (simp_all add: Let_def)

lemma val_bu_mul_u32_loop:
  "unat c < 2 ^ 32 \<Longrightarrow>
   val_le (bu_mul_u32_loop b c xs) = (unat c + unat b * val_le xs) mod 2 ^ (32 * length xs)"
proof (induction b c xs rule: bu_mul_u32_loop.induct)
  case (2 b c x xs)
  define n :: u64 where "n = c + ucast b * ucast x"
  have un: "unat n = unat c + unat b * unat x"
    using unat_mac_u64[of c 0 b x] 2(2) by (simp add: n_def)
  have "unat (drop_bit 32 n) < 2 ^ 32" using unat_u64_less[of n] by simp
  then have "val_le (bu_mul_u32_loop b c (x # xs)) = unat n mod 2 ^ 32 +
      2 ^ 32 * ((unat n div 2 ^ 32 + unat b * val_le xs) mod 2 ^ (32 * length xs))"
    using 2(1)[OF n_def] by (simp add: Let_def n_def)
  also have "\<dots> = (unat n + 2 ^ 32 * (unat b * val_le xs)) mod (2 ^ 32 * 2 ^ (32 * length xs))"
    by (rule digit_step)
  also have "unat n + 2 ^ 32 * (unat b * val_le xs) = unat c + unat b * val_le (x # xs)"
    by (simp add: un distrib_left mult.left_commute)
  also have "2 ^ 32 * 2 ^ (32 * length xs) = (2 :: nat) ^ (32 * length (x # xs))"
    by (simp add: power_add)
  finally show ?case .
qed simp

lemma val_bu_mul_u32 [val_simps]:
  "val_le (bu_mul_u32 a b) = (unat b * val_le a) mod 2 ^ (32 * length a)"
  by (simp add: bu_mul_u32_def val_bu_mul_u32_loop)

lemma length_bu_mul_row [simp]: "length (bu_mul_row p c xs ys) = length xs"
  by (induction p c xs ys rule: bu_mul_row.induct) (simp_all add: Let_def)

lemma val_bu_mul_row:
  "length xs \<le> length ys \<Longrightarrow> unat c < 2 ^ 32 \<Longrightarrow>
   val_le (bu_mul_row p c xs ys) =
     (unat c + (val_le xs + unat p * val_le ys)) mod 2 ^ (32 * length xs)"
proof (induction p c xs ys rule: bu_mul_row.induct)
  case (1 p c x xs y ys)
  define n :: u64 where "n = c + ucast x + ucast p * ucast y"
  have un: "unat n = unat c + unat x + unat p * unat y"
    unfolding n_def using 1(3) by (rule unat_mac_u64)
  have "unat (drop_bit 32 n) < 2 ^ 32" using unat_u64_less[of n] by simp
  then have "val_le (bu_mul_row p c (x # xs) (y # ys)) = unat n mod 2 ^ 32 +
      2 ^ 32 * ((unat n div 2 ^ 32 + (val_le xs + unat p * val_le ys)) mod 2 ^ (32 * length xs))"
    using 1(1)[OF n_def] 1(2) by (simp add: Let_def n_def)
  also have "\<dots> = (unat n + 2 ^ 32 * (val_le xs + unat p * val_le ys)) mod
      (2 ^ 32 * 2 ^ (32 * length xs))"
    by (rule digit_step)
  also have "unat n + 2 ^ 32 * (val_le xs + unat p * val_le ys) =
      unat c + (val_le (x # xs) + unat p * val_le (y # ys))"
    by (simp add: un distrib_left mult.left_commute)
  also have "2 ^ 32 * 2 ^ (32 * length xs) = (2 :: nat) ^ (32 * length (x # xs))"
    by (simp add: power_add)
  finally show ?case .
qed simp_all

lemma val_bu_mul_step:
  assumes "j \<le> length a" "length b = length a"
  shows "val_le (take j a @ bu_mul_row p 0 (drop j a) b) =
    (val_le a + 2 ^ (32 * j) * (unat p * val_le b)) mod 2 ^ (32 * length a)"
proof -
  let ?J = "2 ^ (32 * j) :: nat" and ?R = "2 ^ (32 * (length a - j)) :: nat"
  have a: "val_le a = val_le (take j a) + ?J * val_le (drop j a)"
    using val_le_take_drop[of a j] assms(1) by (simp add: min_def)
  have lt: "val_le (take j a) < ?J" using val_le_less[of "take j a"] assms(1) by simp
  have J: "2 ^ (32 * length a) = ?J * ?R"
    using assms(1) by (simp flip: power_add add: algebra_simps)
  have "val_le (take j a @ bu_mul_row p 0 (drop j a) b) =
      val_le (take j a) + ?J * ((val_le (drop j a) + unat p * val_le b) mod ?R)"
    using assms by (simp add: val_le_append val_bu_mul_row)
  also have "\<dots> = (val_le (take j a) + ?J * (val_le (drop j a) + unat p * val_le b)) mod (?J * ?R)"
    using digit_step[of "val_le (take j a)" ?J "val_le (drop j a) + unat p * val_le b" ?R] lt by simp
  finally show ?thesis unfolding J a by (simp add: algebra_simps)
qed

lemma val_bu_mul_fold:
  assumes "length b = length pn" "n \<le> length pn"
  defines "r \<equiv> fold (\<lambda>j a. take j a @ bu_mul_row (pn ! j) 0 (drop j a) b) [0..<n]
     (replicate (length pn) 0)"
  shows "length r = length pn \<and>
    val_le r = (val_le (take n pn) * val_le b) mod 2 ^ (32 * length pn)"
  using assms(2) unfolding r_def
proof (induction n)
  case (Suc n)
  define q where "q = fold (\<lambda>j a. take j a @ bu_mul_row (pn ! j) 0 (drop j a) b) [0..<n]
     (replicate (length pn) 0)"
  have q: "length q = length pn"
    "val_le q = (val_le (take n pn) * val_le b) mod 2 ^ (32 * length pn)"
    using Suc by (simp_all add: q_def)
  have tk: "val_le (take (Suc n) pn) = val_le (take n pn) + 2 ^ (32 * n) * unat (pn ! n)"
    using Suc.prems by (simp add: take_Suc_conv_app_nth val_le_append)
  have "val_le (take n q @ bu_mul_row (pn ! n) 0 (drop n q) b) =
      (val_le q + 2 ^ (32 * n) * (unat (pn ! n) * val_le b)) mod 2 ^ (32 * length pn)"
    using val_bu_mul_step[of n q b "pn ! n"] assms(1) q(1) Suc.prems by simp
  also have "\<dots> = (val_le (take (Suc n) pn) * val_le b) mod 2 ^ (32 * length pn)"
    unfolding q(2) tk by (simp only: mod_add_left_eq) (simp add: algebra_simps)
  finally show ?case using q(1) Suc.prems by (simp add: q_def[symmetric])
qed simp

lemma length_bu_mul [simp]: "length b = length a \<Longrightarrow> length (bu_mul a b) = length a"
  using val_bu_mul_fold[of b a "length a"] by (simp add: bu_mul_def)

lemma val_bu_mul [val_simps]:
  "length b = length a \<Longrightarrow> val_le (bu_mul a b) = (val_le a * val_le b) mod 2 ^ (32 * length a)"
  using val_bu_mul_fold[of b a "length a"] by (simp add: bu_mul_def)

section \<open>Comparison\<close>

lemma bu_cmp_loop_val:
  "n \<le> length a \<Longrightarrow> length b = length a \<Longrightarrow>
   bu_cmp_loop n a b = sgn (int (val_le (take n a)) - int (val_le (take n b)))"
proof (induction n)
  case (Suc n)
  have ta: "val_le (take (Suc n) a) = val_le (take n a) + 2 ^ (32 * n) * unat (a ! n)"
    and tb: "val_le (take (Suc n) b) = val_le (take n b) + 2 ^ (32 * n) * unat (b ! n)"
    using Suc.prems by (simp_all add: take_Suc_conv_app_nth val_le_append)
  have la: "val_le (take n a) < 2 ^ (32 * n)" and lb: "val_le (take n b) < 2 ^ (32 * n)"
    using val_le_less[of "take n a"] val_le_less[of "take n b"] Suc.prems by simp_all
  have step: "x < y \<Longrightarrow> u + 2 ^ (32 * n) * x < v + 2 ^ (32 * n) * y"
    if "u < 2 ^ (32 * n)" for x y u v :: nat
  proof -
    assume "x < y"
    then have "2 ^ (32 * n) * (x + 1) \<le> 2 ^ (32 * n) * y" by (intro mult_le_mono2) simp
    then show ?thesis using that by (simp only: distrib_left)
  qed
  consider "a ! n < b ! n" | "b ! n < a ! n" | "a ! n = b ! n" by (rule linorder_cases)
  then show ?case
  proof cases
    case 1
    then have "unat (a ! n) < unat (b ! n)" by (simp add: word_less_nat_alt)
    from step[OF la this] have "val_le (take (Suc n) a) < val_le (take (Suc n) b)"
      by (simp only: ta tb)
    then show ?thesis using 1 by simp
  next
    case 2
    then have "unat (b ! n) < unat (a ! n)" by (simp add: word_less_nat_alt)
    from step[OF lb this] have "val_le (take (Suc n) b) < val_le (take (Suc n) a)"
      by (simp only: ta tb)
    then show ?thesis using 2 by simp
  next
    case 3
    then show ?thesis using Suc by (simp add: ta tb)
  qed
qed simp

lemma CompareTo_val:
  assumes "length a = length b"
  shows "CompareTo a b = sgn (int (val_le a) - int (val_le b))"
  using bu_cmp_loop_val[OF order_refl assms[symmetric]] assms by (simp add: CompareTo_def)

lemma CompareTo_ge_iff: "length a = length b \<Longrightarrow> CompareTo a b \<ge> 0 \<longleftrightarrow> val_le b \<le> val_le a"
  by (simp add: CompareTo_val sgn_if)

lemma bu_less_iff: "length a = length b \<Longrightarrow> bu_less a b \<longleftrightarrow> val_le a < val_le b"
  by (simp add: bu_less_def CompareTo_val sgn_if)

lemma bit_imp_ge_exp: "bit (v :: nat) n \<Longrightarrow> 2 ^ n \<le> v"
  by (rule ccontr) (simp add: bit_iff_odd)

section \<open>Bit length\<close>

lemma bits_limb_loop_bound:
  assumes "w \<noteq> 0" "unat (w :: u32) < 2 ^ Suc n" "n \<le> 31"
  shows "2 ^ (bits_limb_loop n w - 1) \<le> unat w \<and> unat w < 2 ^ bits_limb_loop n w \<and> bits_limb_loop n w \<ge> 1"
  using assms
proof (induction n)
  case 0
  then have "unat w = 1" by (simp add: unat_eq_zero less_2_cases_iff)
  then show ?case by simp
next
  case (Suc n)
  have bt: "w AND push_bit (Suc n) 1 \<noteq> 0 \<longleftrightarrow> bit w (Suc n)"
    by (simp only: push_bit_of_1 and_exp_eq_0_iff_not_bit not_not)
  show ?case
  proof (cases "bit w (Suc n)")
    case True
    then have "2 ^ Suc n \<le> unat w"
      using bit_imp_ge_exp[of "unat w" "Suc n"] Suc.prems by (simp add: bit_unsigned_iff)
    then show ?thesis unfolding bits_limb_loop.simps bt using True Suc.prems by simp
  next
    case False
    have "unat w < 2 ^ Suc n" 
    proof (rule ccontr)
      assume "\<not> unat w < 2 ^ Suc n"
      then have "unat w div 2 ^ Suc n = 1" using Suc.prems(2) by (simp add: div_nat_eqI)
      then have "bit (unat w) (Suc n)" by (simp add: bit_iff_odd)
      with False show False by (simp add: bit_unsigned_iff)
    qed
    then show ?thesis unfolding bits_limb_loop.simps bt using False Suc by simp
  qed
qed

lemma bits_limb_loop_le: "bits_limb_loop n w \<le> Suc n"
  by (induction n) simp_all

lemma bits_loop_bound:
  assumes "n \<le> length pn"
  shows "val_le (take n pn) < 2 ^ bits_loop n pn \<and>
    (bits_loop n pn = 0 \<longleftrightarrow> val_le (take n pn) = 0) \<and>
    (bits_loop n pn > 0 \<longrightarrow> 2 ^ (bits_loop n pn - 1) \<le> val_le (take n pn)) \<and> bits_loop n pn \<le> 32 * n"
  using assms
proof (induction n)
  case (Suc n)
  have t: "val_le (take (Suc n) pn) = val_le (take n pn) + 2 ^ (32 * n) * unat (pn ! n)"
    using Suc.prems by (simp add: take_Suc_conv_app_nth val_le_append)
  have l: "val_le (take n pn) < 2 ^ (32 * n)" using val_le_less[of "take n pn"] Suc.prems by simp
  show ?case
  proof (cases "pn ! n = 0")
    case True
    then show ?thesis using Suc t by simp
  next
    case False
    define k where "k = bits_limb_loop 31 (pn ! n)"
    have k: "2 ^ (k - 1) \<le> unat (pn ! n)" "unat (pn ! n) < 2 ^ k" "k \<ge> 1"
      using bits_limb_loop_bound[OF False, of 31] unsigned_less[of "pn ! n", where ?'a = nat]
      by (simp_all add: k_def)
    have "k \<le> 32" using bits_limb_loop_le[of 31 "pn ! n"] by (simp add: k_def)
    have "2 ^ (32 * n) * (unat (pn ! n) + 1) \<le> (2::nat) ^ (32 * n) * 2 ^ k"
      using k(2) by (intro mult_le_mono2) simp
    then have up: "val_le (take (Suc n) pn) < 2 ^ (32 * n + k)"
      using l by (simp only: t power_add distrib_left)
    have "2 ^ (32 * n) * 2 ^ (k - 1) \<le> (2::nat) ^ (32 * n) * unat (pn ! n)"
      using k(1) by (rule mult_le_mono2)
    then have lo: "2 ^ (32 * n + k - 1) \<le> val_le (take (Suc n) pn)"
      using k(3) by (simp add: t flip: power_add)
    then have "val_le (take (Suc n) pn) \<noteq> 0" by (metis le_zero_eq power_not_zero zero_neq_numeral)
    then show ?thesis using False up lo k(3) \<open>k \<le> 32\<close> by (simp add: k_def[symmetric])
  qed
qed simp

lemma bits_less: "val_le pn < 2 ^ bits pn"
  using bits_loop_bound[of "length pn" pn] by (simp add: bits_def)

lemma bits_eq_0_iff [simp]: "bits pn = 0 \<longleftrightarrow> val_le pn = 0"
  using bits_loop_bound[of "length pn" pn] by (simp add: bits_def)

lemma bits_ge: "val_le pn \<noteq> 0 \<Longrightarrow> 2 ^ (bits pn - 1) \<le> val_le pn"
  using bits_loop_bound[of "length pn" pn] by (simp add: bits_def)

lemma bits_le: "bits pn \<le> 32 * length pn"
  using bits_loop_bound[of "length pn" pn] by (simp add: bits_def)

lemma bits_leI: "val_le pn < 2 ^ n \<Longrightarrow> bits pn \<le> n"
proof (rule ccontr)
  assume "val_le pn < 2 ^ n" "\<not> bits pn \<le> n"
  moreover from this have "val_le pn \<noteq> 0" using bits_eq_0_iff[of pn] by linarith
  ultimately have "2 ^ (bits pn - 1) < (2::nat) ^ n" using bits_ge[of pn] by linarith
  then have "bits pn - 1 < n" by (simp add: power_less_imp_less_exp)
  then show False using \<open>\<not> bits pn \<le> n\<close> by linarith
qed

section \<open>Shifts\<close>

lemma length_bu_shl_step [simp]: "length (bu_shl_step a k s i pn) = length pn"
  by (simp add: bu_shl_step_def Let_def)

lemma length_fold_shl [simp]: "length (fold (bu_shl_step a k s) is pn) = length pn"
  by (induction "is" arbitrary: pn) simp_all

lemma length_bu_shl [simp]: "length (bu_shl a n) = length a"
  by (simp add: bu_shl_def)

lemma bu_shl_step_nth:
  assumes "j < length a" "length pn = length a"
  shows "bu_shl_step a k s i pn ! j = pn ! j OR (if j = i + k then push_bit s (a ! i) else 0) OR
    (if j = i + k + 1 \<and> s \<noteq> 0 then drop_bit (32 - s) (a ! i) else 0)"
  using assms by (auto simp: bu_shl_step_def Let_def nth_list_update)

text \<open>After iterations \<open>0..<n\<close>, limb \<open>j\<close> has received its contributions from limbs below \<open>n\<close>.\<close>

lemma fold_shl_nth:
  assumes "j < length a" "n \<le> length a"
  shows "fold (bu_shl_step a k s) [0..<n] (replicate (length a) 0) ! j =
    (if k \<le> j \<and> j - k < n then push_bit s (a ! (j - k)) else 0) OR
    (if k + 1 \<le> j \<and> j - k - 1 < n \<and> s \<noteq> 0 then drop_bit (32 - s) (a ! (j - k - 1)) else 0)"
  using assms
proof (induction n)
  case (Suc n)
  let ?pn = "fold (bu_shl_step a k s) [0..<n] (replicate (length a) 0)"
  have "fold (bu_shl_step a k s) [0..<Suc n] (replicate (length a) 0) ! j = bu_shl_step a k s n ?pn ! j"
    by simp
  also have "\<dots> = ?pn ! j OR (if j = n + k then push_bit s (a ! n) else 0) OR
      (if j = n + k + 1 \<and> s \<noteq> 0 then drop_bit (32 - s) (a ! n) else 0)"
    using Suc.prems by (intro bu_shl_step_nth) simp_all
  also have "?pn ! j = (if k \<le> j \<and> j - k < n then push_bit s (a ! (j - k)) else 0) OR
    (if k + 1 \<le> j \<and> j - k - 1 < n \<and> s \<noteq> 0 then drop_bit (32 - s) (a ! (j - k - 1)) else 0)"
    using Suc by simp
  finally show ?case
    by (auto simp: less_Suc_eq or.commute or.left_commute or.assoc simp del: One_nat_def)
qed simp

lemma bu_shl_nth:
  assumes "j < length a"
  shows "bu_shl a n ! j =
    (if n div 32 \<le> j then push_bit (n mod 32) (a ! (j - n div 32)) else 0) OR
    (if n div 32 + 1 \<le> j \<and> n mod 32 \<noteq> 0
     then drop_bit (32 - n mod 32) (a ! (j - n div 32 - 1)) else 0)"
proof -
  have "j - n div 32 < length a" "j - n div 32 - 1 < length a" using assms by linarith+
  then show ?thesis
    using fold_shl_nth[OF assms order_refl, of "n div 32" "n mod 32"] by (simp add: bu_shl_def)
qed

lemma bit_bu_shl:
  assumes "i < 32 * length a"
  shows "bit (bu_shl a n ! (i div 32)) (i mod 32) \<longleftrightarrow>
    n \<le> i \<and> bit (a ! ((i - n) div 32)) ((i - n) mod 32)"
proof -
  define j b k s where "j = i div 32" and "b = i mod 32" and "k = n div 32" and "s = n mod 32"
  have i: "i = 32 * j + b" "b < 32" and n: "n = 32 * k + s" "s < 32"
    by (simp_all add: j_def b_def k_def s_def)
  have j: "j < length a" using assms by (simp add: j_def less_mult_imp_div_less mult.commute)
  have nth: "bu_shl a n ! j = (if k \<le> j then push_bit s (a ! (j - k)) else 0) OR
    (if k + 1 \<le> j \<and> s \<noteq> 0 then drop_bit (32 - s) (a ! (j - k - 1)) else 0)"
    unfolding k_def s_def by (rule bu_shl_nth[OF j])
  show ?thesis
  proof (cases "s \<le> b")
    case True
    then have "n \<le> i \<longleftrightarrow> k \<le> j" using i n by linarith
    moreover have "(i - n) div 32 = j - k" "(i - n) mod 32 = b - s" if "k \<le> j"
    proof -
      have "i - n = 32 * (j - k) + (b - s)" using i n True that by (simp add: diff_mult_distrib2)
      moreover have "b - s < 32" using i by linarith
      ultimately show "(i - n) div 32 = j - k" "(i - n) mod 32 = b - s" by simp_all
    qed
    moreover have "\<not> bit (drop_bit (32 - s) w) b" for w :: u32
      using True n by (simp add: bit_simps) (use bit_imp_le_length[of w] in force)
    ultimately show ?thesis unfolding j_def[symmetric] b_def[symmetric] nth
      using True i by (auto simp: bit_or_iff bit_push_bit_iff)
  next
    case False
    then have "n \<le> i \<longleftrightarrow> k + 1 \<le> j" using i n by linarith
    moreover have "(i - n) div 32 = j - k - 1" "(i - n) mod 32 = 32 + b - s" if "k + 1 \<le> j"
    proof -
      have "i - n = 32 * (j - k - 1) + (32 + b - s)" using i n False that by linarith
      moreover have "32 + b - s < 32" using False by linarith
      ultimately show "(i - n) div 32 = j - k - 1" "(i - n) mod 32 = 32 + b - s" by simp_all
    qed
    ultimately show ?thesis unfolding j_def[symmetric] b_def[symmetric] nth
      using False i n by (auto simp: bit_or_iff bit_push_bit_iff bit_drop_bit_eq add.commute)
  qed
qed

lemma val_bu_shl [val_simps]: "val_le (bu_shl a n) = (val_le a * 2 ^ n) mod 2 ^ (32 * length a)"
proof (rule bit_eqI)
  fix i
  have "bit (val_le (bu_shl a n)) i \<longleftrightarrow> i < 32 * length a \<and> n \<le> i \<and> bit (val_le a) (i - n)"
  proof (cases "i < 32 * length a")
    case True
    then have "(i - n) div 32 < length a" "i div 32 < length a"
      by (simp_all add: less_mult_imp_div_less mult.commute)
    then show ?thesis using bit_bu_shl[OF True, of n] True by (simp add: bit_val_le)
  next
    case False
    then have "\<not> i div 32 < length a" by (simp add: div_less_iff_less_mult mult.commute)
    then show ?thesis using False by (simp add: bit_val_le)
  qed
  also have "\<dots> \<longleftrightarrow> bit (take_bit (32 * length a) (push_bit n (val_le a))) i"
    by (auto simp: bit_simps)
  finally show "bit (val_le (bu_shl a n)) i \<longleftrightarrow> bit ((val_le a * 2 ^ n) mod 2 ^ (32 * length a)) i"
    by (simp add: take_bit_eq_mod push_bit_eq_mult)
qed

lemma length_bu_shr_step [simp]: "length (bu_shr_step a k s i pn) = length pn"
  by (simp add: bu_shr_step_def Let_def)

lemma length_fold_shr [simp]: "length (fold (bu_shr_step a k s) is pn) = length pn"
  by (induction "is" arbitrary: pn) simp_all

lemma length_bu_shr [simp]: "length (bu_shr a n) = length a"
  by (simp add: bu_shr_def)

lemma bu_shr_step_nth:
  assumes "j < length a" "length pn = length a"
  shows "bu_shr_step a k s i pn ! j = pn ! j OR (if i = j + k then drop_bit s (a ! i) else 0) OR
    (if i = j + k + 1 \<and> s \<noteq> 0 then push_bit (32 - s) (a ! i) else 0)"
  using assms by (auto simp: bu_shr_step_def Let_def nth_list_update)

lemma fold_shr_nth:
  assumes "j < length a" "n \<le> length a"
  shows "fold (bu_shr_step a k s) [0..<n] (replicate (length a) 0) ! j =
    (if j + k < n then drop_bit s (a ! (j + k)) else 0) OR
    (if j + k + 1 < n \<and> s \<noteq> 0 then push_bit (32 - s) (a ! (j + k + 1)) else 0)"
  using assms
proof (induction n)
  case (Suc n)
  let ?pn = "fold (bu_shr_step a k s) [0..<n] (replicate (length a) 0)"
  have "fold (bu_shr_step a k s) [0..<Suc n] (replicate (length a) 0) ! j = bu_shr_step a k s n ?pn ! j"
    by simp
  also have "\<dots> = ?pn ! j OR (if n = j + k then drop_bit s (a ! n) else 0) OR
      (if n = j + k + 1 \<and> s \<noteq> 0 then push_bit (32 - s) (a ! n) else 0)"
    using Suc.prems by (intro bu_shr_step_nth) simp_all
  also have "?pn ! j = (if j + k < n then drop_bit s (a ! (j + k)) else 0) OR
    (if j + k + 1 < n \<and> s \<noteq> 0 then push_bit (32 - s) (a ! (j + k + 1)) else 0)"
    using Suc by simp
  finally show ?case
    by (cases "n = j + k + 1") (auto simp: less_Suc_eq or.commute or.left_commute)
qed simp

lemma bit_bu_shr:
  assumes "i < 32 * length a"
  shows "bit (bu_shr a n ! (i div 32)) (i mod 32) \<longleftrightarrow>
    i + n < 32 * length a \<and> bit (a ! ((i + n) div 32)) ((i + n) mod 32)"
proof -
  define j b k s where "j = i div 32" and "b = i mod 32" and "k = n div 32" and "s = n mod 32"
  have i: "i = 32 * j + b" "b < 32" and n: "n = 32 * k + s" "s < 32"
    by (simp_all add: j_def b_def k_def s_def)
  have j: "j < length a" using assms by (simp add: j_def less_mult_imp_div_less mult.commute)
  have nth: "bu_shr a n ! j = (if j + k < length a then drop_bit s (a ! (j + k)) else 0) OR
    (if j + k + 1 < length a \<and> s \<noteq> 0 then push_bit (32 - s) (a ! (j + k + 1)) else 0)"
    unfolding k_def s_def bu_shr_def by (rule fold_shr_nth[OF j order_refl])
  have dl: "(i + n) div 32 < length a \<longleftrightarrow> i + n < 32 * length a"
    by (simp add: div_less_iff_less_mult mult.commute)
  show ?thesis
  proof (cases "b + s < 32")
    case True
    have e: "i + n = 32 * (j + k) + (b + s)" using i n by simp
    have "(i + n) div 32 = j + k" "(i + n) mod 32 = b + s"
      unfolding e using True by (simp_all only: div_mult_self4 mod_mult_self4 div_less mod_less)
    moreover have "i + n < 32 * length a \<longleftrightarrow> j + k < length a" using dl by (simp only: calculation)
    moreover have "\<not> bit (push_bit (32 - s) w) b" for w :: u32
      using True n(2) by (auto simp: bit_push_bit_iff)
    ultimately show ?thesis unfolding j_def[symmetric] b_def[symmetric] nth
      by (auto simp: bit_or_iff bit_drop_bit_eq add.commute)
  next
    case False
    have e: "i + n = 32 * (j + k + 1) + (b + s - 32)" using i n False by simp
    have l: "b + s - 32 < 32" using i n by linarith
    have d: "(i + n) div 32 = j + k + 1" and m: "(i + n) mod 32 = b - (32 - s)"
      unfolding e using l False n(2) by (simp_all only: div_mult_self4 mod_mult_self4 div_less mod_less)
    have lt: "i + n < 32 * length a \<longleftrightarrow> j + k + 1 < length a" using dl by (simp only: d)
    have nb: "\<not> bit (drop_bit s w) b" for w :: u32
      using False bit_imp_le_length[of w "s + b"] by (auto simp: bit_drop_bit_eq)
    have s: "32 - s \<le> b" "s \<noteq> 0" using False i n by linarith+
    have "bit (bu_shr a n ! j) b \<longleftrightarrow> j + k + 1 < length a \<and> bit (a ! (j + k + 1)) (b - (32 - s))"
      unfolding nth using s i(2) nb by (cases "j + k + 1 < length a") (simp_all add: bit_or_iff bit_push_bit_iff)
    then show ?thesis unfolding j_def[symmetric] b_def[symmetric] d m lt .
  qed
qed

lemma val_bu_shr [val_simps]: "val_le (bu_shr a n) = val_le a div 2 ^ n"
proof (rule bit_eqI)
  fix i
  have "bit (val_le (bu_shr a n)) i \<longleftrightarrow> bit (val_le a) (n + i)"
  proof (cases "i < 32 * length a")
    case True
    then have "i div 32 < length a" by (simp add: less_mult_imp_div_less mult.commute)
    moreover have "(i + n) div 32 < length a \<longleftrightarrow> i + n < 32 * length a"
      by (simp add: div_less_iff_less_mult mult.commute)
    ultimately show ?thesis using bit_bu_shr[OF True, of n] True by (simp add: bit_val_le add.commute)
  next
    case False
    then have "\<not> i div 32 < length a" "\<not> (n + i) div 32 < length a"
      by (simp_all add: div_less_iff_less_mult mult.commute)
    then show ?thesis by (simp add: bit_val_le)
  qed
  then show "bit (val_le (bu_shr a n)) i \<longleftrightarrow> bit (val_le a div 2 ^ n) i"
    by (simp add: bit_drop_bit_eq flip: drop_bit_eq_div)
qed

section \<open>Division\<close>

lemma length_bu_div_loop [simp]:
  "length num = length dv \<Longrightarrow> length (fst (bu_div_loop n num dv pn)) = length pn"
proof (induction n arbitrary: num dv pn)
  case (Suc n)
  then show ?case by (simp add: Let_def)
qed simp

lemma val_set_bit_limb:
  fixes pn :: "u32 list"
  assumes "k < 32 * length pn" "\<not> bit (val_le pn) k"
  shows "val_le (pn[k div 32 := pn ! (k div 32) OR push_bit (k mod 32) 1]) = val_le pn + 2 ^ k"
proof -
  have k: "k div 32 < length pn" using assms(1) by (simp add: less_mult_imp_div_less mult.commute)
  have "val_le (pn[k div 32 := pn ! (k div 32) OR push_bit (k mod 32) 1]) = val_le pn OR 2 ^ k"
  proof (rule bit_eqI)
    fix i
    show "bit (val_le (pn[k div 32 := pn ! (k div 32) OR push_bit (k mod 32) 1])) i \<longleftrightarrow>
        bit (val_le pn OR 2 ^ k) i"
    proof (cases "i div 32 = k div 32")
      case True
      then have "i = k \<longleftrightarrow> i mod 32 = k mod 32" by (metis div_mult_mod_eq)
      then show ?thesis using k True
        by (auto simp: bit_val_le bit_or_iff bit_push_bit_iff bit_exp_iff bit_1_iff)
    next
      case False
      then show ?thesis using k by (auto simp: bit_val_le bit_or_iff bit_exp_iff)
    qed
  qed
  also have "\<dots> = val_le pn + 2 ^ k"
    using assms(2) by (intro disjunctive_add[symmetric]) (auto simp: bit_exp_iff)
  finally show ?thesis .
qed

text \<open>
  The loop invariant of the long division: with \<open>n\<close> bit positions left, \<open>pn\<close> is a multiple of
  \<open>2 ^ n\<close>, the divisor is shifted by \<open>n - 1\<close>, and \<open>num < 2 ^ n * d\<close> is what remains.
\<close>

lemma bu_div_loop_correct:
  assumes "length num = length dv" "length pn = length dv" "n \<le> 32 * length pn"
    and "n > 0 \<longrightarrow> val_le dv = d * 2 ^ (n - 1)" "val_le num < d * 2 ^ n"
    and "2 ^ n dvd val_le pn"
  shows "val_le (fst (bu_div_loop n num dv pn)) = val_le pn + val_le num div d \<and>
    val_le (snd (bu_div_loop n num dv pn)) = val_le num mod d"
  using assms
proof (induction n arbitrary: num dv pn)
  case 0
  then show ?case by simp
next
  case (Suc n)
  have dv: "val_le dv = d * 2 ^ n" using Suc.prems(4) by simp
  have sh: "n > 0 \<longrightarrow> val_le (bu_shr dv 1) = d * 2 ^ (n - 1)"
    by (cases n) (simp_all add: val_bu_shr dv)
  have dvd: "2 ^ n dvd val_le pn" using Suc.prems(6) by (auto intro: dvd_trans le_imp_power_dvd)
  show ?case
  proof (cases "val_le dv \<le> val_le num")
    case False
    then have "val_le num < d * 2 ^ n" by (simp add: dv)
    then show ?thesis
      using Suc.IH[of num "bu_shr dv 1" pn] Suc.prems sh dvd False
      by (simp add: CompareTo_ge_iff Let_def)
  next
    case True
    define num' pn' where "num' = bu_sub num dv"
      and "pn' = pn[n div 32 := pn ! (n div 32) OR push_bit (n mod 32) 1]"
    have nb: "\<not> bit (val_le pn) n"
      using Suc.prems(6) by (auto simp: bit_iff_odd elim!: dvdE)
    have pn': "val_le pn' = val_le pn + 2 ^ n" "length pn' = length pn"
      using val_set_bit_limb[OF _ nb] Suc.prems(3) by (simp_all add: pn'_def)
    have num': "val_le num' = val_le num - d * 2 ^ n" "length num' = length num"
      using val_bu_sub_ge[OF Suc.prems(1) True] Suc.prems(1) by (simp_all add: num'_def dv)
    have lt: "val_le num' < d * 2 ^ n" using Suc.prems(5) num'(1) True dv by simp
    have d: "d > 0" using Suc.prems(5) by (cases d) simp_all
    have "val_le num = val_le num' + 2 ^ n * d" using num'(1) True dv by (simp add: mult.commute)
    then have q: "val_le num div d = val_le num' div d + 2 ^ n" "val_le num mod d = val_le num' mod d"
      using d by simp_all
    have "bu_div_loop (Suc n) num dv pn = bu_div_loop n num' (bu_shr dv 1) pn'"
      using True Suc.prems(1) by (simp add: CompareTo_ge_iff num'_def pn'_def)
    then show ?thesis
      using Suc.IH[of num' "bu_shr dv 1" pn'] Suc.prems sh dvd lt num'(2) pn' q by simp
  qed
qed

lemma bu_div_correct:
  assumes "length a = length b" "val_le b \<noteq> 0"
  shows "\<exists>q. bu_div a b = Some q \<and> length q = length a \<and> val_le q = val_le a div val_le b"
proof (cases "bits b > bits a")
  case True
  have "(2::nat) ^ bits a \<le> 2 ^ (bits b - 1)" using True by (intro power_increasing) simp_all
  then have "val_le a < val_le b" using bits_less[of a] bits_ge[OF assms(2)] by linarith
  then show ?thesis using True assms by (simp add: bu_div_def Let_def)
next
  case False
  define s where "s = bits a - bits b"
  have sb: "s + bits b = bits a" using False by (simp add: s_def)
  have "val_le b * 2 ^ s < 2 ^ bits b * 2 ^ s" using bits_less[of b] by simp
  also have "\<dots> = 2 ^ bits a" using sb by (simp flip: power_add add: add.commute)
  also have "\<dots> \<le> 2 ^ (32 * length b)" using bits_le[of a] assms(1) by (intro power_increasing) simp_all
  finally have shl: "val_le (bu_shl b s) = val_le b * 2 ^ s" by (simp add: val_bu_shl)
  have "(2::nat) ^ bits a = 2 ^ (bits b - 1) * 2 ^ Suc s"
  proof -
    have "bits a = bits b - 1 + Suc s" using sb assms(2) bits_eq_0_iff[of b] by linarith
    then show ?thesis by (simp only: power_add)
  qed
  also have "\<dots> \<le> val_le b * 2 ^ Suc s" using bits_ge[OF assms(2)] by (rule mult_le_mono1)
  finally have lt: "val_le a < val_le b * 2 ^ Suc s" using bits_less[of a] by linarith
  have le: "Suc s \<le> 32 * length a"
    using bits_le[of a] sb bits_eq_0_iff[of b] assms(2) by linarith
  show ?thesis
    using bu_div_loop_correct[of a "bu_shl b s" "replicate (length a) 0" "Suc s" "val_le b"]
      assms shl lt le False
    by (simp add: bu_div_def Let_def s_def[symmetric] del: bu_div_loop.simps power_Suc)
qed

lemma bu_div_zero: "val_le b = 0 \<Longrightarrow> bu_div a b = None"
  by (simp add: bu_div_def)

section \<open>Constructors, low words\<close>

lemma length_base_uint_u64 [simp]: "length (base_uint_u64 b) = 8"
  by (simp add: base_uint_u64_def WIDTH_def)

lemma length_base_uint_0 [simp]: "length base_uint_0 = 8"
  by (simp add: base_uint_0_def WIDTH_def)

lemma val_base_uint_0 [simp]: "val_le base_uint_0 = 0"
  by (simp add: base_uint_0_def)

lemma unat_ucast_64_32: "unat (ucast (b :: u64) :: u32) = unat b mod 2 ^ 32"
  by (simp add: unsigned_ucast_eq take_bit_eq_mod)

lemma val_base_uint_u64 [val_simps]: "val_le (base_uint_u64 b) = unat b"
proof -
  have "val_le (base_uint_u64 b) = unat b mod 2 ^ 32 + 2 ^ 32 * (unat b div 2 ^ 32 mod 2 ^ 32)"
    by (simp only: base_uint_u64_def val_le.simps unat_ucast_64_32 unat_high_limb) simp
  also have "unat b div 2 ^ 32 mod 2 ^ 32 = unat b div 2 ^ 32" using unat_u64_less[of b] by simp
  finally show ?thesis by (simp only: mod_mult_div_eq)
qed

lemma val_GetLow64:
  assumes "length pn \<ge> 2"
  shows "unat (GetLow64 pn) = val_le pn mod 2 ^ 64"
proof -
  obtain x y ys where pn: "pn = x # y # ys"
    using assms by (metis One_nat_def Suc_1 Suc_le_length_iff)
  have "unat (push_bit 32 (ucast y :: u64)) = unat y * 2 ^ 32"
    using unat_u32_less[of y] unat_mult_lem[of "ucast y :: u64" "2 ^ 32"]
    by (simp add: push_bit_eq_mult)
  moreover have "GetLow64 pn = ucast x + push_bit 32 (ucast y)"
    unfolding GetLow64_def pn nth_Cons_0 nth_Cons_Suc One_nat_def
  proof (rule disjunctive_add[symmetric])
    fix n show "\<not> bit (ucast x :: u64) n \<or> \<not> bit (push_bit 32 (ucast y) :: u64) n"
      using bit_imp_le_length[of x n] by (auto simp: bit_push_bit_iff bit_ucast_iff)
  qed
  ultimately have "unat (GetLow64 pn) = unat x + unat y * 2 ^ 32"
    using unat_u32_less[of x] unat_u32_less[of y] unat_add_lem[of "ucast x :: u64" "push_bit 32 (ucast y)"]
    by simp
  moreover have "val_le pn = (unat x + unat y * 2 ^ 32) + 2 ^ 64 * val_le ys" by (simp add: pn)
  moreover have "unat x + unat y * 2 ^ 32 < 2 ^ 64" using unat_u32_less[of x] unat_u32_less[of y] by simp
  ultimately show ?thesis by (simp only: mod_mult_self2 mod_less)
qed

section \<open>Compact form\<close>

lemma unat_exponent: "unat (drop_bit 24 (c :: u32)) = unat c div 2 ^ 24"
  by (simp add: drop_bit_eq_div unat_div)

lemma unat_mantissa: "unat ((c :: u32) AND 0x007fffff) = unat c mod 2 ^ 23"
proof -
  have "c AND 0x007fffff = take_bit 23 c" by (simp add: take_bit_eq_mask mask_eq_exp_minus_1)
  then show ?thesis by (simp add: take_bit_eq_mod unat_mod)
qed

lemma sign_bit_iff: "(c :: u32) AND 0x00800000 \<noteq> 0 \<longleftrightarrow> odd (unat c div 2 ^ 23)"
proof -
  have "c AND 0x00800000 \<noteq> 0 \<longleftrightarrow> bit c 23"
    using and_exp_eq_0_iff_not_bit[of c 23] by simp
  moreover have "bit c 23 \<longleftrightarrow> bit (unat c) 23" by (simp add: bit_unsigned_iff)
  ultimately show ?thesis by (simp only: bit_iff_odd)
qed

lemma above_mantissa_iff: "(c :: u32) AND NOT 0x007fffff \<noteq> 0 \<longleftrightarrow> 2 ^ 23 \<le> unat c"
proof -
  have "c AND NOT 0x007fffff = 0 \<longleftrightarrow> c = take_bit 23 c"
  proof -
    have m: "(0x007fffff :: u32) = mask 23" by (simp add: mask_eq_exp_minus_1)
    have "c AND NOT (mask 23) = 0 \<longleftrightarrow> (\<forall>n. bit c n \<longrightarrow> n < 23)"
      using bit_imp_le_length[of c] by (auto simp: bit_eq_iff bit_and_iff bit_not_iff bit_mask_iff)
    also have "\<dots> \<longleftrightarrow> c = take_bit 23 c" using bit_imp_le_length[of c] by (auto simp: bit_eq_iff bit_take_bit_iff)
    finally show ?thesis unfolding m .
  qed
  also have "\<dots> \<longleftrightarrow> unat c = unat c mod 2 ^ 23"
    by (simp add: word_unat_eq_iff take_bit_eq_mod unat_mod)
  also have "\<dots> \<longleftrightarrow> unat c < 2 ^ 23" by (metis mod_less mod_less_divisor zero_less_numeral zero_less_power)
  finally show ?thesis by linarith
qed

lemma unat_join_compact:
  assumes "unat (m :: u32) < 2 ^ 23" "e < 256"
  shows "unat (m OR push_bit 24 (word_of_nat e)) = unat m + 2 ^ 24 * e"
proof -
  have e: "unat (push_bit 24 (word_of_nat e) :: u32) = 2 ^ 24 * e"
    using assms(2) unat_mult_lem[of "word_of_nat e :: u32" "2 ^ 24"]
    by (simp add: push_bit_eq_mult unat_of_nat mult.commute)
  have "m OR push_bit 24 (word_of_nat e) = m + push_bit 24 (word_of_nat e)"
  proof (rule disjunctive_add[symmetric])
    fix n show "\<not> bit m n \<or> \<not> bit (push_bit 24 (word_of_nat e) :: u32) n"
    proof (cases "n < 24")
      case False
      have "\<not> bit (unat m) n"
      proof
        assume "bit (unat m) n"
        then have "2 ^ n \<le> unat m" by (rule bit_imp_ge_exp)
        moreover have "(2::nat) ^ 24 \<le> 2 ^ n" using False by (intro power_increasing) simp_all
        ultimately show False using assms(1) by simp
      qed
      then show ?thesis by (auto simp: bit_unsigned_iff dest: bit_imp_le_length)
    qed (simp add: bit_push_bit_iff)
  qed
  then show ?thesis
    using assms unat_add_lem[of m "push_bit 24 (word_of_nat e)"] by (simp add: e)
qed

text \<open>
  \<open>compact_val c\<close> is the number a compact word denotes: mantissa times \<open>256 ^ (exponent - 3)\<close>,
  rounded down when the exponent is below 3.
\<close>

definition compact_val :: "u32 \<Rightarrow> nat" where
  "compact_val c = (unat c mod 2 ^ 23) * 256 ^ (unat c div 2 ^ 24) div 256 ^ 3"

lemma compact_val_small:
  assumes "unat c div 2 ^ 24 \<le> 3"
  shows "compact_val c = unat c mod 2 ^ 23 div 256 ^ (3 - unat c div 2 ^ 24)"
proof -
  define s where "s = unat c div 2 ^ 24"
  have "(256::nat) ^ 3 = 256 ^ s * 256 ^ (3 - s)" using assms by (simp flip: power_add add: s_def)
  then show ?thesis unfolding compact_val_def s_def[symmetric]
    by (simp only: mult.commute[of _ "256 ^ s"] div_mult2_eq) simp
qed

lemma compact_val_large:
  assumes "unat c div 2 ^ 24 \<ge> 3"
  shows "compact_val c = (unat c mod 2 ^ 23) * 256 ^ (unat c div 2 ^ 24 - 3)"
proof -
  define s where "s = unat c div 2 ^ 24"
  have "(256::nat) ^ s = 256 ^ (s - 3) * 256 ^ 3" 
    using assms power_add[of "256::nat" "s - 3" 3] by (simp add: s_def)
  then show ?thesis unfolding compact_val_def s_def[symmetric] by (simp only: mult.assoc[symmetric]) simp
qed

lemma pow256: "(256::nat) ^ n = 2 ^ (8 * n)"
  by (simp add: power_mult)

lemma SetCompact_small:
  assumes "unat c div 2 ^ 24 \<le> 3"
  shows "SetCompact c =
    (base_uint_u64 (ucast (drop_bit (8 * (3 - unat c div 2 ^ 24)) (c AND 0x007fffff))),
     compact_val c \<noteq> 0 \<and> odd (unat c div 2 ^ 23), False)"
    "unat (drop_bit (8 * (3 - unat c div 2 ^ 24)) (c AND 0x007fffff)) = compact_val c"
proof -
  define s where "s = unat c div 2 ^ 24"
  let ?w = "drop_bit (8 * (3 - s)) (c AND 0x007fffff)"
  show u: "unat (drop_bit (8 * (3 - unat c div 2 ^ 24)) (c AND 0x007fffff)) = compact_val c"
    using compact_val_small[OF assms]
    unfolding unat_drop_bit_eq unat_mantissa unfolding drop_bit_eq_div pow256 by simp
  have "?w \<noteq> 0 \<longleftrightarrow> compact_val c \<noteq> 0" using u unat_eq_zero[of ?w] by (simp only: s_def)
  then show "SetCompact c = (base_uint_u64 (ucast (drop_bit (8 * (3 - unat c div 2 ^ 24)) (c AND 0x007fffff))),
     compact_val c \<noteq> 0 \<and> odd (unat c div 2 ^ 23), False)"
    using assms unfolding SetCompact_def Let_def unat_exponent sign_bit_iff s_def[symmetric] by auto
qed

lemma SetCompact_large:
  assumes "\<not> unat c div 2 ^ 24 \<le> 3"
  shows "SetCompact c =
    (bu_shl (base_uint_u64 (ucast (c AND 0x007fffff))) (8 * (unat c div 2 ^ 24 - 3)),
     compact_val c \<noteq> 0 \<and> odd (unat c div 2 ^ 23), 2 ^ 256 \<le> compact_val c)"
proof -
  define s m where "s = unat c div 2 ^ 24" and "m = unat c mod 2 ^ 23"
  have cv: "compact_val c = m * 256 ^ (s - 3)" using assms by (simp add: compact_val_large s_def m_def)
  have m: "unat (c AND 0x007fffff) = m" by (simp only: unat_mantissa m_def)
  have "m < 2 ^ 23" by (simp add: m_def)
  have nz: "c AND 0x007fffff \<noteq> 0 \<longleftrightarrow> compact_val c \<noteq> 0"
    unfolding cv m[symmetric] using unat_eq_zero[of "c AND 0x007fffff"] by simp
  have "m \<noteq> 0 \<and> (s > 34 \<or> (m > 255 \<and> s > 33) \<or> (m > 65535 \<and> s > 32)) \<longleftrightarrow> 2 ^ 256 \<le> m * 2 ^ (8 * (s - 3))"
  proof -
    consider "s > 34" | "s = 34" | "s = 33" | "s \<le> 32" by linarith
    then show ?thesis
    proof cases
      case 1
      then have "(2::nat) ^ 256 \<le> 2 ^ (8 * (s - 3))" by (intro power_increasing) simp_all
      then have "m \<noteq> 0 \<Longrightarrow> 2 ^ 256 \<le> m * 2 ^ (8 * (s - 3))"
        by (metis le_trans mult_le_mono1 mult_1 One_nat_def Suc_leI neq0_conv)
      then show ?thesis using 1 by (cases "m = 0") simp_all
    next
      case 2 then show ?thesis by simp linarith
    next
      case 3 then show ?thesis by simp linarith
    next
      case 4
      then have "(2::nat) ^ (8 * (s - 3)) \<le> 2 ^ 232" by (intro power_increasing) simp_all
      then have "m * 2 ^ (8 * (s - 3)) \<le> m * 2 ^ 232" by (rule mult_le_mono2)
      also have "\<dots> < 2 ^ 23 * 2 ^ 232" using \<open>m < 2 ^ 23\<close> by simp
      finally show ?thesis using 4 by simp
    qed
  qed
  then have ov: "c AND 0x007fffff \<noteq> 0 \<and> (s > 34 \<or> (c AND 0x007fffff > 0xff \<and> s > 33) \<or>
      (c AND 0x007fffff > 0xffff \<and> s > 32)) \<longleftrightarrow> 2 ^ 256 \<le> compact_val c"
    unfolding cv pow256 m[symmetric] by (simp add: word_less_nat_alt unat_eq_zero)
  show ?thesis
    using assms nz ov unfolding SetCompact_def Let_def unat_exponent sign_bit_iff s_def[symmetric] by simp
qed

lemma length_SetCompact [simp]: "length (fst (SetCompact c)) = 8"
proof (cases "unat c div 2 ^ 24 \<le> 3")
  case True
  show ?thesis unfolding SetCompact_small(1)[OF True] by simp
next
  case False
  show ?thesis unfolding SetCompact_large[OF False] by simp
qed

lemma compact_val_small_less: "unat c div 2 ^ 24 \<le> 3 \<Longrightarrow> compact_val c < 2 ^ 23"
  using compact_val_small[of c] div_le_dividend[of "unat c mod 2 ^ 23"]
  by (metis le_less_trans mod_less_divisor zero_less_numeral zero_less_power)

lemma val_SetCompact [val_simps]: "val_le (fst (SetCompact c)) = compact_val c mod 2 ^ 256"
proof (cases "unat c div 2 ^ 24 \<le> 3")
  case True
  have "(compact_val c) < 2 ^ 256" using compact_val_small_less[OF True] by simp
  then show ?thesis
    using SetCompact_small[OF True] by (simp only: fst_conv val_base_uint_u64 unat_ucast_32_64 mod_less)
next
  case False
  then have "compact_val c = unat (c AND 0x007fffff) * 2 ^ (8 * (unat c div 2 ^ 24 - 3))"
    using compact_val_large[of c] by (simp only: unat_mantissa pow256)
  then show ?thesis
    using SetCompact_large[OF False]
    by (simp only: fst_conv val_bu_shl val_base_uint_u64 unat_ucast_32_64 length_base_uint_u64) simp
qed

lemma SetCompact_flags:
  "snd (SetCompact c) = (compact_val c \<noteq> 0 \<and> odd (unat c div 2 ^ 23), 2 ^ 256 \<le> compact_val c)"
proof (cases "unat c div 2 ^ 24 \<le> 3")
  case True
  have "\<not> 2 ^ 256 \<le> compact_val c" using compact_val_small_less[OF True] by simp
  then show ?thesis unfolding SetCompact_small(1)[OF True] by simp
next
  case False
  show ?thesis unfolding SetCompact_large[OF False] by simp
qed

text \<open>
  \<open>compact_unit v\<close> is the weight of the last mantissa byte \<open>GetCompact\<close> keeps of a value: the bytes
  below it are lost.
\<close>

definition compact_unit :: "base_uint \<Rightarrow> nat" where
  "compact_unit pn = 256 ^ (bits pn div 8 - 2)"

lemma GetCompact_mantissa:
  fixes pn :: base_uint
  assumes "length pn = 8"
  defines "nSize \<equiv> (bits pn + 7) div 8"
  defines "m \<equiv> (if nSize \<le> 3 then ucast (push_bit (8 * (3 - nSize)) (GetLow64 pn))
     else ucast (GetLow64 (bu_shr pn (8 * (nSize - 3)))) :: u32)"
  shows "unat m = val_le pn * 256 ^ 3 div 256 ^ nSize" "unat m < 2 ^ 24"
    "2 ^ 23 \<le> unat m \<longleftrightarrow> bits pn \<noteq> 0 \<and> bits pn mod 8 = 0"
proof -
  have v: "val_le pn < 2 ^ bits pn" by (rule bits_less)
  have b: "bits pn \<le> 8 * nSize" "8 * nSize \<le> bits pn + 7" unfolding nSize_def by presburger+
  have v8: "val_le pn < 2 ^ (8 * nSize)"
    using v power_increasing[OF b(1), of "2::nat"] by linarith
  have m24: "val_le pn * 256 ^ 3 div 256 ^ nSize < 2 ^ 24"
    using v8 by (simp add: pow256 div_less_iff_less_mult mult.commute)
  show um: "unat m = val_le pn * 256 ^ 3 div 256 ^ nSize"
  proof (cases "nSize \<le> 3")
    case True
    have e: "(256::nat) ^ 3 = 256 ^ (3 - nSize) * 256 ^ nSize" using True by (simp flip: power_add)
    have "val_le pn < 2 ^ 24" using v8 power_increasing[of "8 * nSize" 24 "2::nat"] True by simp
    then have lo: "unat (GetLow64 pn) = val_le pn" using val_GetLow64[of pn] assms(1) by simp
    have val: "val_le pn * 256 ^ 3 div 256 ^ nSize = val_le pn * 2 ^ (8 * (3 - nSize))"
      unfolding e pow256[symmetric] by (simp add: mult.assoc[symmetric])
    then have lt: "val_le pn * 2 ^ (8 * (3 - nSize)) < 2 ^ 24" using m24 by simp
    have "unat (push_bit (8 * (3 - nSize)) (GetLow64 pn)) = val_le pn * 2 ^ (8 * (3 - nSize))"
      using unat_push_bit_exact[of "GetLow64 pn" "8 * (3 - nSize)"] lt lo by simp
    then show ?thesis using True lt val by (simp add: m_def unat_ucast_64_32)
  next
    case False
    have e: "(256::nat) ^ nSize = 256 ^ 3 * 256 ^ (nSize - 3)"
      using False power_add[of "256::nat" 3 "nSize - 3"] by simp
    have val: "val_le pn * 256 ^ 3 div 256 ^ nSize = val_le pn div 2 ^ (8 * (nSize - 3))"
      unfolding e pow256[symmetric] by (simp add: mult.commute[of "val_le pn"])
    then have lt: "val_le pn div 2 ^ (8 * (nSize - 3)) < 2 ^ 24" using m24 by simp
    then have "unat (GetLow64 (bu_shr pn (8 * (nSize - 3)))) = val_le pn div 2 ^ (8 * (nSize - 3))"
      using val_GetLow64[of "bu_shr pn (8 * (nSize - 3))"] assms(1) by (simp add: val_bu_shr)
    then show ?thesis using False lt val by (simp add: m_def unat_ucast_64_32)
  qed
  show "unat m < 2 ^ 24" unfolding um by (rule m24)
  show "2 ^ 23 \<le> unat m \<longleftrightarrow> bits pn \<noteq> 0 \<and> bits pn mod 8 = 0"
  proof -
    have "2 ^ 23 \<le> unat m \<longleftrightarrow> 2 ^ 23 * 2 ^ (8 * nSize) \<le> val_le pn * 2 ^ 24"
      unfolding um pow256 by (simp add: less_eq_div_iff_mult_less_eq)
    also have "\<dots> \<longleftrightarrow> 2 ^ (8 * nSize) \<le> val_le pn * 2" by (simp add: mult.commute)
    also have "\<dots> \<longleftrightarrow> bits pn \<noteq> 0 \<and> bits pn = 8 * nSize"
    proof (intro iffI conjI)
      assume a: "2 ^ (8 * nSize) \<le> val_le pn * 2"
      then show "bits pn \<noteq> 0" using not_one_le_zero power_eq_0_iff by (metis bits_eq_0_iff le_zero_eq mult_zero_left zero_neq_numeral)
      show "bits pn = 8 * nSize"
      proof (rule ccontr)
        assume "bits pn \<noteq> 8 * nSize"
        then have "Suc (bits pn) \<le> 8 * nSize" using b by linarith
        then have "(2::nat) ^ Suc (bits pn) \<le> 2 ^ (8 * nSize)" by (intro power_increasing) simp_all
        then show False using a v by simp
      qed
    next
      assume a: "bits pn \<noteq> 0 \<and> bits pn = 8 * nSize"
      then obtain k where k: "8 * nSize = Suc k" by (metis not0_implies_Suc)
      from a have "2 ^ (bits pn - 1) \<le> val_le pn" using bits_ge[of pn] bits_eq_0_iff[of pn] by simp
      then have "2 ^ k \<le> val_le pn" using a k by simp
      then show "2 ^ (8 * nSize) \<le> val_le pn * 2" unfolding k by simp
    qed
    also have "\<dots> \<longleftrightarrow> bits pn \<noteq> 0 \<and> bits pn mod 8 = 0" unfolding nSize_def by presburger
    finally show ?thesis .
  qed
qed

text \<open>
  The word \<open>GetCompact\<close> produces, split into its exponent and its mantissa: the exponent counts
  one byte more than needed when the top bit of the top byte is set, so that the sign bit stays clear.
\<close>

lemma GetCompact_fields:
  assumes "length pn = 8"
  shows "\<exists>c. GetCompact False pn = Some c \<and>
    unat c = (if bits pn = 0 then 0 else
      val_le pn * 256 ^ 3 div 256 ^ (bits pn div 8 + 1) + 2 ^ 24 * (bits pn div 8 + 1)) \<and>
    (bits pn \<noteq> 0 \<longrightarrow> val_le pn * 256 ^ 3 div 256 ^ (bits pn div 8 + 1) < 2 ^ 23)"
proof -
  define nSize where "nSize = (bits pn + 7) div 8"
  define m :: u32 where "m = (if nSize \<le> 3 then ucast (push_bit (8 * (3 - nSize)) (GetLow64 pn))
     else ucast (GetLow64 (bu_shr pn (8 * (nSize - 3)))))"
  note um = GetCompact_mantissa[OF assms, folded nSize_def, folded m_def]
  have b256: "bits pn \<le> 256" using bits_le[of pn] assms by simp
  define top where "top \<longleftrightarrow> bits pn \<noteq> 0 \<and> bits pn mod 8 = 0"
  have sg: "m AND 0x00800000 \<noteq> 0 \<longleftrightarrow> top"
  proof -
    have "odd (unat m div 2 ^ 23) \<longleftrightarrow> 2 ^ 23 \<le> unat m"
    proof -
      have "unat m div 2 ^ 23 < 2" using um(2) by simp
      then have "odd (unat m div 2 ^ 23) \<longleftrightarrow> 1 \<le> unat m div 2 ^ 23" by (cases "unat m div 2 ^ 23") auto
      then show ?thesis by (simp add: less_eq_div_iff_mult_less_eq)
    qed
    then show ?thesis using um(3) by (simp only: sign_bit_iff top_def)
  qed
  define e where "e = (if top then nSize + 1 else nSize)"
  define m' where "m' = (if top then drop_bit 8 m else m)"
  have um': "unat m' = val_le pn * 256 ^ 3 div 256 ^ e"
  proof (cases top)
    case True
    have "unat (drop_bit 8 m) = unat m div 256" by (simp add: drop_bit_eq_div unat_div)
    then show ?thesis using True um(1) by (simp add: m'_def e_def div_mult2_eq mult.commute[of 256])
  qed (simp add: m'_def e_def um(1))
  have lt: "unat m' < 2 ^ 23"
  proof (cases top)
    case True
    have "unat (drop_bit 8 m) = unat m div 256" by (simp add: drop_bit_eq_div unat_div)
    then show ?thesis using True um(2) by (simp add: m'_def)
  next
    case False
    then have "\<not> 2 ^ 23 \<le> unat m" using um(3) by (simp only: top_def) simp
    then show ?thesis using False by (simp add: m'_def)
  qed
  have "nSize \<le> 32" unfolding nSize_def using b256 by presburger
  then have e34: "e \<le> 33" by (simp add: e_def)
  have eb: "bits pn \<noteq> 0 \<Longrightarrow> e = bits pn div 8 + 1"
    unfolding e_def top_def nSize_def by (simp split: if_split) presburger
  have e0: "bits pn = 0 \<Longrightarrow> e = 0 \<and> unat m' = 0"
    by (simp add: e_def top_def nSize_def um')
  have "GetCompact False pn = Some (m' OR push_bit 24 (word_of_nat e))"
  proof -
    have "\<not> m' AND NOT 0x007fffff \<noteq> 0" using lt above_mantissa_iff[of m'] by linarith
    moreover have "e < 256" using e34 by simp
    moreover have "(if m AND 0x00800000 \<noteq> 0 then (drop_bit 8 m, nSize + 1) else (m, nSize)) = (m', e)"
      unfolding sg m'_def e_def by simp
    ultimately show ?thesis
      unfolding GetCompact_def Let_def nSize_def[symmetric] m_def[symmetric] by (simp del: push_bit_numeral_minus_1)
  qed
  moreover have "unat (m' OR push_bit 24 (word_of_nat e)) = unat m' + 2 ^ 24 * e"
    using lt e34 by (intro unat_join_compact) simp_all
  ultimately show ?thesis using eb e0 um' lt by auto
qed

lemma GetCompact_SetCompact:
  assumes "length pn = 8"
  shows "\<exists>c. GetCompact False pn = Some c \<and> snd (SetCompact c) = (False, False) \<and>
    val_le (fst (SetCompact c)) = val_le pn div compact_unit pn * compact_unit pn"
proof -
  obtain c where c: "GetCompact False pn = Some c" and
    uc: "unat c = (if bits pn = 0 then 0 else
      val_le pn * 256 ^ 3 div 256 ^ (bits pn div 8 + 1) + 2 ^ 24 * (bits pn div 8 + 1))" and
    m23: "bits pn \<noteq> 0 \<Longrightarrow> val_le pn * 256 ^ 3 div 256 ^ (bits pn div 8 + 1) < 2 ^ 23"
    using GetCompact_fields[OF assms] by blast
  define q where "q = bits pn div 8"
  define m where "m = val_le pn * 256 ^ 3 div 256 ^ (q + 1)"
  have cv: "compact_val c = val_le pn div compact_unit pn * compact_unit pn \<and> even (unat c div 2 ^ 23)"
  proof (cases "bits pn = 0")
    case True
    then show ?thesis using uc by (simp add: compact_val_def)
  next
    case False
    have m: "m < 2 ^ 23" using m23[OF False] by (simp add: m_def q_def)
    have c24: "unat c = m + 2 ^ 24 * (q + 1)" using uc False by (simp add: m_def q_def)
    have "unat c = m + 2 ^ 23 * (2 * (q + 1))" using c24 by simp
    then have f: "unat c mod 2 ^ 23 = m" "unat c div 2 ^ 23 = 2 * (q + 1)"
      using m by (simp_all only: mod_mult_self2 mod_less div_mult_self2 div_less)
    have "unat c div 2 ^ 24 = q + 1" using c24 m by simp
    then have v: "compact_val c = m * 256 ^ (q + 1) div 256 ^ 3" using f by (simp add: compact_val_def)
    show ?thesis
    proof (cases "q \<le> 2")
      case True
      have e: "(256::nat) ^ 3 = 256 ^ (2 - q) * 256 ^ (q + 1)"
        using True power_add[of "256::nat" "2 - q" "q + 1"] by simp
      have "m = val_le pn * 256 ^ (2 - q)" unfolding m_def e by (simp add: mult.assoc[symmetric])
      then have "compact_val c = val_le pn" unfolding v e by (simp add: mult.assoc)
      then show ?thesis using True f(2) by (simp add: compact_unit_def q_def)
    next
      case False
      have e: "(256::nat) ^ (q + 1) = 256 ^ 3 * 256 ^ (q - 2)"
        using False power_add[of "256::nat" 3 "q - 2"] by simp
      have "m = val_le pn div 256 ^ (q - 2)" unfolding m_def e by (simp add: mult.commute[of "val_le pn"])
      then have "compact_val c = val_le pn div 256 ^ (q - 2) * 256 ^ (q - 2)"
        unfolding v e by (simp add: mult.left_commute[of _ "256 ^ 3"])
      then show ?thesis using f(2) by (simp add: compact_unit_def q_def)
    qed
  qed
  have "compact_val c \<le> val_le pn" using cv by (simp only: div_times_less_eq_dividend)
  moreover have "val_le pn < 2 ^ 256" using val_le_less[of pn] assms by simp
  ultimately have lt: "compact_val c < 2 ^ 256" by (rule le_less_trans)
  then have "snd (SetCompact c) = (False, False)" using cv by (simp add: SetCompact_flags)
  moreover have "val_le (fst (SetCompact c)) = val_le pn div compact_unit pn * compact_unit pn"
    using lt cv by (simp add: val_SetCompact)
  ultimately show ?thesis using c by blast
qed

section \<open>Conversion to and from blobs\<close>

lemma val_WriteLE32: "val_le (WriteLE32 x) = unat x"
proof -
  have b: "unat (ucast (drop_bit n x) :: u8) = unat x div 2 ^ n mod 256" for n
    unfolding unsigned_ucast_eq unat_drop_bit_eq unfolding drop_bit_eq_div take_bit_eq_mod by simp
  have b0: "unat (ucast x :: u8) = unat x mod 256" using b[of 0] by simp
  have "unat x div 2 ^ 24 < 256" using unat_u32_less[of x] by simp
  then have "val_le (WriteLE32 x) = unat x mod 256 + 256 * (unat x div 256 mod 256 +
      256 * (unat x div 256 div 256 mod 256 + 256 * (unat x div 256 div 256 div 256)))"
    unfolding WriteLE32_def val_le.simps b b0 by (simp flip: div_mult2_eq)
  then show ?thesis by (simp add: mod_mult_div_eq)
qed

lemma length_WriteLE32 [simp]: "length (WriteLE32 x) = 4"
  by (simp add: WriteLE32_def)

lemma ReadLE32_WriteLE32: "ReadLE32 (WriteLE32 x @ rest) = x"
proof (rule bit_word_eqI)
  fix n assume n: "n < LENGTH(32)"
  have "bit (ReadLE32 (WriteLE32 x @ rest)) n \<longleftrightarrow>
      (n < 8 \<and> bit x n) \<or> (8 \<le> n \<and> n < 16 \<and> bit x n) \<or> (16 \<le> n \<and> n < 24 \<and> bit x n) \<or> (24 \<le> n \<and> bit x n)"
    using n by (auto simp: ReadLE32_def WriteLE32_def bit_or_iff bit_push_bit_iff bit_ucast_iff
      bit_drop_bit_eq numeral_3_eq_3 numeral_2_eq_2)
  then show "bit (ReadLE32 (WriteLE32 x @ rest)) n = bit x n" by auto
qed

lemma WriteLE32_ReadLE32: "length p = 4 \<Longrightarrow> WriteLE32 (ReadLE32 (p @ rest)) = p"
proof -
  assume "length p = 4"
  then obtain a b c d where p: "p = [a, b, c, d]"
    by (auto simp: numeral_eq_Suc length_Suc_conv)
  have bits: "bit (ReadLE32 (p @ rest)) n \<longleftrightarrow> n < 32 \<and>
      (if n < 8 then bit a n else if n < 16 then bit b (n - 8) else if n < 24 then bit c (n - 16)
       else bit d (n - 24))" for n
    using bit_imp_le_length[of a n] bit_imp_le_length[of b "n - 8"] bit_imp_le_length[of c "n - 16"]
      bit_imp_le_length[of d "n - 24"]
    by (auto simp: ReadLE32_def p bit_or_iff bit_push_bit_iff bit_ucast_iff numeral_3_eq_3 numeral_2_eq_2)
  have "(ucast (drop_bit k (ReadLE32 (p @ rest))) :: u8) = w"
    if "\<And>n. n < 8 \<Longrightarrow> bit (ReadLE32 (p @ rest)) (k + n) = bit w n" for k w
    using that by (intro bit_word_eqI) (simp add: bit_ucast_iff bit_drop_bit_eq)
  note e = this
  have "(ucast (ReadLE32 (p @ rest)) :: u8) = a" using e[of 0 a] by (simp add: bits)
  moreover have "(ucast (drop_bit 8 (ReadLE32 (p @ rest))) :: u8) = b" by (rule e) (simp add: bits)
  moreover have "(ucast (drop_bit 16 (ReadLE32 (p @ rest))) :: u8) = c" by (rule e) (simp add: bits)
  moreover have "(ucast (drop_bit 24 (ReadLE32 (p @ rest))) :: u8) = d" by (rule e) (simp add: bits)
  ultimately show ?thesis by (simp only: WriteLE32_def p)
qed

lemma val_ArithToUint256: "val_le (ArithToUint256 pn) = val_le pn"
  by (induction pn) (simp_all add: ArithToUint256_def val_le_append val_WriteLE32)

lemma length_ArithToUint256 [simp]: "length (ArithToUint256 pn) = 4 * length pn"
  by (induction pn) (simp_all add: ArithToUint256_def)

lemma drop_ArithToUint256:
  "i < length pn \<Longrightarrow> drop (i * 4) (ArithToUint256 pn) = WriteLE32 (pn ! i) @ ArithToUint256 (drop (Suc i) pn)"
proof (induction pn arbitrary: i)
  case (Cons x xs)
  then show ?case
  proof (cases i)
    case (Suc j)
    have "drop (i * 4) (ArithToUint256 (x # xs)) = drop (j * 4) (ArithToUint256 xs)"
      by (simp add: ArithToUint256_def Suc)
    then show ?thesis using Cons Suc by simp
  qed (simp add: ArithToUint256_def)
qed simp

lemma UintToArith256_ArithToUint256: "length pn = 8 \<Longrightarrow> UintToArith256 (ArithToUint256 pn) = pn"
  by (rule nth_equalityI)
     (simp_all add: UintToArith256_def WIDTH_def drop_ArithToUint256 ReadLE32_WriteLE32)

lemma length_UintToArith256 [simp]: "length (UintToArith256 a) = 8"
  by (simp add: UintToArith256_def WIDTH_def)

lemma chunks4: "length (a :: 'a list) = 4 * n \<Longrightarrow> concat (map (\<lambda>i. take 4 (drop (i * 4) a)) [0..<n]) = a"
proof (induction n arbitrary: a)
  case (Suc n)
  have "map (\<lambda>i. take 4 (drop (i * 4) a)) [0..<Suc n] =
      take 4 a # map (\<lambda>i. take 4 (drop (i * 4) (drop 4 a))) [0..<n]"
    by (simp only: upt_conv_Cons[OF zero_less_Suc] map_Suc_upt[symmetric] list.map map_map comp_def)
       (simp add: add.commute)
  then show ?case using Suc.IH[of "drop 4 a"] Suc.prems by simp
qed simp

lemma ArithToUint256_UintToArith256:
  assumes "length a = 32"
  shows "ArithToUint256 (UintToArith256 a) = a"
proof -
  have "WriteLE32 (ReadLE32 (drop (i * 4) a)) = take 4 (drop (i * 4) a)" if "i < 8" for i
    using WriteLE32_ReadLE32[of "take 4 (drop (i * 4) a)" "drop 4 (drop (i * 4) a)"] that assms
    by (simp only: append_take_drop_id) simp
  then have "map (\<lambda>i. WriteLE32 (ReadLE32 (drop (i * 4) a))) [0..<WIDTH] = map (\<lambda>i. take 4 (drop (i * 4) a)) [0..<8]"
    by (intro map_cong) (simp_all add: WIDTH_def)
  then have "ArithToUint256 (UintToArith256 a) = concat (map (\<lambda>i. take 4 (drop (i * 4) a)) [0..<8])"
    by (simp only: ArithToUint256_def UintToArith256_def map_map comp_def)
  then show ?thesis using chunks4[of a 8] assms by simp
qed

lemma val_UintToArith256: "length a = 32 \<Longrightarrow> val_le (UintToArith256 a) = val_le a"
  using val_ArithToUint256[of "UintToArith256 a"] ArithToUint256_UintToArith256[of a] by simp

section \<open>The interface the chain code relies on\<close>

text \<open>
  What \<open>pow.cpp\<close> and \<open>chain.cpp\<close> use of \<open>arith_uint256\<close>: wrapping sums and products, floor
  division that throws on 0, complement and comparison, each in terms of the value.
\<close>

locale modular_uint =
  fixes val :: "'u \<Rightarrow> nat" and invar :: "'u \<Rightarrow> bool" and M :: nat
    and of_u64 :: "u64 \<Rightarrow> 'u" and add :: "'u \<Rightarrow> 'u \<Rightarrow> 'u" and mul :: "'u \<Rightarrow> 'u \<Rightarrow> 'u"
    and quot :: "'u \<Rightarrow> 'u \<Rightarrow> 'u option" and compl :: "'u \<Rightarrow> 'u" and less :: "'u \<Rightarrow> 'u \<Rightarrow> bool"
  assumes val_lt: "invar a \<Longrightarrow> val a < M"
    and u64_invar: "invar (of_u64 w)" and u64_val: "val (of_u64 w) = unat w"
    and add_invar: "invar a \<Longrightarrow> invar b \<Longrightarrow> invar (add a b)"
    and add_val: "invar a \<Longrightarrow> invar b \<Longrightarrow> val (add a b) = (val a + val b) mod M"
    and mul_invar: "invar a \<Longrightarrow> invar b \<Longrightarrow> invar (mul a b)"
    and mul_val: "invar a \<Longrightarrow> invar b \<Longrightarrow> val (mul a b) = (val a * val b) mod M"
    and quot_val: "invar a \<Longrightarrow> invar b \<Longrightarrow> val b \<noteq> 0 \<Longrightarrow>
      \<exists>q. quot a b = Some q \<and> invar q \<and> val q = val a div val b"
    and quot_zero: "val b = 0 \<Longrightarrow> quot a b = None"
    and compl_invar: "invar a \<Longrightarrow> invar (compl a)"
    and compl_val: "invar a \<Longrightarrow> val (compl a) = M - 1 - val a"
    and less_val: "invar a \<Longrightarrow> invar b \<Longrightarrow> less a b \<longleftrightarrow> val a < val b"
begin

lemma scale_exact:
  assumes "invar a" "invar b" "invar c" "val c \<noteq> 0" "val a * val b < M"
  shows "\<exists>q. quot (mul a b) c = Some q \<and> invar q \<and> val q = val a * val b div val c"
  using quot_val[OF mul_invar[OF assms(1,2)] assms(3,4)] mul_val[OF assms(1,2)] assms(5) by simp

lemma scale_u64:
  assumes "invar a" "u \<noteq> 0" "val a * unat w < M"
  shows "\<exists>q. quot (mul a (of_u64 w)) (of_u64 u) = Some q \<and> invar q \<and> val q = val a * unat w div unat u"
  using scale_exact[OF assms(1) u64_invar u64_invar, of u w] assms(2,3)
  by (simp add: u64_val unat_eq_zero)

text \<open>The identity behind \<open>GetBlockProof\<close>: \<open>~t / (t + 1) + 1\<close> is \<open>M / (t + 1)\<close>.\<close>

lemma inverse_plus_one:
  assumes "invar t" "val t + 1 < M"
  shows "\<exists>q. quot (compl t) (add t (of_u64 1)) = Some q \<and> invar q \<and>
    val q + 1 = M div (val t + 1)"
proof -
  have t1: "val (add t (of_u64 1)) = val t + 1"
    using assms by (simp add: add_val u64_invar u64_val)
  obtain q where q: "quot (compl t) (add t (of_u64 1)) = Some q" "invar q"
    "val q = (M - 1 - val t) div (val t + 1)"
    using quot_val[of "compl t" "add t (of_u64 1)"] assms(1) t1
    by (auto simp: compl_invar add_invar u64_invar compl_val)
  have "M = (M - 1 - val t) + (val t + 1)" using assms(2) by simp
  then have "M div (val t + 1) = (M - 1 - val t) div (val t + 1) + 1"
    by (metis add_gr_0 div_add_self2 less_numeral_extra(1) less_not_refl3)
  with q show ?thesis by auto
qed

end

lemma length_bu_not [simp]: "length (bu_not a) = length a"
  by (simp add: bu_not_def)

lemma val_bu_not: "val_le (bu_not a) = 2 ^ (32 * length a) - 1 - val_le a"
  by (simp add: bu_not_def val_map_NOT)

interpretation arith256: modular_uint val_le "\<lambda>x. length x = 8" "2 ^ 256"
  base_uint_u64 bu_add bu_mul bu_div bu_not bu_less
proof unfold_locales
  fix a b :: base_uint
  assume a: "length a = 8" and b: "length b = 8"
  show "val_le a < 2 ^ 256" using val_le_less[of a] a by simp
  show "val_le (bu_add a b) = (val_le a + val_le b) mod 2 ^ 256" using val_bu_add[of a b] a b by simp
  show "val_le (bu_mul a b) = (val_le a * val_le b) mod 2 ^ 256" using val_bu_mul[of b a] a b by simp
  show "val_le (bu_not a) = 2 ^ 256 - 1 - val_le a" using val_bu_not[of a] a by simp
  show "val_le b \<noteq> 0 \<Longrightarrow> \<exists>q. bu_div a b = Some q \<and> length q = 8 \<and> val_le q = val_le a div val_le b"
    using bu_div_correct[of a b] a b by simp
qed (simp_all add: val_base_uint_u64 bu_div_zero bu_less_iff)

lemma bu_eq_iff_val: "length a = 8 \<Longrightarrow> length b = 8 \<Longrightarrow> a = b \<longleftrightarrow> val_le a = val_le b"
  using val_le_inject[of a b] by auto

lemma EqualTo_val:
  assumes "length a = 8"
  shows "EqualTo a b \<longleftrightarrow> val_le a = unat b"
proof -
  obtain x y ys where a: "a = x # y # ys" "length ys = 6"
    using assms by (auto simp: numeral_eq_Suc length_Suc_conv)
  have hi: "(ucast y :: u64) = drop_bit 32 b \<longleftrightarrow> unat y = unat b div 2 ^ 32"
    by (simp only: word_unat_eq_iff unat_ucast_32_64 unat_high_limb)
  have "unat (b AND 0xffffffff) = unat b mod 2 ^ 32"
  proof -
    have "b AND 0xffffffff = take_bit 32 b" by (simp add: take_bit_eq_mask mask_eq_exp_minus_1)
    then show ?thesis by (simp add: take_bit_eq_mod unat_mod)
  qed
  then have lo: "(ucast x :: u64) = b AND 0xffffffff \<longleftrightarrow> unat x = unat b mod 2 ^ 32"
    by (simp only: word_unat_eq_iff unat_ucast_32_64)
  have v: "val_le a = unat x + 2 ^ 32 * unat y + 2 ^ 64 * val_le ys" by (simp add: a)
  have xy: "unat x + 2 ^ 32 * unat y < 2 ^ 64" using unat_u32_less[of x] unat_u32_less[of y] by simp
  have "EqualTo a b \<longleftrightarrow> val_le ys = 0 \<and> unat y = unat b div 2 ^ 32 \<and> unat x = unat b mod 2 ^ 32"
    unfolding EqualTo_def a using hi lo
    by (auto simp: val_le_eq_0_iff list_ex_iff)
  also have "\<dots> \<longleftrightarrow> val_le a = unat b"
  proof
    assume "val_le ys = 0 \<and> unat y = unat b div 2 ^ 32 \<and> unat x = unat b mod 2 ^ 32"
    then show "val_le a = unat b" using v by (simp add: mod_mult_div_eq)
  next
    assume eq: "val_le a = unat b"
    have z: "val_le ys = 0"
    proof (rule ccontr)
      assume "val_le ys \<noteq> 0"
      then show False using eq v unat_u64_less[of b] by simp
    qed
    then have "unat b = unat x + 2 ^ 32 * unat y" using eq v by simp
    then show "val_le ys = 0 \<and> unat y = unat b div 2 ^ 32 \<and> unat x = unat b mod 2 ^ 32"
      using z unat_u32_less[of x] by simp
  qed
  finally show ?thesis .
qed

end
