(* ===== verification/Chain_Index.thy ===== *)
theory Chain_Index
  imports Arith_Uint256
begin

text \<open>
  The block tree: \<open>src/src/chain.h\<close>, \<open>src/src/chain.cpp\<close>, the header of \<open>src/src/primitives/block.h\<close>
  and \<open>AddToBlockIndex\<close> of \<open>src/src/node/blockstorage.cpp\<close>.

  \<open>BlockManager::m_block_index\<close> is a node-based hash map from block hashes to \<open>CBlockIndex\<close> objects, and
  every \<open>CBlockIndex*\<close> of the code points at a value of that map.  A pointer is therefore modelled
  by the key of the object it points to, a null pointer by \<open>None\<close>, and the heap by the map
  itself; two pointers are equal iff their keys are.  A dereference of a null or dangling
  pointer and a failed \<open>assert\<close> are the result \<open>None\<close>, and a loop is a
  \<open>partial_function\<close>, so that every theorem that a function returns \<open>Some\<close> also says that it
  terminates.
\<close>

section \<open>Model\<close>

type_synonym uint256 = bytes

definition uint256_0 :: uint256 where
  "uint256_0 = replicate 32 0"

record CBlockHeader =
  h_nVersion :: int
  h_hashPrevBlock :: uint256
  h_hashMerkleRoot :: uint256
  h_nTime :: u32
  h_nBits :: u32
  h_nNonce :: u32

record CBlockIndex =
  phashBlock :: "uint256 option"
  pprev :: "uint256 option"
  pskip :: "uint256 option"
  nHeight :: nat
  nFile :: int
  nDataPos :: u32
  nUndoPos :: u32
  nChainWork :: base_uint
  nTx :: u32
  m_chain_tx_count :: u64
  nStatus :: u32
  nVersion :: int
  hashMerkleRoot :: uint256
  nTime :: u32
  nBits :: u32
  nNonce :: u32
  nSequenceId :: int
  nTimeMax :: u32

type_synonym BlockMap = "uint256 \<rightharpoonup> CBlockIndex"

definition MAX_FUTURE_BLOCK_TIME :: int where
  "MAX_FUTURE_BLOCK_TIME = 2 * 60 * 60"

definition SEQ_ID_INIT_FROM_DISK :: int where
  "SEQ_ID_INIT_FROM_DISK = 1"

definition BLOCK_VALID_TREE :: u32 where
  "BLOCK_VALID_TREE = 2"

definition BLOCK_VALID_MASK :: u32 where
  "BLOCK_VALID_MASK = 1 OR 2 OR 3 OR 4 OR 5"

definition BLOCK_FAILED_MASK :: u32 where
  "BLOCK_FAILED_MASK = 32 OR 64"

text \<open>The constructor \<open>CBlockIndex(const CBlockHeader&)\<close>: default members, then the header fields.\<close>

definition CBlockIndex_of_header :: "CBlockHeader \<Rightarrow> CBlockIndex" where
  "CBlockIndex_of_header block =
     \<lparr>phashBlock = None, pprev = None, pskip = None, nHeight = 0, nFile = 0, nDataPos = 0,
      nUndoPos = 0, nChainWork = base_uint_0, nTx = 0, m_chain_tx_count = 0, nStatus = 0,
      nVersion = h_nVersion block, hashMerkleRoot = h_hashMerkleRoot block, nTime = h_nTime block,
      nBits = h_nBits block, nNonce = h_nNonce block, nSequenceId = SEQ_ID_INIT_FROM_DISK,
      nTimeMax = 0\<rparr>"

definition GetBlockHash :: "BlockMap \<Rightarrow> uint256 \<Rightarrow> uint256 option" where
  "GetBlockHash M p = do { b \<leftarrow> M p; phashBlock b }"

definition GetBlockHeader :: "BlockMap \<Rightarrow> CBlockIndex \<Rightarrow> CBlockHeader option" where
  "GetBlockHeader M b =
     do { hp \<leftarrow> (case pprev b of None \<Rightarrow> Some uint256_0 | Some p \<Rightarrow> GetBlockHash M p);
          Some \<lparr>h_nVersion = nVersion b, h_hashPrevBlock = hp, h_hashMerkleRoot = hashMerkleRoot b,
                h_nTime = nTime b, h_nBits = nBits b, h_nNonce = nNonce b\<rparr> }"

definition GetBlockTime :: "CBlockIndex \<Rightarrow> int" where
  "GetBlockTime b = uint (nTime b)"

definition GetBlockTimeMax :: "CBlockIndex \<Rightarrow> int" where
  "GetBlockTimeMax b = uint (nTimeMax b)"

definition nMedianTimeSpan :: nat where
  "nMedianTimeSpan = 11"

text \<open>The times of at most \<open>n\<close> blocks, walking back from \<open>p\<close>.\<close>

fun median_times :: "BlockMap \<Rightarrow> nat \<Rightarrow> uint256 option \<Rightarrow> int list option" where
  "median_times M 0 p = Some []"
| "median_times M (Suc n) None = Some []"
| "median_times M (Suc n) (Some p) =
     do { b \<leftarrow> M p; ts \<leftarrow> median_times M n (pprev b); Some (GetBlockTime b # ts) }"

definition GetMedianTimePast :: "BlockMap \<Rightarrow> uint256 \<Rightarrow> int option" where
  "GetMedianTimePast M p =
     do { ts \<leftarrow> median_times M nMedianTimeSpan (Some p); Some (sort ts ! (length ts div 2)) }"

definition IsValid :: "u32 \<Rightarrow> CBlockIndex \<Rightarrow> bool option" where
  "IsValid nUpTo b =
     (if nUpTo AND NOT BLOCK_VALID_MASK \<noteq> 0 then None
      else if nStatus b AND BLOCK_FAILED_MASK \<noteq> 0 then Some False
      else Some (nStatus b AND BLOCK_VALID_MASK \<ge> nUpTo))"

definition RaiseValidity :: "u32 \<Rightarrow> CBlockIndex \<Rightarrow> (bool \<times> CBlockIndex) option" where
  "RaiseValidity nUpTo b =
     (if nUpTo AND NOT BLOCK_VALID_MASK \<noteq> 0 then None
      else if nStatus b AND BLOCK_FAILED_MASK \<noteq> 0 then Some (False, b)
      else if nStatus b AND BLOCK_VALID_MASK < nUpTo
      then Some (True, b\<lparr>nStatus := (nStatus b AND NOT BLOCK_VALID_MASK) OR nUpTo\<rparr>)
      else Some (False, b))"

subsection \<open>Skip pointers\<close>

definition InvertLowestOne :: "nat \<Rightarrow> nat" where
  "InvertLowestOne n = n AND (n - 1)"

definition GetSkipHeight :: "nat \<Rightarrow> nat" where
  "GetSkipHeight height =
     (if height < 2 then 0
      else if odd height then InvertLowestOne (InvertLowestOne (height - 1)) + 1
      else InvertLowestOne height)"

lemma InvertLowestOne_le: "InvertLowestOne n \<le> n - 1"
proof -
  have "int (n AND (n - 1)) \<le> int (n - 1)"
    by (simp only: of_nat_and_eq AND_upper2 of_nat_0_le_iff)
  then show ?thesis by (simp add: InvertLowestOne_def)
qed

lemma GetSkipHeight_less: "0 < h \<Longrightarrow> GetSkipHeight h < h"
  using InvertLowestOne_le[of h] InvertLowestOne_le[of "h - 1"]
    InvertLowestOne_le[of "InvertLowestOne (h - 1)"]
  by (auto simp: GetSkipHeight_def)

text \<open>
  The loop of \<open>CBlockIndex::GetAncestor\<close>: \<open>walk\<close> is \<open>pindexWalk\<close>, \<open>hw\<close> is \<open>heightWalk\<close>.
\<close>

function ancestor_loop :: "BlockMap \<Rightarrow> uint256 \<Rightarrow> nat \<Rightarrow> nat \<Rightarrow> uint256 option" where
  "ancestor_loop M walk hw height =
     (if hw > height then
        let heightSkip = GetSkipHeight hw; heightSkipPrev = GetSkipHeight (hw - 1) in
        do { b \<leftarrow> M walk;
             if pskip b \<noteq> None \<and>
                (heightSkip = height \<or>
                 (heightSkip > height \<and>
                  \<not> (int heightSkipPrev < int heightSkip - 2 \<and> heightSkipPrev \<ge> height)))
             then ancestor_loop M (the (pskip b)) heightSkip height
             else do { q \<leftarrow> pprev b; ancestor_loop M q (hw - 1) height } }
      else Some walk)"
  by pat_completeness auto
termination
  by (relation "measure (\<lambda>(M, walk, hw, height). hw)") (auto simp: GetSkipHeight_less)

declare ancestor_loop.simps [simp del]

definition GetAncestor :: "BlockMap \<Rightarrow> uint256 \<Rightarrow> int \<Rightarrow> uint256 option option" where
  "GetAncestor M p height =
     do { b \<leftarrow> M p;
          if height > int (nHeight b) \<or> height < 0 then Some None
          else map_option Some (ancestor_loop M p (nHeight b) (nat height)) }"

text \<open>\<open>BuildSkip\<close> on the object \<open>b\<close>, whose own entry need not be in the heap yet.\<close>

definition BuildSkip :: "BlockMap \<Rightarrow> CBlockIndex \<Rightarrow> CBlockIndex option" where
  "BuildSkip M b =
     (case pprev b of None \<Rightarrow> Some b
      | Some q \<Rightarrow> do { a \<leftarrow> GetAncestor M q (int (GetSkipHeight (nHeight b))); Some (b\<lparr>pskip := a\<rparr>) })"

subsection \<open>Work\<close>

definition GetBlockProof :: "CBlockIndex \<Rightarrow> base_uint option" where
  "GetBlockProof block =
     (let (bnTarget, fNegative, fOverflow) = SetCompact (nBits block) in
      if fNegative \<or> fOverflow \<or> EqualTo bnTarget 0 then Some (base_uint_u64 0)
      else do { q \<leftarrow> bu_div (bu_not bnTarget) (bu_add bnTarget (base_uint_u64 1));
                Some (bu_add q (base_uint_u64 1)) })"

definition GetBlockProofEquivalentTime ::
    "CBlockIndex \<Rightarrow> CBlockIndex \<Rightarrow> CBlockIndex \<Rightarrow> int \<Rightarrow> int option" where
  "GetBlockProofEquivalentTime to from tip nPowTargetSpacing =
     (let (r, sign) =
        (if bu_less (nChainWork from) (nChainWork to)
         then (bu_sub (nChainWork to) (nChainWork from), 1)
         else (bu_sub (nChainWork from) (nChainWork to), -1)) in
      do { proof \<leftarrow> GetBlockProof tip;
           r \<leftarrow> bu_div (bu_mul r (base_uint_u64 (word_of_int nPowTargetSpacing))) proof;
           if bits r > 63 then Some (sign * (2 ^ 63 - 1))
           else Some (sign * uint (GetLow64 r)) })"

subsection \<open>Last common ancestor\<close>

partial_function (option) lca_skip_loop ::
    "BlockMap \<Rightarrow> uint256 \<Rightarrow> uint256 \<Rightarrow> (uint256 \<times> uint256) option" where
  "lca_skip_loop M pa pb =
     do { a \<leftarrow> M pa; b \<leftarrow> M pb;
          if pskip a \<noteq> pskip b
          then do { x \<leftarrow> pskip a; y \<leftarrow> pskip b; lca_skip_loop M x y }
          else Some (pa, pb) }"

partial_function (option) lca_loop ::
    "BlockMap \<Rightarrow> uint256 \<Rightarrow> uint256 \<Rightarrow> uint256 option" where
  "lca_loop M pa pb =
     (if pa \<noteq> pb
      then do { (pa', pb') \<leftarrow> lca_skip_loop M pa pb;
                a \<leftarrow> M pa'; b \<leftarrow> M pb';
                x \<leftarrow> pprev a; y \<leftarrow> pprev b;
                lca_loop M x y }
      else Some pa)"

definition LastCommonAncestor :: "BlockMap \<Rightarrow> uint256 \<Rightarrow> uint256 \<Rightarrow> uint256 option" where
  "LastCommonAncestor M pa pb =
     do { a \<leftarrow> M pa; b \<leftarrow> M pb;
          if nHeight a > nHeight b
          then do { x \<leftarrow> GetAncestor M pa (int (nHeight b)); pa' \<leftarrow> x; lca_loop M pa' pb }
          else if nHeight b > nHeight a
          then do { y \<leftarrow> GetAncestor M pb (int (nHeight a)); pb' \<leftarrow> y; lca_loop M pa pb' }
          else lca_loop M pa pb }"

subsection \<open>The active chain\<close>

record CChain =
  vChain :: "uint256 option list"

definition chain_Genesis :: "CChain \<Rightarrow> uint256 option" where
  "chain_Genesis c = (if length (vChain c) > 0 then vChain c ! 0 else None)"

definition chain_Tip :: "CChain \<Rightarrow> uint256 option" where
  "chain_Tip c = (if length (vChain c) > 0 then vChain c ! (length (vChain c) - 1) else None)"

definition chain_at :: "CChain \<Rightarrow> int \<Rightarrow> uint256 option" where
  "chain_at c h = (if h < 0 \<or> h \<ge> int (length (vChain c)) then None else vChain c ! nat h)"

definition chain_Height :: "CChain \<Rightarrow> int" where
  "chain_Height c = int (length (vChain c)) - 1"

definition chain_Contains :: "BlockMap \<Rightarrow> CChain \<Rightarrow> uint256 \<Rightarrow> bool option" where
  "chain_Contains M c p = do { b \<leftarrow> M p; Some (chain_at c (int (nHeight b)) = Some p) }"

definition chain_Next :: "BlockMap \<Rightarrow> CChain \<Rightarrow> uint256 \<Rightarrow> uint256 option option" where
  "chain_Next M c p =
     do { b \<leftarrow> M p; yes \<leftarrow> chain_Contains M c p;
          Some (if yes then chain_at c (int (nHeight b) + 1) else None) }"

definition resize_vChain :: "nat \<Rightarrow> uint256 option list \<Rightarrow> uint256 option list" where
  "resize_vChain n v = take n v @ replicate (n - length v) None"

text \<open>An index out of range of \<open>vChain\<close> is undefined behaviour in the source, and \<open>None\<close> here.\<close>

partial_function (option) set_tip_loop ::
    "BlockMap \<Rightarrow> uint256 option \<Rightarrow> uint256 option list \<Rightarrow> uint256 option list option" where
  "set_tip_loop M pindex v =
     (case pindex of None \<Rightarrow> Some v
      | Some p \<Rightarrow>
          do { b \<leftarrow> M p;
               if nHeight b \<ge> length v then None
               else if v ! nHeight b \<noteq> Some p
               then set_tip_loop M (pprev b) (v[nHeight b := Some p])
               else Some v })"

definition chain_SetTip :: "BlockMap \<Rightarrow> uint256 \<Rightarrow> CChain \<Rightarrow> CChain option" where
  "chain_SetTip M p c =
     do { b \<leftarrow> M p;
          v \<leftarrow> set_tip_loop M (Some p) (resize_vChain (nHeight b + 1) (vChain c));
          Some (c\<lparr>vChain := v\<rparr>) }"

partial_function (option) find_fork_loop ::
    "BlockMap \<Rightarrow> CChain \<Rightarrow> uint256 option \<Rightarrow> uint256 option option" where
  "find_fork_loop M c pindex =
     (case pindex of None \<Rightarrow> Some None
      | Some p \<Rightarrow>
          do { yes \<leftarrow> chain_Contains M c p;
               if yes then Some (Some p)
               else do { b \<leftarrow> M p; find_fork_loop M c (pprev b) } })"

definition chain_FindFork :: "BlockMap \<Rightarrow> CChain \<Rightarrow> uint256 option \<Rightarrow> uint256 option option" where
  "chain_FindFork M c pindex =
     (case pindex of None \<Rightarrow> Some None
      | Some p \<Rightarrow>
          do { b \<leftarrow> M p;
               q \<leftarrow> (if int (nHeight b) > chain_Height c then GetAncestor M p (chain_Height c)
                    else Some (Some p));
               find_fork_loop M c q })"

text \<open>
  \<open>std::lower_bound\<close> over \<open>vChain\<close>: bisection for the first element that is not below the
  searched pair; \<open>first\<close> and \<open>count\<close> are the range still in question.
\<close>

function earliest_loop ::
    "BlockMap \<Rightarrow> uint256 option list \<Rightarrow> int \<Rightarrow> int \<Rightarrow> nat \<Rightarrow> nat \<Rightarrow> nat option" where
  "earliest_loop M v t height first count =
     (if count = 0 then Some first
      else let step = count div 2; it = first + step in
        do { p \<leftarrow> v ! it; b \<leftarrow> M p;
             if GetBlockTimeMax b < t \<or> int (nHeight b) < height
             then earliest_loop M v t height (it + 1) (count - (step + 1))
             else earliest_loop M v t height first step })"
  by pat_completeness auto
termination
  by (relation "measure (\<lambda>(M, v, t, height, first, count). count)") auto

declare earliest_loop.simps [simp del]

definition chain_FindEarliestAtLeast ::
    "BlockMap \<Rightarrow> CChain \<Rightarrow> int \<Rightarrow> int \<Rightarrow> uint256 option option" where
  "chain_FindEarliestAtLeast M c t height =
     do { lower \<leftarrow> earliest_loop M (vChain c) t height 0 (length (vChain c));
          Some (if lower = length (vChain c) then None else vChain c ! lower) }"

subsection \<open>Block locators\<close>

partial_function (option) locator_loop ::
    "BlockMap \<Rightarrow> uint256 option \<Rightarrow> int \<Rightarrow> uint256 list \<Rightarrow> uint256 list option" where
  "locator_loop M index step have_list =
     (case index of None \<Rightarrow> Some have_list
      | Some p \<Rightarrow>
          do { b \<leftarrow> M p; h \<leftarrow> GetBlockHash M p;
               let have_list' = have_list @ [h] in
               if nHeight b = 0 then Some have_list'
               else do { q \<leftarrow> GetAncestor M p (max (int (nHeight b) - step) 0);
                         locator_loop M q (if length have_list' > 10 then step * 2 else step) have_list' } })"

definition LocatorEntries :: "BlockMap \<Rightarrow> uint256 option \<Rightarrow> uint256 list option" where
  "LocatorEntries M index = (if index = None then Some [] else locator_loop M index 1 [])"

definition GetLocator :: "BlockMap \<Rightarrow> uint256 option \<Rightarrow> uint256 list option" where
  "GetLocator M index = LocatorEntries M index"

subsection \<open>The block manager\<close>

record BlockManager =
  m_block_index :: BlockMap
  m_dirty_blockindex :: "uint256 set"

definition LookupBlockIndex :: "BlockManager \<Rightarrow> uint256 \<Rightarrow> uint256 option" where
  "LookupBlockIndex bm hash = (case m_block_index bm hash of None \<Rightarrow> None | Some _ \<Rightarrow> Some hash)"

text \<open>
  The object \<open>AddToBlockIndex\<close> builds for a new header, \<open>hash\<close> being its key.  \<open>M\<close> is the index
  with the freshly constructed entry already in place, as after \<open>try_emplace\<close>.
\<close>

definition new_block_index :: "BlockMap \<Rightarrow> uint256 \<Rightarrow> CBlockHeader \<Rightarrow> CBlockIndex option" where
  "new_block_index M hash block =
     do { let b0 = (CBlockIndex_of_header block)
                     \<lparr>nSequenceId := SEQ_ID_INIT_FROM_DISK, phashBlock := Some hash\<rparr>;
          b1 \<leftarrow> (case M (h_hashPrevBlock block) of None \<Rightarrow> Some b0
                 | Some prev \<Rightarrow>
                     BuildSkip M (b0\<lparr>pprev := Some (h_hashPrevBlock block), nHeight := nHeight prev + 1\<rparr>));
          prev \<leftarrow> (case pprev b1 of None \<Rightarrow> Some None | Some p \<Rightarrow> map_option Some (M p));
          let b2 = b1\<lparr>nTimeMax := (case prev of None \<Rightarrow> nTime b1
                                    | Some pr \<Rightarrow> max (nTimeMax pr) (nTime b1))\<rparr>;
          w \<leftarrow> GetBlockProof b2;
          let b3 = b2\<lparr>nChainWork := bu_add (case prev of None \<Rightarrow> base_uint_u64 0
                                             | Some pr \<Rightarrow> nChainWork pr) w\<rparr>;
          (_, b4) \<leftarrow> RaiseValidity BLOCK_VALID_TREE b3;
          Some b4 }"

definition AddToBlockIndex ::
    "(CBlockHeader \<Rightarrow> uint256) \<Rightarrow> BlockManager \<Rightarrow> CBlockHeader \<Rightarrow> uint256 option \<Rightarrow>
     (uint256 \<times> BlockManager \<times> uint256 option) option" where
  "AddToBlockIndex GetHash bm block best_header =
     (let hash = GetHash block; M = m_block_index bm in
      if M hash \<noteq> None then Some (hash, bm, best_header)
      else do { b \<leftarrow> new_block_index (M(hash \<mapsto> CBlockIndex_of_header block)) hash block;
                let M' = M(hash \<mapsto> b);
                best_header' \<leftarrow> (case best_header of None \<Rightarrow> Some (Some hash)
                   | Some bh \<Rightarrow> do { x \<leftarrow> M' bh;
                        Some (if bu_less (nChainWork x) (nChainWork b) then Some hash else Some bh) });
                Some (hash, bm\<lparr>m_block_index := M',
                               m_dirty_blockindex := insert hash (m_dirty_blockindex bm)\<rparr>, best_header') })"

text \<open>
  The order of the candidate tips.  \<open>addr\<close> is the address of an object, which the source falls
  back on and which the allocator determines.
\<close>

definition CBlockIndexWorkComparator ::
    "(uint256 \<Rightarrow> nat) \<Rightarrow> BlockMap \<Rightarrow> uint256 \<Rightarrow> uint256 \<Rightarrow> bool option" where
  "CBlockIndexWorkComparator addr M pa pb =
     do { a \<leftarrow> M pa; b \<leftarrow> M pb;
          Some (if bu_less (nChainWork b) (nChainWork a) then False
                else if bu_less (nChainWork a) (nChainWork b) then True
                else if nSequenceId a < nSequenceId b then False
                else if nSequenceId a > nSequenceId b then True
                else if addr pa < addr pb then False
                else if addr pa > addr pb then True
                else False) }"

section \<open>Well-formed block trees\<close>

text \<open>The reference notion: the block \<open>n\<close> steps back along \<open>pprev\<close>.\<close>

fun walk_back :: "BlockMap \<Rightarrow> nat \<Rightarrow> uint256 \<Rightarrow> uint256 option" where
  "walk_back M 0 p = Some p"
| "walk_back M (Suc n) p = do { b \<leftarrow> M p; q \<leftarrow> pprev b; walk_back M n q }"

text \<open>
  What every entry of the index satisfies: it knows its own hash, a root has height 0 and no skip
  pointer, and any other block is one above its predecessor and skips back to height
  \<open>GetSkipHeight\<close> along the \<open>pprev\<close> chain.
\<close>

definition wf_entry :: "BlockMap \<Rightarrow> uint256 \<Rightarrow> CBlockIndex \<Rightarrow> bool" where
  "wf_entry M p b \<longleftrightarrow> phashBlock b = Some p \<and> length (nChainWork b) = 8 \<and>
     (case pprev b of
        None \<Rightarrow> nHeight b = 0 \<and> pskip b = None
      | Some q \<Rightarrow> (\<exists>c. M q = Some c \<and> nHeight b = nHeight c + 1) \<and>
          pskip b = walk_back M (nHeight b - GetSkipHeight (nHeight b)) p)"

definition wf_index :: "BlockMap \<Rightarrow> bool" where
  "wf_index M \<longleftrightarrow> (\<forall>p b. M p = Some b \<longrightarrow> wf_entry M p b)"

lemma wf_indexD: "wf_index M \<Longrightarrow> M p = Some b \<Longrightarrow> wf_entry M p b"
  by (simp add: wf_index_def)

lemma wf_pprev:
  assumes "wf_index M" "M p = Some b" "0 < nHeight b"
  obtains q c where "pprev b = Some q" "M q = Some c" "nHeight b = nHeight c + 1"
  using wf_indexD[OF assms(1,2)] assms(3) by (auto simp: wf_entry_def split: option.splits)

lemma wf_hash [simp]: "wf_index M \<Longrightarrow> M p = Some b \<Longrightarrow> phashBlock b = Some p"
  using wf_indexD[of M p b] by (simp add: wf_entry_def)

lemma wf_work_len [simp]: "wf_index M \<Longrightarrow> M p = Some b \<Longrightarrow> length (nChainWork b) = 8"
  using wf_indexD[of M p b] by (simp add: wf_entry_def)

lemma walk_back_add: "walk_back M (m + n) p = do { q \<leftarrow> walk_back M m p; walk_back M n q }"
  by (induction m arbitrary: p) (auto simp: bind_eq_Some_conv split: bind_splits)

lemma walk_back_Suc_right: "walk_back M (Suc n) p = do { q \<leftarrow> walk_back M n p; b \<leftarrow> M q; pprev b }"
  using walk_back_add[of M n 1 p] by (simp split: bind_splits)

lemma walk_back_defined:
  assumes "wf_index M" "M p = Some b" "n \<le> nHeight b"
  shows "\<exists>q c. walk_back M n p = Some q \<and> M q = Some c \<and> nHeight c = nHeight b - n"
  using assms(2,3)
proof (induction n arbitrary: p b)
  case (Suc n)
  obtain q c where q: "pprev b = Some q" "M q = Some c" "nHeight b = nHeight c + 1"
    using wf_pprev[OF assms(1) Suc.prems(1)] Suc.prems(2) by auto
  then show ?case using Suc.IH[OF q(2)] Suc.prems by simp
qed simp

lemma walk_back_SomeD:
  assumes "wf_index M" "M p = Some b" "walk_back M n p = Some q"
  shows "\<exists>c. M q = Some c \<and> nHeight b = nHeight c + n"
  using assms(2,3)
proof (induction n arbitrary: p b)
  case (Suc n)
  then obtain r where r: "pprev b = Some r" "walk_back M n r = Some q" by (auto simp: bind_eq_Some_conv)
  then obtain c where "M r = Some c" "nHeight b = nHeight c + 1"
    using wf_indexD[OF assms(1) Suc.prems(1)] by (auto simp: wf_entry_def)
  then show ?case using Suc.IH[OF _ r(2)] by fastforce
qed simp

lemma wf_pskip:
  assumes "wf_index M" "M p = Some b" "0 < nHeight b"
  obtains q c where "pskip b = Some q" "M q = Some c" "nHeight c = GetSkipHeight (nHeight b)"
    "walk_back M (nHeight b - GetSkipHeight (nHeight b)) p = Some q"
proof -
  obtain r where "pprev b = Some r" using wf_pprev[OF assms] by blast
  then have sk: "pskip b = walk_back M (nHeight b - GetSkipHeight (nHeight b)) p"
    using wf_indexD[OF assms(1,2)] by (simp add: wf_entry_def)
  have "GetSkipHeight (nHeight b) < nHeight b" using assms(3) by (rule GetSkipHeight_less)
  with walk_back_defined[OF assms(1,2), of "nHeight b - GetSkipHeight (nHeight b)"] sk
  show thesis by (auto intro: that)
qed

lemma walk_back_map_le:
  assumes "M \<subseteq>\<^sub>m N" "walk_back M n p = Some q" "n > 0 \<or> p \<in> dom M"
  shows "walk_back N n p = Some q"
  using assms(2,3)
proof (induction n arbitrary: p)
  case (Suc n)
  then obtain b r where b: "M p = Some b" "pprev b = Some r" "walk_back M n r = Some q"
    by (auto simp: bind_eq_Some_conv)
  moreover have "N p = Some b" using assms(1) b(1) by (auto simp: map_le_def dom_def)
  moreover have "walk_back N n r = Some q"
    using Suc.IH[OF b(3)] b(3) by (cases n) auto
  ultimately show ?case by simp
qed simp

section \<open>Ancestors\<close>

lemma ancestor_loop_correct:
  assumes "wf_index M" "M \<subseteq>\<^sub>m N" "M p = Some b" "h \<le> nHeight b"
  shows "ancestor_loop N p (nHeight b) h = walk_back M (nHeight b - h) p"
  using assms(3,4)
proof (induction "nHeight b" arbitrary: p b rule: less_induct)
  case less
  have N: "N p = Some b" using assms(2) less.prems(1) by (auto simp: map_le_def dom_def)
  show ?case
  proof (cases "nHeight b > h")
    case False
    then show ?thesis using less.prems by (simp add: ancestor_loop.simps[of N])
  next
    case True
    let ?s = "GetSkipHeight (nHeight b)"
    obtain q c where q: "pprev b = Some q" "M q = Some c" "nHeight b = nHeight c + 1"
      using wf_pprev[OF assms(1) less.prems(1)] True by auto
    obtain k d where k: "pskip b = Some k" "M k = Some d" "nHeight d = ?s"
      "walk_back M (nHeight b - ?s) p = Some k"
      using wf_pskip[OF assms(1) less.prems(1)] True by auto
    have lt: "?s < nHeight b" using True by (simp add: GetSkipHeight_less)
    have via_skip: "ancestor_loop N k ?s h = walk_back M (nHeight b - h) p" if "h \<le> ?s"
    proof -
      have "nHeight b - h = (nHeight b - ?s) + (?s - h)" using that lt by simp
      then show ?thesis using less.hyps[OF _ k(2)] k that lt walk_back_add[of M "nHeight b - ?s" "?s - h" p]
        by simp
    qed
    have "nHeight b - h = Suc (nHeight c - h)" using q(3) True by simp
    then have via_prev: "ancestor_loop N q (nHeight b - 1) h = walk_back M (nHeight b - h) p"
      using less.hyps[OF _ q(2)] q True less.prems(1) by simp
    show ?thesis
      using True via_skip via_prev N q(1) k(1) by (subst ancestor_loop.simps) (auto simp: Let_def)
  qed
qed

lemma GetAncestor_walk_back:
  assumes "wf_index M" "M p = Some b" "0 \<le> h" "h \<le> int (nHeight b)"
  shows "\<exists>q c. GetAncestor M p h = Some (Some q) \<and> walk_back M (nHeight b - nat h) p = Some q \<and>
    M q = Some c \<and> int (nHeight c) = h"
proof -
  have h: "nat h \<le> nHeight b" using assms(3,4) by simp
  obtain q c where q: "walk_back M (nHeight b - nat h) p = Some q" "M q = Some c"
    "nHeight c = nHeight b - (nHeight b - nat h)"
    using walk_back_defined[OF assms(1,2), of "nHeight b - nat h"] by auto
  have "ancestor_loop M p (nHeight b) (nat h) = Some q"
    using ancestor_loop_correct[OF assms(1) map_le_refl assms(2) h] q(1) by simp
  then show ?thesis using assms q h by (simp add: GetAncestor_def)
qed

lemma GetAncestor_null:
  assumes "M p = Some b" "h < 0 \<or> int (nHeight b) < h"
  shows "GetAncestor M p h = Some None"
  using assms by (auto simp: GetAncestor_def)

section \<open>Proof of work of a block\<close>

definition compact_valid :: "u32 \<Rightarrow> bool" where
  "compact_valid c \<longleftrightarrow> compact_val c \<noteq> 0 \<and> compact_val c < 2 ^ 256 \<and> even (unat c div 2 ^ 23)"

lemma SetCompact_checks:
  "(fst (snd (SetCompact c)) \<or> snd (snd (SetCompact c)) \<or> EqualTo (fst (SetCompact c)) 0) \<longleftrightarrow>
   \<not> compact_valid c"
proof (cases "2 ^ 256 \<le> compact_val c")
  case True
  then show ?thesis by (simp add: SetCompact_flags compact_valid_def)
next
  case False
  then have "EqualTo (fst (SetCompact c)) 0 \<longleftrightarrow> compact_val c = 0"
    by (simp add: EqualTo_val val_SetCompact)
  then show ?thesis using False by (auto simp: SetCompact_flags compact_valid_def)
qed

lemma compact_val_less_max:
  assumes "compact_val c < 2 ^ 256"
  shows "compact_val c + 1 < 2 ^ 256"
proof -
  have m: "unat c mod 2 ^ 23 \<le> 2 ^ 23 - 1" by (simp add: less_Suc_eq_le flip: less_Suc_eq_le)
  show ?thesis
  proof (cases "unat c div 2 ^ 24 \<le> 3")
    case True
    then show ?thesis using compact_val_small_less[OF True] by simp
  next
    case False
    then have "even (compact_val c)"
      using compact_val_large[of c] by simp
    then have "compact_val c \<noteq> 2 ^ 256 - 1" by auto
    then show ?thesis using assms by simp
  qed
qed

lemma GetBlockProof_val:
  "\<exists>w. GetBlockProof b = Some w \<and> length w = 8 \<and>
     val_le w = (if compact_valid (nBits b) then 2 ^ 256 div (compact_val (nBits b) + 1) else 0)"
proof -
  obtain t neg ov where s: "SetCompact (nBits b) = (t, neg, ov)" by (cases "SetCompact (nBits b)")
  have chk: "(neg \<or> ov \<or> EqualTo t 0) \<longleftrightarrow> \<not> compact_valid (nBits b)"
    using SetCompact_checks[of "nBits b"] s by simp
  show ?thesis
  proof (cases "compact_valid (nBits b)")
    case False
    then show ?thesis using s chk by (simp add: GetBlockProof_def val_base_uint_u64)
  next
    case True
    have t: "length t = 8" "val_le t = compact_val (nBits b)"
      using length_SetCompact[of "nBits b"] val_SetCompact[of "nBits b"] s True
      by (simp_all add: compact_valid_def)
    have lt: "compact_val (nBits b) + 1 < 2 ^ 256"
      using True compact_val_less_max by (simp add: compact_valid_def)
    obtain q where q: "bu_div (bu_not t) (bu_add t (base_uint_u64 1)) = Some q" "length q = 8"
      "val_le q + 1 = 2 ^ 256 div (compact_val (nBits b) + 1)"
      using arith256.inverse_plus_one[of t] t lt by auto
    have "compact_val (nBits b) \<noteq> 0" using True by (simp add: compact_valid_def)
    then have "(2::nat) ^ 256 div (compact_val (nBits b) + 1) < 2 ^ 256" by (intro div_less_dividend) simp_all
    then have "val_le (bu_add q (base_uint_u64 1)) = 2 ^ 256 div (compact_val (nBits b) + 1)"
      using arith256.add_val[of q "base_uint_u64 1"] q by (simp add: val_base_uint_u64)
    moreover have "GetBlockProof b = Some (bu_add q (base_uint_u64 1))"
      using s chk True q(1) by (simp add: GetBlockProof_def)
    ultimately show ?thesis using True q(2) by simp
  qed
qed

section \<open>Adding a header keeps the tree well-formed\<close>

lemma RaiseValidity_tree:
  "\<exists>r b'. RaiseValidity BLOCK_VALID_TREE b = Some (r, b') \<and> (b' = b \<or> (\<exists>s. b' = b\<lparr>nStatus := s\<rparr>))"
  by (auto simp: RaiseValidity_def BLOCK_VALID_TREE_def BLOCK_VALID_MASK_def)

lemma wf_entry_extend:
  assumes "wf_index M" "M p = Some b" "M \<subseteq>\<^sub>m N"
  shows "wf_entry N p b"
proof (cases "pprev b")
  case None
  then show ?thesis using wf_indexD[OF assms(1,2)] by (simp add: wf_entry_def)
next
  case (Some q)
  have w: "wf_entry M p b" by (rule wf_indexD[OF assms(1,2)])
  then obtain c where c: "M q = Some c" "nHeight b = nHeight c + 1" using Some by (auto simp: wf_entry_def)
  then have "N q = Some c" using assms(3) by (auto simp: map_le_def dom_def)
  moreover obtain k where "walk_back M (nHeight b - GetSkipHeight (nHeight b)) p = Some k"
    using wf_pskip[OF assms(1,2)] c(2) by (metis add_gr_0 zero_less_one)
  moreover from this have "walk_back N (nHeight b - GetSkipHeight (nHeight b)) p = Some k"
    using walk_back_map_le[OF assms(3)] assms(2) by blast
  ultimately show ?thesis using w Some c by (simp add: wf_entry_def)
qed

text \<open>The fields of the entry that \<open>AddToBlockIndex\<close> stores for a header with a known predecessor.\<close>

lemma new_block_index_linked:
  assumes wf: "wf_index M" and new: "M hash = None" and prev: "M (h_hashPrevBlock block) = Some pr"
  shows "\<exists>b k w. new_block_index (M(hash \<mapsto> CBlockIndex_of_header block)) hash block = Some b \<and>
    phashBlock b = Some hash \<and> pprev b = Some (h_hashPrevBlock block) \<and> nHeight b = nHeight pr + 1 \<and>
    pskip b = Some k \<and> walk_back M (nHeight pr - GetSkipHeight (nHeight pr + 1)) (h_hashPrevBlock block) = Some k \<and>
    nBits b = h_nBits block \<and> nTime b = h_nTime block \<and> nTimeMax b = max (nTimeMax pr) (h_nTime block) \<and>
    GetBlockProof b = Some w \<and> nChainWork b = bu_add (nChainWork pr) w \<and> length w = 8"
proof -
  let ?N = "M(hash \<mapsto> CBlockIndex_of_header block)" and ?pp = "h_hashPrevBlock block"
  have le: "M \<subseteq>\<^sub>m ?N" using new by (auto simp: map_le_def)
  have N: "?N ?pp = Some pr" using prev new by auto
  have sk: "GetSkipHeight (nHeight pr + 1) \<le> nHeight pr"
    using GetSkipHeight_less[of "nHeight pr + 1"] by simp
  obtain k where k: "walk_back M (nHeight pr - GetSkipHeight (nHeight pr + 1)) ?pp = Some k"
    using walk_back_defined[OF wf prev] diff_le_self by blast
  have anc: "GetAncestor ?N ?pp (int (GetSkipHeight (nHeight pr + 1))) = Some (Some k)"
    using ancestor_loop_correct[OF wf le prev sk] k sk N by (simp add: GetAncestor_def)
  obtain w where w: "\<And>b. nBits b = h_nBits block \<Longrightarrow> GetBlockProof b = Some w" "length w = 8"
    using GetBlockProof_val[of "CBlockIndex_of_header block"]
    by (auto simp: GetBlockProof_def CBlockIndex_of_header_def)
  define b1 where "b1 = (CBlockIndex_of_header block)\<lparr>nSequenceId := SEQ_ID_INIT_FROM_DISK,
    phashBlock := Some hash, pprev := Some ?pp, nHeight := nHeight pr + 1, pskip := Some k\<rparr>"
  define b3 where "b3 = b1\<lparr>nTimeMax := max (nTimeMax pr) (nTime b1),
    nChainWork := bu_add (nChainWork pr) w\<rparr>"
  obtain r b4 where b4: "RaiseValidity BLOCK_VALID_TREE b3 = Some (r, b4)"
    "b4 = b3 \<or> (\<exists>s. b4 = b3\<lparr>nStatus := s\<rparr>)" using RaiseValidity_tree by blast
  have "new_block_index ?N hash block = Some b4"
    using N anc b4(1) w(1) unfolding new_block_index_def BuildSkip_def b3_def b1_def
    by (simp add: CBlockIndex_of_header_def)
  moreover have "phashBlock b4 = Some hash" "pprev b4 = Some ?pp" "nHeight b4 = nHeight pr + 1"
    "pskip b4 = Some k" "nBits b4 = h_nBits block" "nTime b4 = h_nTime block"
    "nTimeMax b4 = max (nTimeMax pr) (h_nTime block)" "nChainWork b4 = bu_add (nChainWork pr) w"
    using b4(2) by (auto simp: b3_def b1_def CBlockIndex_of_header_def)
  ultimately show ?thesis using k w by auto
qed

lemma new_block_index_root:
  assumes "M (h_hashPrevBlock block) = None"
  shows "\<exists>b w. new_block_index M hash block = Some b \<and>
    phashBlock b = Some hash \<and> pprev b = None \<and> nHeight b = 0 \<and> pskip b = None \<and>
    nBits b = h_nBits block \<and> nTime b = h_nTime block \<and> nTimeMax b = h_nTime block \<and>
    GetBlockProof b = Some w \<and> nChainWork b = bu_add (base_uint_u64 0) w \<and> length w = 8"
proof -
  obtain w where w: "\<And>b. nBits b = h_nBits block \<Longrightarrow> GetBlockProof b = Some w" "length w = 8"
    using GetBlockProof_val[of "CBlockIndex_of_header block"]
    by (auto simp: GetBlockProof_def CBlockIndex_of_header_def)
  define b3 where "b3 = (CBlockIndex_of_header block)\<lparr>nSequenceId := SEQ_ID_INIT_FROM_DISK,
    phashBlock := Some hash, nTimeMax := h_nTime block, nChainWork := bu_add (base_uint_u64 0) w\<rparr>"
  obtain r b4 where b4: "RaiseValidity BLOCK_VALID_TREE b3 = Some (r, b4)"
    "b4 = b3 \<or> (\<exists>s. b4 = b3\<lparr>nStatus := s\<rparr>)" using RaiseValidity_tree by blast
  have "new_block_index M hash block = Some b4"
    using assms b4(1) w(1) unfolding new_block_index_def b3_def
    by (simp add: CBlockIndex_of_header_def)
  then show ?thesis using b4(2) w
    by (auto simp: b3_def CBlockIndex_of_header_def)
qed

text \<open>Every entry records the accumulated work and the running maximum of the block times.\<close>

definition work_entry :: "BlockMap \<Rightarrow> CBlockIndex \<Rightarrow> bool" where
  "work_entry M b \<longleftrightarrow> (\<exists>w. GetBlockProof b = Some w \<and> length w = 8 \<and>
     (case pprev b of
        None \<Rightarrow> nChainWork b = bu_add (base_uint_u64 0) w \<and> nTimeMax b = nTime b
      | Some q \<Rightarrow> (\<exists>c. M q = Some c \<and> nChainWork b = bu_add (nChainWork c) w \<and>
                       nTimeMax b = max (nTimeMax c) (nTime b))))"

definition work_index :: "BlockMap \<Rightarrow> bool" where
  "work_index M \<longleftrightarrow> (\<forall>p b. M p = Some b \<longrightarrow> work_entry M b)"

lemma work_indexD: "work_index M \<Longrightarrow> M p = Some b \<Longrightarrow> work_entry M b"
  by (simp add: work_index_def)

lemma work_entry_mono: "work_entry M b \<Longrightarrow> M \<subseteq>\<^sub>m N \<Longrightarrow> work_entry N b"
  unfolding work_entry_def by (fastforce simp: map_le_def dom_def split: option.splits)

lemma new_block_index_wf:
  assumes wf: "wf_index M" and new: "M hash = None" and ne: "h_hashPrevBlock block \<noteq> hash"
  shows "\<exists>b. new_block_index (M(hash \<mapsto> CBlockIndex_of_header block)) hash block = Some b \<and>
    wf_entry (M(hash \<mapsto> b)) hash b \<and> work_entry (M(hash \<mapsto> b)) b \<and>
    nBits b = h_nBits block \<and> nTime b = h_nTime block \<and>
    pprev b = (if M (h_hashPrevBlock block) = None then None else Some (h_hashPrevBlock block))"
proof (cases "M (h_hashPrevBlock block)")
  case None
  then have "(M(hash \<mapsto> CBlockIndex_of_header block)) (h_hashPrevBlock block) = None" using ne by simp
  from new_block_index_root[where M = "M(hash \<mapsto> CBlockIndex_of_header block)" and hash = hash, OF this] None show ?thesis
    by (auto simp: wf_entry_def work_entry_def)
next
  case (Some pr)
  let ?pp = "h_hashPrevBlock block"
  obtain b k w where b: "new_block_index (M(hash \<mapsto> CBlockIndex_of_header block)) hash block = Some b"
    "phashBlock b = Some hash" "pprev b = Some ?pp" "nHeight b = nHeight pr + 1" "pskip b = Some k"
    "walk_back M (nHeight pr - GetSkipHeight (nHeight pr + 1)) ?pp = Some k"
    "nBits b = h_nBits block" "nTime b = h_nTime block" "nTimeMax b = max (nTimeMax pr) (h_nTime block)"
    "GetBlockProof b = Some w" "nChainWork b = bu_add (nChainWork pr) w" "length w = 8"
    using new_block_index_linked[OF wf new Some] by blast
  have le: "M \<subseteq>\<^sub>m M(hash \<mapsto> b)" using new by (auto simp: map_le_def)
  have sk: "nHeight pr + 1 - GetSkipHeight (nHeight pr + 1) = Suc (nHeight pr - GetSkipHeight (nHeight pr + 1))"
    using GetSkipHeight_less[of "nHeight pr + 1"] by simp
  have "walk_back (M(hash \<mapsto> b)) (nHeight pr - GetSkipHeight (nHeight pr + 1)) ?pp = Some k"
    using walk_back_map_le[OF le b(6)] Some by blast
  then have "walk_back (M(hash \<mapsto> b)) (nHeight b - GetSkipHeight (nHeight b)) hash = pskip b"
    unfolding b(4) sk using b(3,5) by simp
  then have "wf_entry (M(hash \<mapsto> b)) hash b"
    using b(2,3,4,11,12) Some ne wf by (simp add: wf_entry_def)
  moreover have "work_entry (M(hash \<mapsto> b)) b"
    using b Some ne by (simp add: work_entry_def)
  ultimately show ?thesis using b(1,3,7,8) Some by auto
qed

lemma AddToBlockIndex_wf:
  assumes wf: "wf_index (m_block_index bm)" and work: "work_index (m_block_index bm)"
    and best: "\<And>q. best = Some q \<Longrightarrow> q \<in> dom (m_block_index bm)"
    and ne: "h_hashPrevBlock block \<noteq> GetHash block"
  shows "\<exists>bm' best'. AddToBlockIndex GetHash bm block best = Some (GetHash block, bm', best') \<and>
    wf_index (m_block_index bm') \<and> work_index (m_block_index bm') \<and>
    m_block_index bm \<subseteq>\<^sub>m m_block_index bm' \<and>
    dom (m_block_index bm') = insert (GetHash block) (dom (m_block_index bm))"
proof (cases "m_block_index bm (GetHash block)")
  case (Some b)
  then show ?thesis using wf work by (auto simp: AddToBlockIndex_def)
next
  case None
  let ?M = "m_block_index bm" and ?h = "GetHash block"
  obtain b where b: "new_block_index (?M(?h \<mapsto> CBlockIndex_of_header block)) ?h block = Some b"
    "wf_entry (?M(?h \<mapsto> b)) ?h b" "work_entry (?M(?h \<mapsto> b)) b"
    using new_block_index_wf[OF wf None ne] by blast
  have le: "?M \<subseteq>\<^sub>m ?M(?h \<mapsto> b)" using None by (auto simp: map_le_def)
  have "wf_index (?M(?h \<mapsto> b))"
    using wf_entry_extend[OF wf _ le] b(2) by (auto simp: wf_index_def)
  moreover have "work_index (?M(?h \<mapsto> b))"
    using work b(3) work_entry_mono[OF _ le] by (auto simp: work_index_def)
  moreover have "\<exists>r. (case best of None \<Rightarrow> Some (Some ?h)
                   | Some bh \<Rightarrow> do { x \<leftarrow> (?M(?h \<mapsto> b)) bh;
                        Some (if bu_less (nChainWork x) (nChainWork b) then Some ?h else Some bh) }) = Some r"
    using best by (auto simp: dom_def split: option.splits)
  ultimately show ?thesis using None b(1) le by (auto simp: AddToBlockIndex_def Let_def)
qed

text \<open>The reference total: the work of a block and of all its ancestors.\<close>

fun chain_proof :: "BlockMap \<Rightarrow> nat \<Rightarrow> uint256 \<Rightarrow> nat" where
  "chain_proof M 0 p = (case M p of None \<Rightarrow> 0
     | Some b \<Rightarrow> (if compact_valid (nBits b) then 2 ^ 256 div (compact_val (nBits b) + 1) else 0))"
| "chain_proof M (Suc n) p = chain_proof M 0 p +
     (case M p of None \<Rightarrow> 0 | Some b \<Rightarrow> (case pprev b of None \<Rightarrow> 0 | Some q \<Rightarrow> chain_proof M n q))"

lemma nChainWork_total:
  assumes wf: "wf_index M" and work: "work_index M" and p: "M p = Some b"
  shows "val_le (nChainWork b) = chain_proof M (nHeight b) p mod 2 ^ 256"
  using p
proof (induction "nHeight b" arbitrary: p b)
  case 0
  have root: "pprev b = None" using wf_indexD[OF wf 0(2)] 0(1) by (auto simp: wf_entry_def split: option.splits)
  obtain w where w: "GetBlockProof b = Some w" "length w = 8" "nChainWork b = bu_add (base_uint_u64 0) w"
    using work_indexD[OF work 0(2)] root by (auto simp: work_entry_def)
  then have "val_le (nChainWork b) = val_le w mod 2 ^ 256"
    by (simp add: arith256.add_val val_base_uint_u64)
  then show ?case using GetBlockProof_val[of b] w(1) 0 by (simp flip: 0(1))
next
  case (Suc n)
  obtain q c where q: "pprev b = Some q" "M q = Some c" "nHeight b = nHeight c + 1"
    using wf_pprev[OF wf Suc.prems] Suc.hyps(2) by (metis zero_less_Suc)
  obtain w where w: "GetBlockProof b = Some w" "length w = 8" "nChainWork b = bu_add (nChainWork c) w"
    using work_indexD[OF work Suc.prems] q by (auto simp: work_entry_def)
  have "val_le (nChainWork b) = (val_le (nChainWork c) + val_le w) mod 2 ^ 256"
    using w wf q by (simp add: arith256.add_val)
  also have "\<dots> = (chain_proof M (nHeight c) q + val_le w) mod 2 ^ 256"
    using Suc.hyps(1)[OF _ q(2)] Suc.hyps(2) q(3) by (simp add: mod_add_left_eq)
  also have "chain_proof M (nHeight c) q + val_le w = chain_proof M (nHeight b) p"
    using GetBlockProof_val[of b] w(1) Suc.prems q by (simp flip: Suc.hyps(2))
  finally show ?case .
qed

section \<open>Last common ancestor\<close>

text \<open>Two blocks of one tree: walking both to height 0 reaches the same block.\<close>

definition same_root :: "BlockMap \<Rightarrow> uint256 \<Rightarrow> uint256 \<Rightarrow> bool" where
  "same_root M p q \<longleftrightarrow> (\<exists>a b. M p = Some a \<and> M q = Some b \<and>
     walk_back M (nHeight a) p = walk_back M (nHeight b) q)"

lemma same_root_walk:
  assumes wf: "wf_index M" and r: "same_root M p q"
    and p: "walk_back M i p = Some p'" and q: "walk_back M j q = Some q'"
  shows "same_root M p' q'"
proof -
  obtain a b where ab: "M p = Some a" "M q = Some b"
    "walk_back M (nHeight a) p = walk_back M (nHeight b) q" using r by (auto simp: same_root_def)
  obtain a' where a': "M p' = Some a'" "nHeight a = nHeight a' + i" using walk_back_SomeD[OF wf ab(1) p] by auto
  obtain b' where b': "M q' = Some b'" "nHeight b = nHeight b' + j" using walk_back_SomeD[OF wf ab(2) q] by auto
  have "walk_back M (nHeight a) p = walk_back M (nHeight a') p'"
    using walk_back_add[of M i "nHeight a'" p] p a'(2) by (simp add: add.commute)
  moreover have "walk_back M (nHeight b) q = walk_back M (nHeight b') q'"
    using walk_back_add[of M j "nHeight b'" q] q b'(2) by (simp add: add.commute)
  ultimately show ?thesis using ab(3) a'(1) b'(1) by (auto simp: same_root_def)
qed

lemma same_root_height_0:
  assumes "same_root M p q" "M p = Some a" "M q = Some b" "nHeight a = nHeight b" "p \<noteq> q"
  shows "0 < nHeight a"
  using assms by (cases "nHeight a") (auto simp: same_root_def)

lemma lca_skip_loop_spec:
  assumes wf: "wf_index M"
  shows "M p = Some a \<Longrightarrow> M q = Some b \<Longrightarrow> nHeight a = nHeight b \<Longrightarrow> same_root M p q \<Longrightarrow> p \<noteq> q \<Longrightarrow>
    \<exists>k p' q'. lca_skip_loop M p q = Some (p', q') \<and> p' \<noteq> q' \<and>
      walk_back M k p = Some p' \<and> walk_back M k q = Some q'"
proof (induction "nHeight a" arbitrary: p q a b rule: less_induct)
  case less
  show ?case
  proof (cases "pskip a = pskip b")
    case True
    then have "lca_skip_loop M p q = Some (p, q)"
      using less.prems by (simp add: lca_skip_loop.simps[of M p q])
    then show ?thesis using less.prems(5) by (intro exI[of _ 0]) simp
  next
    case False
    have h: "0 < nHeight a" by (rule same_root_height_0[OF less.prems(4,1,2,3,5)])
    obtain x a' where x: "pskip a = Some x" "M x = Some a'" "nHeight a' = GetSkipHeight (nHeight a)"
      "walk_back M (nHeight a - GetSkipHeight (nHeight a)) p = Some x"
      using wf_pskip[OF wf less.prems(1) h] by blast
    obtain y b' where y: "pskip b = Some y" "M y = Some b'" "nHeight b' = GetSkipHeight (nHeight a)"
      "walk_back M (nHeight a - GetSkipHeight (nHeight a)) q = Some y"
      using wf_pskip[OF wf less.prems(2)] h less.prems(3) by metis
    have "nHeight a' < nHeight a" using x(3) h by (simp add: GetSkipHeight_less)
    moreover have "same_root M x y" by (rule same_root_walk[OF wf less.prems(4) x(4) y(4)])
    moreover have "x \<noteq> y" using False x(1) y(1) by simp
    ultimately obtain k p' q' where k: "lca_skip_loop M x y = Some (p', q')" "p' \<noteq> q'"
      "walk_back M k x = Some p'" "walk_back M k y = Some q'"
      using less.hyps[OF _ x(2) y(2)] x(3) y(3) by auto
    have "lca_skip_loop M p q = Some (p', q')"
      using less.prems(1,2) False x(1) y(1) k(1) by (simp add: lca_skip_loop.simps[of M p q])
    moreover have "walk_back M (nHeight a - GetSkipHeight (nHeight a) + k) p = Some p'"
      "walk_back M (nHeight a - GetSkipHeight (nHeight a) + k) q = Some q'"
      using x(4) y(4) k(3,4) by (simp_all add: walk_back_add)
    ultimately show ?thesis using k(2) by blast
  qed
qed

text \<open>Once two walks meet they stay together.\<close>

lemma walk_back_meet:
  assumes "walk_back M i p = walk_back M i q" "i \<le> k"
  shows "walk_back M k p = walk_back M k q"
  using assms walk_back_add[of M i "k - i" p] walk_back_add[of M i "k - i" q] by simp

lemma lca_loop_spec:
  assumes wf: "wf_index M"
  shows "M p = Some a \<Longrightarrow> M q = Some b \<Longrightarrow> nHeight a = nHeight b \<Longrightarrow> same_root M p q \<Longrightarrow>
    \<exists>d r. lca_loop M p q = Some r \<and> walk_back M d p = Some r \<and> walk_back M d q = Some r \<and>
      (\<forall>e<d. walk_back M e p \<noteq> walk_back M e q)"
proof (induction "nHeight a" arbitrary: p q a b rule: less_induct)
  case less
  show ?case
  proof (cases "p = q")
    case True
    then have "lca_loop M p q = Some p" by (simp add: lca_loop.simps[of M q q])
    then show ?thesis using True by (intro exI[of _ 0]) simp
  next
    case False
    obtain k p' q' where k: "lca_skip_loop M p q = Some (p', q')" "p' \<noteq> q'"
      "walk_back M k p = Some p'" "walk_back M k q = Some q'"
      using lca_skip_loop_spec[OF wf less.prems False] by blast
    obtain a' where a': "M p' = Some a'" "nHeight a = nHeight a' + k"
      using walk_back_SomeD[OF wf less.prems(1) k(3)] by blast
    obtain b' where b': "M q' = Some b'" "nHeight b = nHeight b' + k"
      using walk_back_SomeD[OF wf less.prems(2) k(4)] by blast
    have eq: "nHeight a' = nHeight b'" using a'(2) b'(2) less.prems(3) by simp
    have r': "same_root M p' q'" by (rule same_root_walk[OF wf less.prems(4) k(3,4)])
    have h: "0 < nHeight a'" by (rule same_root_height_0[OF r' a'(1) b'(1) eq k(2)])
    obtain x c where x: "pprev a' = Some x" "M x = Some c" "nHeight a' = nHeight c + 1"
      using wf_pprev[OF wf a'(1) h] by blast
    obtain y d where y: "pprev b' = Some y" "M y = Some d" "nHeight b' = nHeight d + 1"
      using wf_pprev[OF wf b'(1)] h eq by metis
    have wx: "walk_back M (Suc k) p = Some x" "walk_back M (Suc k) q = Some y"
      using k(3,4) a'(1) b'(1) x(1) y(1) by (simp_all only: walk_back_Suc_right) simp_all
    obtain n r where n: "lca_loop M x y = Some r" "walk_back M n x = Some r" "walk_back M n y = Some r"
      "\<forall>e<n. walk_back M e x \<noteq> walk_back M e y"
      using less.hyps[OF _ x(2) y(2) _ same_root_walk[OF wf less.prems(4) wx]] x(3) y(3) a'(2) eq by auto
    have "walk_back M e p \<noteq> walk_back M e q" if "e < Suc k + n" for e
    proof (cases "e \<le> k")
      case True
      then show ?thesis using walk_back_meet[of M e p q k] k(2,3,4) by auto
    next
      case False
      then obtain f where "e = Suc k + f" using less_iff_Suc_add not_le by (metis add_Suc)
      then show ?thesis using that n(4) wx by (simp only: walk_back_add) simp
    qed
    moreover have "lca_loop M p q = Some r"
      using False k(1) a'(1) b'(1) x(1) y(1) n(1) by (simp add: lca_loop.simps[of M p q])
    moreover have "walk_back M (Suc k + n) p = Some r" "walk_back M (Suc k + n) q = Some r"
      using wx n(2,3) by (simp_all only: walk_back_add) simp_all
    ultimately show ?thesis by blast
  qed
qed

text \<open>\<open>r\<close> is on the \<open>pprev\<close> chain of \<open>p\<close> (the block itself included).\<close>

definition is_ancestor :: "BlockMap \<Rightarrow> uint256 \<Rightarrow> uint256 \<Rightarrow> bool" where
  "is_ancestor M r p \<longleftrightarrow> (\<exists>n. walk_back M n p = Some r)"

lemma lca_equal_height:
  assumes wf: "wf_index M" and p: "M p = Some a" and q: "M q = Some b"
    and h: "nHeight a = nHeight b" and r: "same_root M p q"
  shows "\<exists>r. lca_loop M p q = Some r \<and> is_ancestor M r p \<and> is_ancestor M r q \<and>
    (\<forall>s. is_ancestor M s p \<longrightarrow> is_ancestor M s q \<longrightarrow> is_ancestor M s r)"
proof -
  obtain d r where d: "lca_loop M p q = Some r" "walk_back M d p = Some r" "walk_back M d q = Some r"
    "\<And>e. e < d \<Longrightarrow> walk_back M e p \<noteq> walk_back M e q" using lca_loop_spec[OF wf p q h r] by blast
  have "is_ancestor M s r" if s: "is_ancestor M s p" "is_ancestor M s q" for s
  proof -
    obtain i j where ij: "walk_back M i p = Some s" "walk_back M j q = Some s"
      using s by (auto simp: is_ancestor_def)
    have "i = j" using walk_back_SomeD[OF wf p ij(1)] walk_back_SomeD[OF wf q ij(2)] h by auto
    then have "d \<le> i" using d(4)[of i] ij by force
    then show ?thesis using walk_back_add[of M d "i - d" p] d(2) ij(1) by (auto simp: is_ancestor_def)
  qed
  then show ?thesis using d by (auto simp: is_ancestor_def)
qed

lemma is_ancestor_trans: "is_ancestor M r q \<Longrightarrow> is_ancestor M q p \<Longrightarrow> is_ancestor M r p"
  by (auto simp: is_ancestor_def) (metis walk_back_add bind.bind_lunit)

text \<open>A block at height \<open>h\<close> on the chain of \<open>p\<close> is reached from the ancestor of \<open>p\<close> at any height above.\<close>

lemma is_ancestor_lower:
  assumes wf: "wf_index M" and p: "M p = Some a" and x: "walk_back M k p = Some x"
    and s: "is_ancestor M s p" "M s = Some c" "nHeight c \<le> nHeight a - k"
  shows "is_ancestor M s x"
proof -
  obtain n where n: "walk_back M n p = Some s" using s(1) by (auto simp: is_ancestor_def)
  have "nHeight a = nHeight c + n" using walk_back_SomeD[OF wf p n] s(2) by auto
  moreover have "k \<le> nHeight a" using walk_back_SomeD[OF wf p x] by auto
  ultimately have "k \<le> n" using s(3) by simp
  then show ?thesis using walk_back_add[of M k "n - k" p] n x by (auto simp: is_ancestor_def)
qed

lemma lca_lowered:
  assumes wf: "wf_index M" and p: "M p = Some a" and q: "M q = Some b"
    and h: "nHeight b < nHeight a" and r: "same_root M p q"
  shows "\<exists>x. GetAncestor M p (int (nHeight b)) = Some (Some x) \<and> same_root M x q \<and> same_root M q x \<and>
    (\<exists>c. M x = Some c \<and> nHeight c = nHeight b) \<and> is_ancestor M x p \<and>
    (\<forall>s. is_ancestor M s p \<and> is_ancestor M s q \<longrightarrow> is_ancestor M s x)"
proof -
  obtain x c where x: "walk_back M (nHeight a - nHeight b) p = Some x" "M x = Some c" "nHeight c = nHeight b"
    using walk_back_defined[OF wf p, of "nHeight a - nHeight b"] h by auto
  have "GetAncestor M p (int (nHeight b)) = Some (Some x)"
    using GetAncestor_walk_back[OF wf p, of "int (nHeight b)"] h x(1) by simp
  moreover have "same_root M x q" using same_root_walk[OF wf r x(1), of 0 q] by simp
  moreover from this have "same_root M q x" by (auto simp: same_root_def)
  moreover have "is_ancestor M s x" if s: "is_ancestor M s p" "is_ancestor M s q" for s
  proof -
    obtain d where "M s = Some d" "nHeight d \<le> nHeight b"
      using s(2) walk_back_SomeD[OF wf q] by (fastforce simp: is_ancestor_def)
    then show ?thesis using is_ancestor_lower[OF wf p x(1) s(1)] h by simp
  qed
  ultimately show ?thesis using x by (auto simp: is_ancestor_def)
qed

lemma LastCommonAncestor_greatest:
  assumes wf: "wf_index M" and r: "same_root M p q"
  shows "\<exists>r. LastCommonAncestor M p q = Some r \<and> is_ancestor M r p \<and> is_ancestor M r q \<and>
    (\<forall>s. is_ancestor M s p \<longrightarrow> is_ancestor M s q \<longrightarrow> is_ancestor M s r)"
proof -
  obtain a b where ab: "M p = Some a" "M q = Some b" using r by (auto simp: same_root_def)
  consider "nHeight b < nHeight a" | "nHeight a < nHeight b" | "nHeight a = nHeight b" by linarith
  then show ?thesis
  proof cases
    case 1
    obtain x c where x: "GetAncestor M p (int (nHeight b)) = Some (Some x)" "same_root M x q" "M x = Some c"
      "nHeight c = nHeight b" "is_ancestor M x p"
      "\<And>s. is_ancestor M s p \<and> is_ancestor M s q \<Longrightarrow> is_ancestor M s x"
      using lca_lowered[OF wf ab 1 r] by blast
    then show ?thesis
      using lca_equal_height[OF wf x(3) ab(2) x(4,2)] ab 1 is_ancestor_trans[OF _ x(5)]
      by (fastforce simp: LastCommonAncestor_def)
  next
    case 2
    have "same_root M q p" using r by (auto simp: same_root_def)
    then obtain x c where x: "GetAncestor M q (int (nHeight a)) = Some (Some x)" "same_root M p x" "M x = Some c"
      "nHeight c = nHeight a" "is_ancestor M x q"
      "\<And>s. is_ancestor M s q \<and> is_ancestor M s p \<Longrightarrow> is_ancestor M s x"
      using lca_lowered[OF wf ab(2,1) 2] by blast
    then show ?thesis
      using lca_equal_height[OF wf ab(1) x(3) x(4)[symmetric] x(2)] ab 2 is_ancestor_trans[OF _ x(5)]
      by (fastforce simp: LastCommonAncestor_def)
  next
    case 3
    then show ?thesis using lca_equal_height[OF wf ab 3 r] ab by (simp add: LastCommonAncestor_def)
  qed
qed

section \<open>The active chain\<close>

text \<open>The vector of the chain that ends in \<open>p\<close>: at every height the ancestor of \<open>p\<close> there.\<close>

definition is_chain :: "BlockMap \<Rightarrow> uint256 \<Rightarrow> uint256 option list \<Rightarrow> bool" where
  "is_chain M p v \<longleftrightarrow> (\<exists>b. M p = Some b \<and> length v = nHeight b + 1 \<and>
     (\<forall>i \<le> nHeight b. v ! i = walk_back M (nHeight b - i) p))"

definition wf_chain :: "BlockMap \<Rightarrow> CChain \<Rightarrow> bool" where
  "wf_chain M c \<longleftrightarrow> vChain c = [] \<or> (\<exists>p. is_chain M p (vChain c))"

text \<open>Below height \<open>h\<close> every entry present comes with all its ancestors.\<close>

definition chain_prefix :: "BlockMap \<Rightarrow> nat \<Rightarrow> uint256 option list \<Rightarrow> bool" where
  "chain_prefix M h v \<longleftrightarrow> (\<forall>i q. i \<le> h \<longrightarrow> i < length v \<longrightarrow> v ! i = Some q \<longrightarrow>
     (\<forall>j\<le>i. v ! j = walk_back M (i - j) q))"

lemma is_chain_prefix:
  assumes "wf_index M" "is_chain M p v"
  shows "chain_prefix M h v"
  unfolding chain_prefix_def
proof (intro allI impI)
  fix i q j assume i: "i < length v" "v ! i = Some q" "j \<le> i"
  obtain b where b: "M p = Some b" "length v = nHeight b + 1"
    "\<And>i. i \<le> nHeight b \<Longrightarrow> v ! i = walk_back M (nHeight b - i) p"
    using assms(2) by (auto simp: is_chain_def)
  have "nHeight b - j = (nHeight b - i) + (i - j)" using i b(2) by simp
  then have "walk_back M (nHeight b - j) p = walk_back M (i - j) q"
    using walk_back_add[of M "nHeight b - i" "i - j" p] i b(2,3) by simp
  then show "v ! j = walk_back M (i - j) q" using i b(2,3) by simp
qed

lemma set_tip_loop_spec:
  assumes wf: "wf_index M"
  shows "M p = Some b \<Longrightarrow> nHeight b < length v \<Longrightarrow> chain_prefix M (nHeight b) v \<Longrightarrow>
    \<exists>v'. set_tip_loop M (Some p) v = Some v' \<and> length v' = length v \<and>
      (\<forall>i \<le> nHeight b. v' ! i = walk_back M (nHeight b - i) p) \<and>
      (\<forall>i > nHeight b. v' ! i = v ! i)"
proof (induction "nHeight b" arbitrary: p b v)
  case 0
  then have "pprev b = None" using wf_indexD[OF wf 0(2)] by (auto simp: wf_entry_def split: option.splits)
  moreover have "v[0 := Some p] = v" if "v ! 0 = Some p"
    using list_update_id[of v 0] that by simp
  ultimately have "set_tip_loop M (Some p) v = Some (v[0 := Some p])"
    using 0(2,3) 0(1)[symmetric]
    by (auto simp: set_tip_loop.simps[of M "Some p"] set_tip_loop.simps[of M None])
  then show ?case using 0(3) 0(1)[symmetric] by simp
next
  case (Suc n)
  let ?h = "nHeight b"
  show ?case
  proof (cases "v ! ?h = Some p")
    case True
    then show ?thesis
      using Suc.prems by (auto simp: set_tip_loop.simps[of M "Some p"] chain_prefix_def)
  next
    case False
    obtain q c where q: "pprev b = Some q" "M q = Some c" "?h = nHeight c + 1"
      using wf_pprev[OF wf Suc.prems(1)] Suc.hyps(2) by (metis zero_less_Suc)
    let ?v = "v[?h := Some p]"
    have pre: "chain_prefix M (nHeight c) ?v"
      using Suc.prems(3) q(3) by (auto simp: chain_prefix_def)
    obtain v' where v': "set_tip_loop M (Some q) ?v = Some v'" "length v' = length v"
      "\<And>i. i \<le> nHeight c \<Longrightarrow> v' ! i = walk_back M (nHeight c - i) q"
      "\<And>i. i > nHeight c \<Longrightarrow> v' ! i = ?v ! i"
      using Suc.hyps(1)[OF _ q(2) _ pre] Suc.hyps(2) Suc.prems(2) q(3) by auto
    have "set_tip_loop M (Some p) v = Some v'"
      using Suc.prems False q(1) v'(1) by (simp add: set_tip_loop.simps[of M "Some p"])
    moreover have "v' ! i = walk_back M (?h - i) p" if "i \<le> ?h" for i
    proof (cases "i = ?h")
      case True
      then show ?thesis using v'(4)[of i] q(3) Suc.prems(2) by simp
    next
      case False
      then have "?h - i = Suc (nHeight c - i)" "i \<le> nHeight c" using that q(3) by auto
      then show ?thesis using v'(3)[of i] Suc.prems(1) q(1) by simp
    qed
    moreover have "v' ! i = v ! i" if "i > ?h" for i using v'(4)[of i] that q(3) by simp
    ultimately show ?thesis using v'(2) by blast
  qed
qed

lemma nth_resize_vChain:
  "i < n \<Longrightarrow> resize_vChain n v ! i = (if i < length v then v ! i else None)"
  by (auto simp: resize_vChain_def nth_append)

lemma chain_prefix_resize:
  assumes "wf_index M" "wf_chain M c"
  shows "chain_prefix M h (resize_vChain n (vChain c))"
proof -
  have pre: "chain_prefix M h (vChain c)"
    using assms is_chain_prefix[OF assms(1), of _ "vChain c" h]
    unfolding wf_chain_def by (elim disjE exE) (simp_all add: chain_prefix_def)
  show ?thesis
    unfolding chain_prefix_def
  proof (intro allI impI)
    fix i q j assume i: "i \<le> h" "i < length (resize_vChain n (vChain c))"
      "resize_vChain n (vChain c) ! i = Some q" "j \<le> i"
    then have n: "i < n" by (auto simp: resize_vChain_def)
    then have "i < length (vChain c)" "vChain c ! i = Some q"
      using i(3) by (simp_all add: nth_resize_vChain split: if_splits)
    then show "resize_vChain n (vChain c) ! j = walk_back M (i - j) q"
      using pre i(1,4) n by (simp add: nth_resize_vChain chain_prefix_def)
  qed
qed

lemma chain_SetTip_is_chain:
  assumes wf: "wf_index M" and c: "wf_chain M c" and p: "M p = Some b"
  shows "\<exists>c'. chain_SetTip M p c = Some c' \<and> is_chain M p (vChain c')"
proof -
  have len: "length (resize_vChain (nHeight b + 1) (vChain c)) = nHeight b + 1"
    by (simp add: resize_vChain_def)
  then obtain v' where v': "set_tip_loop M (Some p) (resize_vChain (nHeight b + 1) (vChain c)) = Some v'"
    "length v' = nHeight b + 1" "\<forall>i \<le> nHeight b. v' ! i = walk_back M (nHeight b - i) p"
    using set_tip_loop_spec[OF wf p _ chain_prefix_resize[OF wf c], of "nHeight b + 1"] by auto
  then show ?thesis using p by (auto simp: chain_SetTip_def is_chain_def)
qed

lemma chain_Contains_iff_ancestor:
  assumes wf: "wf_index M" and c: "is_chain M t (vChain c)" and p: "M p = Some b"
  shows "chain_Contains M c p = Some (is_ancestor M p t)"
proof -
  obtain tb where t: "M t = Some tb" "length (vChain c) = nHeight tb + 1"
    "\<And>i. i \<le> nHeight tb \<Longrightarrow> vChain c ! i = walk_back M (nHeight tb - i) t"
    using c by (auto simp: is_chain_def)
  have "is_ancestor M p t \<longleftrightarrow> nHeight b \<le> nHeight tb \<and> walk_back M (nHeight tb - nHeight b) t = Some p"
    using walk_back_SomeD[OF wf t(1)] p by (fastforce simp: is_ancestor_def)
  then show ?thesis using p t(2) t(3)[of "nHeight b"] by (auto simp: chain_Contains_def chain_at_def)
qed

lemma find_fork_loop_spec:
  assumes wf: "wf_index M" and c: "is_chain M t (vChain c)"
  shows "M p = Some b \<Longrightarrow> same_root M p t \<Longrightarrow>
    \<exists>r d. find_fork_loop M c (Some p) = Some (Some r) \<and> walk_back M d p = Some r \<and> is_ancestor M r t \<and>
      (\<forall>e<d. \<forall>s. walk_back M e p = Some s \<longrightarrow> \<not> is_ancestor M s t)"
proof (induction "nHeight b" arbitrary: p b rule: less_induct)
  case less
  note con = chain_Contains_iff_ancestor[OF wf c less.prems(1)]
  show ?case
  proof (cases "is_ancestor M p t")
    case True
    then show ?thesis using con by (intro exI[of _ p] exI[of _ 0]) (simp add: find_fork_loop.simps[of M c "Some p"])
  next
    case False
    have "0 < nHeight b"
    proof (rule ccontr)
      assume "\<not> 0 < nHeight b"
      then have "is_ancestor M p t" using less.prems by (auto simp: same_root_def is_ancestor_def)
      then show False using False by simp
    qed
    then obtain q d where q: "pprev b = Some q" "M q = Some d" "nHeight b = nHeight d + 1"
      using wf_pprev[OF wf less.prems(1)] by blast
    have w: "walk_back M 1 p = Some q" using less.prems(1) q(1) by simp
    obtain r k where r: "find_fork_loop M c (Some q) = Some (Some r)" "walk_back M k q = Some r"
      "is_ancestor M r t" "\<forall>e<k. \<forall>s. walk_back M e q = Some s \<longrightarrow> \<not> is_ancestor M s t"
      using less.hyps[OF _ q(2) same_root_walk[OF wf less.prems(2) w, of 0 t]] q(3) by auto
    have "walk_back M (Suc k) p = Some r" using less.prems(1) q(1) r(2) by simp
    moreover have "\<forall>e<Suc k. \<forall>s. walk_back M e p = Some s \<longrightarrow> \<not> is_ancestor M s t"
    proof (intro allI impI)
      fix e s assume "e < Suc k" "walk_back M e p = Some s"
      then show "\<not> is_ancestor M s t" using False r(4) less.prems(1) q(1) by (cases e) auto
    qed
    moreover have "find_fork_loop M c (Some p) = Some (Some r)"
      using con False less.prems(1) q(1) r(1) by (simp add: find_fork_loop.simps[of M c "Some p"])
    ultimately show ?thesis using r(3) by blast
  qed
qed

lemma deepest_is_greatest:
  assumes wf: "wf_index M" and p: "M p = Some b" and r: "walk_back M d p = Some r"
    and no: "\<forall>e<d. \<forall>s. walk_back M e p = Some s \<longrightarrow> \<not> is_ancestor M s t"
    and s: "is_ancestor M s p" "is_ancestor M s t"
  shows "is_ancestor M s r"
proof -
  obtain n where n: "walk_back M n p = Some s" using s(1) by (auto simp: is_ancestor_def)
  then have "d \<le> n" using no s(2) by (meson not_le)
  then show ?thesis using walk_back_add[of M d "n - d" p] n r by (auto simp: is_ancestor_def)
qed

text \<open>The fork point of a block is its greatest ancestor on the active chain.\<close>

lemma chain_FindFork_greatest:
  assumes wf: "wf_index M" and c: "is_chain M t (vChain c)" and root: "same_root M p t"
  shows "\<exists>r. chain_FindFork M c (Some p) = Some (Some r) \<and> is_ancestor M r p \<and> is_ancestor M r t \<and>
    (\<forall>s. is_ancestor M s p \<longrightarrow> is_ancestor M s t \<longrightarrow> is_ancestor M s r)"
proof -
  obtain b tb where b: "M p = Some b" "M t = Some tb" using root by (auto simp: same_root_def)
  have H: "chain_Height c = int (nHeight tb)" using c b(2) by (auto simp: chain_Height_def is_chain_def)
  have "\<exists>x xb. (if int (nHeight b) > chain_Height c then GetAncestor M p (chain_Height c) else Some (Some p))
      = Some (Some x) \<and> M x = Some xb \<and> same_root M x t \<and> is_ancestor M x p \<and>
      (\<forall>s. is_ancestor M s p \<and> is_ancestor M s t \<longrightarrow> is_ancestor M s x)"
  proof (cases "nHeight tb < nHeight b")
    case True
    then show ?thesis using lca_lowered[OF wf b True root] H by auto
  next
    case False
    then show ?thesis using b root H by (auto simp: is_ancestor_def intro: exI[of _ 0])
  qed
  then obtain x xb where x: "(if int (nHeight b) > chain_Height c then GetAncestor M p (chain_Height c)
      else Some (Some p)) = Some (Some x)" "M x = Some xb" "same_root M x t" "is_ancestor M x p"
      "\<And>s. is_ancestor M s p \<Longrightarrow> is_ancestor M s t \<Longrightarrow> is_ancestor M s x" by auto
  obtain r d where r: "find_fork_loop M c (Some x) = Some (Some r)" "walk_back M d x = Some r"
    "is_ancestor M r t" "\<forall>e<d. \<forall>s. walk_back M e x = Some s \<longrightarrow> \<not> is_ancestor M s t"
    using find_fork_loop_spec[OF wf c x(2,3)] by blast
  have "is_ancestor M r p" using r(2) is_ancestor_trans[OF _ x(4)] by (auto simp: is_ancestor_def)
  moreover have "chain_FindFork M c (Some p) = Some (Some r)"
    using b(1) x(1) r(1) by (simp add: chain_FindFork_def split: if_splits)
  ultimately show ?thesis using r(3) deepest_is_greatest[OF wf x(2) r(2,4)] x(5) by blast
qed

section \<open>Searching the chain by time\<close>

text \<open>Whether the comparator of \<open>FindEarliestAtLeast\<close> puts entry \<open>i\<close> below the searched pair.\<close>

definition before :: "BlockMap \<Rightarrow> uint256 option list \<Rightarrow> int \<Rightarrow> int \<Rightarrow> nat \<Rightarrow> bool" where
  "before M v t h i \<longleftrightarrow>
     (\<exists>p b. v ! i = Some p \<and> M p = Some b \<and> (GetBlockTimeMax b < t \<or> int (nHeight b) < h))"

lemma earliest_loop_spec:
  assumes def: "\<And>i. i < length v \<Longrightarrow> \<exists>p b. v ! i = Some p \<and> M p = Some b"
    and mono: "\<And>i j. i \<le> j \<Longrightarrow> j < length v \<Longrightarrow> before M v t h j \<Longrightarrow> before M v t h i"
  shows "first + count \<le> length v \<Longrightarrow> \<forall>i<first. before M v t h i \<Longrightarrow>
    \<forall>i. first + count \<le> i \<longrightarrow> i < length v \<longrightarrow> \<not> before M v t h i \<Longrightarrow>
    \<exists>r \<le> length v. earliest_loop M v t h first count = Some r \<and> (\<forall>i<r. before M v t h i) \<and>
      (\<forall>i. r \<le> i \<longrightarrow> i < length v \<longrightarrow> \<not> before M v t h i)"
proof (induction count arbitrary: first rule: less_induct)
  case (less count)
  show ?case
  proof (cases "count = 0")
    case True
    then show ?thesis using less.prems by (simp add: earliest_loop.simps)
  next
    case False
    let ?it = "first + count div 2"
    have lt: "count div 2 < count" using False by simp
    then have it: "?it < length v" using less.prems(1) by simp
    obtain p b where p: "v ! ?it = Some p" "M p = Some b" using def[OF it] by blast
    have iff: "GetBlockTimeMax b < t \<or> int (nHeight b) < h \<longleftrightarrow> before M v t h ?it"
      using p by (simp add: before_def)
    have unf: "earliest_loop M v t h first count = (if before M v t h ?it
       then earliest_loop M v t h (?it + 1) (count - (count div 2 + 1))
       else earliest_loop M v t h first (count div 2))"
      using False p iff by (simp add: earliest_loop.simps[of M v t h first count] Let_def)
    show ?thesis
    proof (cases "before M v t h ?it")
      case True
      have below: "\<forall>i<?it + 1. before M v t h i" using mono[OF _ it True] by (simp add: less_Suc_eq_le)
      have end_eq: "?it + 1 + (count - (count div 2 + 1)) = first + count" using lt by simp
      from less.IH[of "count - (count div 2 + 1)" "?it + 1"] below less.prems lt True unf
      show ?thesis by (simp only: end_eq) simp
    next
      case F: False
      have above: "\<forall>i. ?it \<le> i \<longrightarrow> i < length v \<longrightarrow> \<not> before M v t h i" using mono F by blast
      from less.IH[OF lt, of first] above less.prems it F unf show ?thesis by simp
    qed
  qed
qed

lemma work_timemax_mono:
  assumes wf: "wf_index M" and work: "work_index M" and p: "M p = Some b"
    and q: "walk_back M n p = Some q" "M q = Some c"
  shows "nTimeMax c \<le> nTimeMax b \<and> nHeight c \<le> nHeight b"
  using p q(1)
proof (induction n arbitrary: p b)
  case 0
  then show ?case using q(2) by simp
next
  case (Suc n)
  then obtain r where r: "pprev b = Some r" "walk_back M n r = Some q" by (auto simp: bind_eq_Some_conv)
  obtain d where d: "M r = Some d" "nTimeMax b = max (nTimeMax d) (nTime b)"
    using work_indexD[OF work Suc.prems(1)] r(1) by (auto simp: work_entry_def)
  have "nHeight b = nHeight d + 1"
    using wf_indexD[OF wf Suc.prems(1)] r(1) d(1) by (auto simp: wf_entry_def)
  moreover have "nTimeMax d \<le> nTimeMax b" using d(2) by simp
  ultimately show ?case using Suc.IH[OF d(1) r(2)] by auto
qed

lemma chain_FindEarliestAtLeast_spec:
  assumes wf: "wf_index M" and work: "work_index M" and c: "is_chain M tip (vChain c)"
  shows "\<exists>r \<le> length (vChain c). chain_FindEarliestAtLeast M c t h =
      Some (if r = length (vChain c) then None else vChain c ! r) \<and>
    (\<forall>i<length (vChain c). before M (vChain c) t h i \<longleftrightarrow> i < r)"
proof -
  let ?v = "vChain c"
  obtain b where b: "M tip = Some b" "length ?v = nHeight b + 1"
    "\<And>i. i \<le> nHeight b \<Longrightarrow> ?v ! i = walk_back M (nHeight b - i) tip"
    using c by (auto simp: is_chain_def)
  have def: "\<exists>p d. ?v ! i = Some p \<and> M p = Some d" if "i < length ?v" for i
    using walk_back_defined[OF wf b(1), of "nHeight b - i"] b(2,3) that by auto
  have mono: "before M ?v t h i" if ij: "i \<le> j" "j < length ?v" "before M ?v t h j" for i j
  proof -
    obtain q d where q: "?v ! j = Some q" "M q = Some d" "GetBlockTimeMax d < t \<or> int (nHeight d) < h"
      using ij(3) by (auto simp: before_def)
    obtain p a where p: "?v ! i = Some p" "M p = Some a" using def[of i] ij by auto
    have "walk_back M (j - i) q = Some p"
      using is_chain_prefix[OF wf c, of j] ij q(1) p(1) by (auto simp: chain_prefix_def)
    from work_timemax_mono[OF wf work q(2) this p(2)]
    have "GetBlockTimeMax a \<le> GetBlockTimeMax d" "nHeight a \<le> nHeight d"
      by (simp_all add: GetBlockTimeMax_def word_le_def)
    then show ?thesis using p q(3) by (auto simp: before_def)
  qed
  obtain r where r: "r \<le> length ?v" "earliest_loop M ?v t h 0 (length ?v) = Some r"
    "\<forall>i<r. before M ?v t h i" "\<forall>i. r \<le> i \<longrightarrow> i < length ?v \<longrightarrow> \<not> before M ?v t h i"
    using earliest_loop_spec[where v = "?v" and M = M and t = t and h = h and first = 0 and count = "length ?v"] def mono
    by auto
  moreover have "\<forall>i<length ?v. before M ?v t h i \<longleftrightarrow> i < r" using r(3,4) by (meson not_le)
  ultimately show ?thesis by (intro exI[of _ r]) (simp add: chain_FindEarliestAtLeast_def)
qed

section \<open>Block locators\<close>

text \<open>The entries from \<open>p\<close> on: ancestors of \<open>p\<close>, at strictly falling heights, down to height 0.\<close>

fun locator_from :: "BlockMap \<Rightarrow> uint256 \<Rightarrow> uint256 list \<Rightarrow> bool" where
  "locator_from M p [] \<longleftrightarrow> False"
| "locator_from M p [x] \<longleftrightarrow> x = p \<and> (\<exists>b. M p = Some b \<and> nHeight b = 0)"
| "locator_from M p (x # y # xs) \<longleftrightarrow> x = p \<and> (\<exists>n > 0. walk_back M n p = Some y) \<and> locator_from M y (y # xs)"

lemma locator_loop_spec:
  assumes wf: "wf_index M"
  shows "M p = Some b \<Longrightarrow> 1 \<le> step \<Longrightarrow>
    \<exists>xs. locator_loop M (Some p) step acc = Some (acc @ xs) \<and> locator_from M p xs"
proof (induction "nHeight b" arbitrary: p b step acc rule: less_induct)
  case less
  have gh: "GetBlockHash M p = Some p" using wf less.prems(1) by (simp add: GetBlockHash_def)
  show ?case
  proof (cases "nHeight b = 0")
    case True
    then show ?thesis using less.prems(1) gh
      by (intro exI[of _ "[p]"]) (simp add: locator_loop.simps[of M "Some p"])
  next
    case False
    let ?h = "max (int (nHeight b) - step) 0"
    let ?step = "if length (acc @ [p]) > 10 then step * 2 else step"
    obtain q c where q: "GetAncestor M p ?h = Some (Some q)" "walk_back M (nHeight b - nat ?h) p = Some q"
      "M q = Some c" "int (nHeight c) = ?h"
      using GetAncestor_walk_back[OF wf less.prems(1), of ?h] less.prems(2) by auto
    have lt: "nHeight c < nHeight b" using q(4) less.prems(2) False by auto
    have "1 \<le> ?step" using less.prems(2) by auto
    then obtain xs where xs: "locator_loop M (Some q) ?step (acc @ [p]) = Some ((acc @ [p]) @ xs)" "locator_from M q xs"
      using less.hyps[OF lt q(3)] by blast
    have "locator_loop M (Some p) step acc = Some (acc @ p # xs)"
      using less.prems(1) gh False q(1) xs(1)
      by (subst locator_loop.simps) (simp add: Let_def)
    moreover have "locator_from M p (p # xs)"
    proof -
      have "nHeight b - nat ?h > 0" using q(4) lt by simp
      then have "\<exists>n>0. walk_back M n p = Some q" using q(2) by blast
      moreover obtain ys where "xs = q # ys" using xs(2) by (cases xs; cases "tl xs") auto
      ultimately show ?thesis using xs(2) by simp
    qed
    ultimately show ?thesis by blast
  qed
qed

text \<open>Once ten entries are stored the step doubles, so the number of entries is logarithmic.\<close>

lemma locator_loop_length_doubling:
  assumes wf: "wf_index M"
  shows "M p = Some b \<Longrightarrow> 1 \<le> step \<Longrightarrow> 10 \<le> length acc \<Longrightarrow> int (nHeight b) < step * 2 ^ m \<Longrightarrow>
    locator_loop M (Some p) step acc = Some ys \<Longrightarrow> length ys \<le> length acc + m + 2"
proof (induction m arbitrary: p b step acc ys)
  case 0
  have gh: "GetBlockHash M p = Some p" using wf 0(1) by (simp add: GetBlockHash_def)
  obtain q c where q: "GetAncestor M p 0 = Some (Some q)" "M q = Some c" "nHeight c = 0"
    using GetAncestor_walk_back[OF wf 0(1), of 0] by auto
  have gq: "GetBlockHash M q = Some q" using wf q(2) by (simp add: GetBlockHash_def)
  have "max (int (nHeight b) - step) 0 = 0" using 0(4) by simp
  then show ?case using 0(1,3,5) gh q gq
    by (cases "nHeight b = 0")
      (auto simp: locator_loop.simps[of M "Some p"] locator_loop.simps[of M "Some q"] Let_def)
next
  case (Suc m)
  have gh: "GetBlockHash M p = Some p" using wf Suc.prems(1) by (simp add: GetBlockHash_def)
  show ?case
  proof (cases "nHeight b = 0")
    case True
    then show ?thesis using Suc.prems gh by (auto simp: locator_loop.simps[of M "Some p"] Let_def)
  next
    case False
    let ?h = "max (int (nHeight b) - step) 0"
    obtain q c where q: "GetAncestor M p ?h = Some (Some q)" "M q = Some c" "int (nHeight c) = ?h"
      using GetAncestor_walk_back[OF wf Suc.prems(1), of ?h] Suc.prems(2) by auto
    have rec: "locator_loop M (Some q) (step * 2) (acc @ [p]) = Some ys"
      using Suc.prems(5) Suc.prems(1,3) gh False q(1)
      by (subst (asm) locator_loop.simps) (simp add: Let_def)
    have "int (nHeight c) < step * 2 * 2 ^ m" using q(3) Suc.prems(2,4) by (auto simp: algebra_simps)
    from Suc.IH[OF q(2) _ _ this rec] Suc.prems(2,3) show ?thesis by simp
  qed
qed


lemma locator_loop_length:
  assumes wf: "wf_index M"
  shows "M p = Some b \<Longrightarrow> length acc + k = 10 \<Longrightarrow> nHeight b < 2 ^ m \<Longrightarrow>
    locator_loop M (Some p) 1 acc = Some ys \<Longrightarrow> length ys \<le> m + 12"
proof (induction k arbitrary: p b acc)
  case 0
  have "int (nHeight b) < 2 ^ m" using 0(3) by (metis of_nat_less_iff of_nat_numeral of_nat_power)
  then show ?case
    using locator_loop_length_doubling[OF wf 0(1), of 1 acc m ys] 0(2,4) by simp
next
  case (Suc k)
  have gh: "GetBlockHash M p = Some p" using wf Suc.prems(1) by (simp add: GetBlockHash_def)
  show ?case
  proof (cases "nHeight b = 0")
    case True
    then show ?thesis using Suc.prems gh by (auto simp: locator_loop.simps[of M "Some p"] Let_def)
  next
    case False
    let ?h = "max (int (nHeight b) - 1) 0"
    obtain q c where q: "GetAncestor M p ?h = Some (Some q)" "M q = Some c" "int (nHeight c) = ?h"
      using GetAncestor_walk_back[OF wf Suc.prems(1), of ?h] by auto
    have rec: "locator_loop M (Some q) 1 (acc @ [p]) = Some ys"
      using Suc.prems gh False q(1) by (subst (asm) locator_loop.simps) (simp add: Let_def)
    have "nHeight c < 2 ^ m" using q(3) Suc.prems(3) by auto
    from Suc.IH[OF q(2) _ this rec] Suc.prems(2) show ?thesis by simp
  qed
qed

lemma LocatorEntries_spec:
  assumes wf: "wf_index M" and p: "M p = Some b" and h: "nHeight b < 2 ^ m"
  shows "\<exists>xs. LocatorEntries M (Some p) = Some xs \<and> locator_from M p xs \<and> length xs \<le> m + 12"
proof -
  obtain xs where xs: "locator_loop M (Some p) 1 [] = Some ([] @ xs)" "locator_from M p xs"
    using locator_loop_spec[OF wf p, of 1 "[]"] by auto
  then have "length xs \<le> m + 12" using locator_loop_length[OF wf p, of "[]" 10 m xs] h by simp
  then show ?thesis using xs by (simp add: LocatorEntries_def)
qed

section \<open>The order of candidate tips\<close>

text \<open>The key the comparator sorts by: more work is greater, then the earlier sequence number, then the address.\<close>

definition work_less :: "(uint256 \<Rightarrow> nat) \<Rightarrow> BlockMap \<Rightarrow> uint256 \<Rightarrow> uint256 \<Rightarrow> bool" where
  "work_less addr M p q = (CBlockIndexWorkComparator addr M p q = Some True)"

lemma work_less_iff:
  assumes "wf_index M" "M p = Some a" "M q = Some b"
  shows "work_less addr M p q \<longleftrightarrow>
    val_le (nChainWork a) < val_le (nChainWork b) \<or>
    val_le (nChainWork a) = val_le (nChainWork b) \<and>
      (nSequenceId b < nSequenceId a \<or> nSequenceId a = nSequenceId b \<and> addr q < addr p)"
  using assms by (auto simp: work_less_def CBlockIndexWorkComparator_def bu_less_iff)

lemma work_less_total_order:
  assumes wf: "wf_index M" and inj: "inj_on addr (dom M)"
    and p: "p \<in> dom M" and q: "q \<in> dom M" and r: "r \<in> dom M"
  shows "\<not> work_less addr M p p"
    and "work_less addr M p q \<Longrightarrow> work_less addr M q r \<Longrightarrow> work_less addr M p r"
    and "p \<noteq> q \<Longrightarrow> work_less addr M p q \<or> work_less addr M q p"
proof -
  obtain a b c where d: "M p = Some a" "M q = Some b" "M r = Some c" using p q r by blast
  note iff = work_less_iff[OF wf d(1) d(1)] work_less_iff[OF wf d(1) d(2)] work_less_iff[OF wf d(2) d(1)]
    work_less_iff[OF wf d(2) d(3)] work_less_iff[OF wf d(1) d(3)]
  show "\<not> work_less addr M p p" by (simp add: iff)
  show "work_less addr M p q \<Longrightarrow> work_less addr M q r \<Longrightarrow> work_less addr M p r" unfolding iff by linarith
  show "p \<noteq> q \<Longrightarrow> work_less addr M p q \<or> work_less addr M q p"
    using inj_onD[OF inj _ p q] unfolding iff by (meson linorder_neqE)
qed

end
