(* ===== verification/Consensus_Params.thy ===== *)
theory Consensus_Params
  imports Chain_Index "HOL-Library.Signed_Division"
begin

text \<open>
  The consensus parameters of a network (\<open>consensus/params.h\<close>): the record \<open>Params\<close>, the version
  bits deployments and the buried deployments.  The values of the networks are in the theory of
  the chain parameters.
\<close>

section \<open>Deployments\<close>

datatype BuriedDeployment =
  DEPLOYMENT_HEIGHTINCB | DEPLOYMENT_CLTV | DEPLOYMENT_DERSIG | DEPLOYMENT_CSV | DEPLOYMENT_SEGWIT

datatype DeploymentPos = DEPLOYMENT_TESTDUMMY | DEPLOYMENT_TAPROOT

record BIP9Deployment =
  dep_bit :: nat
  dep_nStartTime :: int
  dep_nTimeout :: int
  dep_min_activation_height :: int
  dep_period :: nat
  dep_threshold :: nat

definition NO_TIMEOUT :: int where
  "NO_TIMEOUT = 2 ^ 63 - 1"

definition ALWAYS_ACTIVE :: int where
  "ALWAYS_ACTIVE = -1"

definition NEVER_ACTIVE :: int where
  "NEVER_ACTIVE = -2"

section \<open>Parameters\<close>

record Params =
  hashGenesisBlock :: uint256
  nSubsidyHalvingInterval :: int
  script_flag_exceptions :: "uint256 \<rightharpoonup> u64"
  BIP34Height :: int
  BIP34Hash :: uint256
  BIP65Height :: int
  BIP66Height :: int
  CSVHeight :: int
  SegwitHeight :: int
  MinBIP9WarningHeight :: int
  vDeployments :: "DeploymentPos \<Rightarrow> BIP9Deployment"
  powLimit :: uint256
  fPowAllowMinDifficultyBlocks :: bool
  enforce_BIP94 :: bool
  fPowNoRetargeting :: bool
  nPowTargetSpacing :: int
  nPowTargetTimespan :: int
  nMinimumChainWork :: uint256
  defaultAssumeValid :: uint256
  signet_blocks :: bool
  signet_challenge :: bytes

definition DifficultyAdjustmentInterval :: "Params \<Rightarrow> int" where
  "DifficultyAdjustmentInterval params = nPowTargetTimespan params sdiv nPowTargetSpacing params"

fun DeploymentHeight :: "Params \<Rightarrow> BuriedDeployment \<Rightarrow> int" where
  "DeploymentHeight params DEPLOYMENT_HEIGHTINCB = BIP34Height params"
| "DeploymentHeight params DEPLOYMENT_CLTV = BIP65Height params"
| "DeploymentHeight params DEPLOYMENT_DERSIG = BIP66Height params"
| "DeploymentHeight params DEPLOYMENT_CSV = CSVHeight params"
| "DeploymentHeight params DEPLOYMENT_SEGWIT = SegwitHeight params"

end
