(* ===== verification/Pow.thy ===== *)
theory Pow
  imports Consensus_Params
begin

text \<open>
  Proof of work (\<open>pow.cpp\<close>): the linearly weighted moving average that sets the next target, and
  the check of a hash against a target.  \<open>GetNextWorkRequired\<close> walks 90 blocks back from the tip
  with \<open>lwma_loop\<close>.  The lemmas compute its result as a formula over natural numbers, with the
  wrap-around of the 256-bit product kept, show the per-block clamp and the limit, when the result
  is a valid target, the fixed point of a chain on schedule, and that for large last targets what
  the wrap-around leaves of the product is below the lower clamp.
\<close>

section \<open>Model\<close>

definition LWMA_N :: nat where
  "LWMA_N = 90"

text \<open>The solve time the average uses for one block, \<open>t\<close> being the difference of the block times.\<close>

definition lwma_solvetime :: "Params \<Rightarrow> nat \<Rightarrow> int \<Rightarrow> int" where
  "lwma_solvetime params height t =
     (let s = (if height < LWMA_N then nPowTargetSpacing params
               else let minSolve = nPowTargetSpacing params sdiv 4 in
                    if t < minSolve then minSolve else t) in
      if s > 6 * nPowTargetSpacing params then 6 * nPowTargetSpacing params else s)"

fun lwma_loop :: "Params \<Rightarrow> BlockMap \<Rightarrow> nat \<Rightarrow> uint256 option \<Rightarrow> base_uint \<Rightarrow> int \<Rightarrow> int \<Rightarrow>
    (base_uint \<times> int \<times> int) option" where
  "lwma_loop params M 0 pindex sumTarget nWeightedSolvetimes nWeightSum =
     Some (sumTarget, nWeightedSolvetimes, nWeightSum)"
| "lwma_loop params M (Suc i) pindex sumTarget nWeightedSolvetimes nWeightSum =
     do { p \<leftarrow> pindex; b \<leftarrow> M p;
          let weightedTarget = bu_mul (fst (SetCompact (nBits b))) (base_uint_u64 (word_of_nat (Suc i)));
          t \<leftarrow> (case pprev b of None \<Rightarrow> Some 1
                | Some q \<Rightarrow> do { c \<leftarrow> M q; Some (GetBlockTime b - GetBlockTime c) });
          let solvetime = lwma_solvetime params (nHeight b) t;
          lwma_loop params M i (pprev b) (bu_add sumTarget weightedTarget)
            (nWeightedSolvetimes + solvetime * int (Suc i)) (nWeightSum + int (Suc i)) }"

definition GetNextWorkRequired :: "Params \<Rightarrow> BlockMap \<Rightarrow> uint256 option \<Rightarrow> u32 option" where
  "GetNextWorkRequired params M pindexLast =
     do { p \<leftarrow> pindexLast; b \<leftarrow> M p;
          nProofOfWorkLimit \<leftarrow> GetCompact False (UintToArith256 (powLimit params));
          if nHeight b < LWMA_N then Some nProofOfWorkLimit
          else do {
            (sumTarget, nWeightedSolvetimes, nWeightSum) \<leftarrow> lwma_loop params M LWMA_N (Some p) (base_uint_u64 0) 0 0;
            avgTarget \<leftarrow> bu_div sumTarget (base_uint_u64 (word_of_int nWeightSum));
            bnNew \<leftarrow> bu_div (bu_mul avgTarget (base_uint_u64 (word_of_int nWeightedSolvetimes)))
                       (base_uint_u64 (word_of_int (nWeightSum * nPowTargetSpacing params)));
            let prev = fst (SetCompact (nBits b));
            maxUp \<leftarrow> bu_div (bu_mul prev (base_uint_u64 90)) (base_uint_u64 100);
            maxDown \<leftarrow> bu_div (bu_mul prev (base_uint_u64 110)) (base_uint_u64 100);
            let bnNew1 = (if bu_less bnNew maxUp then maxUp else bnNew);
            let bnNew2 = (if bu_less maxDown bnNew1 then maxDown else bnNew1);
            let limit = UintToArith256 (powLimit params);
            let bnNew3 = (if bu_less limit bnNew2 then limit else bnNew2);
            GetCompact False bnNew3 } }"

definition CalculateNextWorkRequired :: "BlockMap \<Rightarrow> uint256 option \<Rightarrow> int \<Rightarrow> Params \<Rightarrow> u32 option" where
  "CalculateNextWorkRequired M pindexLast nFirstBlockTime params = GetNextWorkRequired params M pindexLast"

definition PermittedDifficultyTransition :: "Params \<Rightarrow> int \<Rightarrow> u32 \<Rightarrow> u32 \<Rightarrow> bool" where
  "PermittedDifficultyTransition params height old_nbits new_nbits = True"

definition DeriveTarget :: "u32 \<Rightarrow> uint256 \<Rightarrow> base_uint option" where
  "DeriveTarget nbits pow_limit =
     (let (bnTarget, fNegative, fOverflow) = SetCompact nbits in
      if fNegative \<or> EqualTo bnTarget 0 \<or> fOverflow \<or> bu_less (UintToArith256 pow_limit) bnTarget
      then None else Some bnTarget)"

definition CheckProofOfWorkImpl :: "uint256 \<Rightarrow> u32 \<Rightarrow> Params \<Rightarrow> bool" where
  "CheckProofOfWorkImpl hash nbits params =
     (case DeriveTarget nbits (powLimit params) of None \<Rightarrow> False
      | Some bnTarget \<Rightarrow> if bu_less bnTarget (UintToArith256 hash) then False else True)"

text \<open>\<open>fuzz\<close> is the value of \<open>EnableFuzzDeterminism()\<close>, a constant of the build.\<close>

definition CheckProofOfWork :: "bool \<Rightarrow> uint256 \<Rightarrow> u32 \<Rightarrow> Params \<Rightarrow> bool" where
  "CheckProofOfWork fuzz hash nbits params =
     (if fuzz then (hash ! 31) AND 0x80 = 0 else CheckProofOfWorkImpl hash nbits params)"

section \<open>Checking a hash\<close>

lemma DeriveTarget_eq:
  assumes "length limit = 32"
  shows "DeriveTarget c limit =
    (if compact_valid c \<and> compact_val c \<le> val_le limit then Some (fst (SetCompact c)) else None)"
proof -
  have "val_le (fst (SetCompact c)) = compact_val c" if "compact_valid c"
    using that by (simp add: val_SetCompact compact_valid_def)
  then have "compact_valid c \<Longrightarrow> bu_less (UintToArith256 limit) (fst (SetCompact c)) \<longleftrightarrow> val_le limit < compact_val c"
    using assms by (simp add: bu_less_iff val_UintToArith256)
  then show ?thesis
    using SetCompact_checks[of c] by (auto simp: DeriveTarget_def split: prod.splits)
qed

lemma CheckProofOfWorkImpl_iff:
  assumes "length hash = 32" "length (powLimit params) = 32"
  shows "CheckProofOfWorkImpl hash c params \<longleftrightarrow>
    compact_valid c \<and> compact_val c \<le> val_le (powLimit params) \<and> val_le hash \<le> compact_val c"
  using assms
  by (auto simp: CheckProofOfWorkImpl_def DeriveTarget_eq bu_less_iff val_UintToArith256 val_SetCompact
      compact_valid_def)

section \<open>The average as a formula\<close>

text \<open>The block \<open>j\<close> steps before \<open>p\<close>, and its raw solve time.\<close>

definition nth_back :: "BlockMap \<Rightarrow> uint256 \<Rightarrow> nat \<Rightarrow> CBlockIndex" where
  "nth_back M p j = the (M (the (walk_back M j p)))"

definition block_solvetime :: "BlockMap \<Rightarrow> CBlockIndex \<Rightarrow> int" where
  "block_solvetime M b = GetBlockTime b - GetBlockTime (the (M (the (pprev b))))"

definition block_target :: "CBlockIndex \<Rightarrow> nat" where
  "block_target b = val_le (fst (SetCompact (nBits b)))"

definition lwma_sum_target :: "BlockMap \<Rightarrow> uint256 \<Rightarrow> nat \<Rightarrow> nat" where
  "lwma_sum_target M p n = (\<Sum>j<n. (n - j) * block_target (nth_back M p j))"

definition lwma_sum_solve :: "Params \<Rightarrow> BlockMap \<Rightarrow> uint256 \<Rightarrow> nat \<Rightarrow> int" where
  "lwma_sum_solve params M p n =
     (\<Sum>j<n. int (n - j) * lwma_solvetime params (nHeight (nth_back M p j)) (block_solvetime M (nth_back M p j)))"

text \<open>The next target before it is put into compact form: the clamp \<open>90% .. 110%\<close>, then the limit.\<close>

definition lwma_target :: "Params \<Rightarrow> BlockMap \<Rightarrow> uint256 \<Rightarrow> nat" where
  "lwma_target params M p =
     (let prev = block_target (nth_back M p 0);
          avg = lwma_sum_target M p 90 div 4095;
          new = avg * nat (lwma_sum_solve params M p 90) mod 2 ^ 256 div (4095 * nat (nPowTargetSpacing params)) in
      min (val_le (powLimit params)) (min (prev * 110 div 100) (max (prev * 90 div 100) new)))"

lemma nth_back_0 [simp]: "M p = Some b \<Longrightarrow> nth_back M p 0 = b"
  by (simp add: nth_back_def)

lemma nth_back_Suc: "M p = Some b \<Longrightarrow> pprev b = Some q \<Longrightarrow> nth_back M p (Suc j) = nth_back M q j"
  by (simp add: nth_back_def)

lemma lwma_sum_target_Suc:
  assumes "M p = Some b" "pprev b = Some q"
  shows "lwma_sum_target M p (Suc n) = Suc n * block_target b + lwma_sum_target M q n"
  unfolding lwma_sum_target_def sum.lessThan_Suc_shift using assms by (simp add: nth_back_Suc)

lemma lwma_sum_solve_Suc:
  assumes "M p = Some b" "pprev b = Some q"
  shows "lwma_sum_solve params M p (Suc n) =
    int (Suc n) * lwma_solvetime params (nHeight b) (block_solvetime M b) + lwma_sum_solve params M q n"
  unfolding lwma_sum_solve_def sum.lessThan_Suc_shift using assms by (simp add: nth_back_Suc)

lemma lwma_loop_spec:
  assumes wf: "wf_index M"
  shows "M p = Some b \<Longrightarrow> n \<le> nHeight b \<Longrightarrow> length s = 8 \<Longrightarrow> n < 2 ^ 64 \<Longrightarrow>
    \<exists>s'. lwma_loop params M n (Some p) s w ws =
        Some (s', w + lwma_sum_solve params M p n, ws + int (n * (n + 1) div 2)) \<and>
      length s' = 8 \<and> val_le s' = (val_le s + lwma_sum_target M p n) mod 2 ^ 256"
proof (induction n arbitrary: p b s w ws)
  case 0
  have "val_le s < 2 ^ 256" using arith256.val_lt 0(3) by blast
  then show ?case using 0 by (simp add: lwma_sum_solve_def lwma_sum_target_def)
next
  case (Suc n)
  obtain q c where q: "pprev b = Some q" "M q = Some c" "nHeight b = nHeight c + 1"
    using wf_pprev[OF wf Suc.prems(1)] Suc.prems(2) by auto
  let ?s = "bu_add s (bu_mul (fst (SetCompact (nBits b))) (base_uint_u64 (word_of_nat (Suc n))))"
  let ?st = "lwma_solvetime params (nHeight b) (block_solvetime M b)"
  have n: "unat (word_of_nat (Suc n) :: u64) = Suc n" unfolding unat_of_nat using Suc.prems(4) by simp
  have vm: "val_le (bu_mul (fst (SetCompact (nBits b))) (base_uint_u64 (word_of_nat (Suc n)))) =
      block_target b * Suc n mod 2 ^ 256"
    using arith256.mul_val[of "fst (SetCompact (nBits b))" "base_uint_u64 (word_of_nat (Suc n))"] n
    by (simp add: val_base_uint_u64 block_target_def)
  have vs: "val_le ?s = (val_le s + block_target b * Suc n) mod 2 ^ 256"
    using arith256.add_val[of s "bu_mul (fst (SetCompact (nBits b))) (base_uint_u64 (word_of_nat (Suc n)))"]
      Suc.prems(3) unfolding vm by (simp add: mod_add_right_eq)
  have len: "length ?s = 8" using Suc.prems(3) by simp
  obtain s' where s': "lwma_loop params M n (Some q) ?s (w + ?st * int (Suc n)) (ws + int (Suc n)) =
      Some (s', w + ?st * int (Suc n) + lwma_sum_solve params M q n, ws + int (Suc n) + int (n * (n + 1) div 2))"
    "length s' = 8" "val_le s' = (val_le ?s + lwma_sum_target M q n) mod 2 ^ 256"
    using Suc.IH[OF q(2) _ len] Suc.prems(2,4) q(3) by auto
  have tri: "Suc n * (Suc n + 1) div 2 = Suc n + n * (n + 1) div 2" by simp
  have "lwma_loop params M (Suc n) (Some p) s w ws =
      lwma_loop params M n (Some q) ?s (w + ?st * int (Suc n)) (ws + int (Suc n))"
    using Suc.prems(1) q by (simp add: block_solvetime_def)
  also have "\<dots> = Some (s', w + lwma_sum_solve params M p (Suc n), ws + int (Suc n * (Suc n + 1) div 2))"
    unfolding s'(1) lwma_sum_solve_Suc[where M = M and p = p, OF Suc.prems(1) q(1)] tri of_nat_add by (simp add: algebra_simps)
  finally have "lwma_loop params M (Suc n) (Some p) s w ws =
    Some (s', w + lwma_sum_solve params M p (Suc n), ws + int (Suc n * (Suc n + 1) div 2))" .
  moreover have "val_le s' = (val_le s + lwma_sum_target M p (Suc n)) mod 2 ^ 256"
    unfolding s'(3) vs lwma_sum_target_Suc[where M = M and p = p, OF Suc.prems(1) q(1)] mod_add_left_eq
    by (simp only: mult.commute[of "block_target b"] add.assoc)
  ultimately show ?case using s'(2) by blast
qed

text \<open>Bounds on the two sums, from bounds on the targets and on the solve times of the window.\<close>

lemma weight_sum_90: "(\<Sum>j<90. (90::nat) - j) = 4095"
  by (simp add: lessThan_nat_numeral)

lemma lwma_sum_target_le:
  assumes "\<And>j. j < 90 \<Longrightarrow> block_target (nth_back M p j) \<le> L"
  shows "lwma_sum_target M p 90 \<le> 4095 * L"
proof -
  have "lwma_sum_target M p 90 \<le> (\<Sum>j<90. (90 - j) * L)"
    unfolding lwma_sum_target_def using assms by (intro sum_mono) simp
  also have "\<dots> = 4095 * L" by (simp only: weight_sum_90 flip: sum_distrib_right)
  finally show ?thesis .
qed

lemma lwma_sum_target_const:
  assumes "\<And>j. j < 90 \<Longrightarrow> block_target (nth_back M p j) = T"
  shows "lwma_sum_target M p 90 = 4095 * T"
proof -
  have "lwma_sum_target M p 90 = (\<Sum>j<90. (90 - j) * T)"
    unfolding lwma_sum_target_def using assms by (intro sum.cong) simp_all
  also have "\<dots> = 4095 * T" by (simp only: weight_sum_90 flip: sum_distrib_right)
  finally show ?thesis .
qed

lemma lwma_solvetime_bounds:
  assumes "0 < nPowTargetSpacing params"
  shows "0 \<le> lwma_solvetime params h t" "lwma_solvetime params h t \<le> 6 * nPowTargetSpacing params"
    "nPowTargetSpacing params sdiv 4 \<le> lwma_solvetime params h t"
proof -
  have "nPowTargetSpacing params sdiv 4 = nPowTargetSpacing params div 4" using assms by (simp add: signed_divide_int_def)
  then show "0 \<le> lwma_solvetime params h t" "lwma_solvetime params h t \<le> 6 * nPowTargetSpacing params"
    "nPowTargetSpacing params sdiv 4 \<le> lwma_solvetime params h t"
    using assms by (auto simp: lwma_solvetime_def Let_def)
qed

lemma weight_sum_90_int: "(\<Sum>j<90. int (90 - j)) = 4095"
  using weight_sum_90 by (simp only: flip: of_nat_sum)

lemma lwma_sum_solve_bounds:
  assumes "0 < nPowTargetSpacing params"
  shows "0 \<le> lwma_sum_solve params M p 90" "lwma_sum_solve params M p 90 \<le> 4095 * (6 * nPowTargetSpacing params)"
proof -
  show "0 \<le> lwma_sum_solve params M p 90"
    unfolding lwma_sum_solve_def using lwma_solvetime_bounds(1)[OF assms] by (intro sum_nonneg) simp
  have "lwma_sum_solve params M p 90 \<le> (\<Sum>j<90. int (90 - j) * (6 * nPowTargetSpacing params))"
    unfolding lwma_sum_solve_def using lwma_solvetime_bounds(2)[OF assms]
    by (intro sum_mono mult_left_mono) simp_all
  also have "\<dots> = 4095 * (6 * nPowTargetSpacing params)" by (simp only: weight_sum_90_int flip: sum_distrib_right)
  finally show "lwma_sum_solve params M p 90 \<le> 4095 * (6 * nPowTargetSpacing params)" .
qed

lemma lwma_sum_solve_const:
  assumes "\<And>j. j < 90 \<Longrightarrow> lwma_solvetime params (nHeight (nth_back M p j)) (block_solvetime M (nth_back M p j)) = s"
  shows "lwma_sum_solve params M p 90 = 4095 * s"
proof -
  have "lwma_sum_solve params M p 90 = (\<Sum>j<90. int (90 - j) * s)"
    unfolding lwma_sum_solve_def using assms by (intro sum.cong) simp_all
  also have "\<dots> = 4095 * s" by (simp only: weight_sum_90_int flip: sum_distrib_right)
  finally show ?thesis .
qed

text \<open>
  The window the average is taken over: 90 blocks ending in \<open>p\<close>, no target above the limit, a limit
  with the top twelve bits clear and a sensible spacing.
\<close>

definition lwma_window :: "Params \<Rightarrow> BlockMap \<Rightarrow> uint256 \<Rightarrow> bool" where
  "lwma_window params M p \<longleftrightarrow> wf_index M \<and> (\<exists>b. M p = Some b \<and> 90 \<le> nHeight b) \<and>
     length (powLimit params) = 32 \<and> val_le (powLimit params) < 2 ^ 244 \<and>
     0 < nPowTargetSpacing params \<and> nPowTargetSpacing params < 2 ^ 32 \<and>
     (\<forall>j<90. block_target (nth_back M p j) \<le> val_le (powLimit params))"

lemma unat_word_of_int_u64: "0 \<le> i \<Longrightarrow> i < 2 ^ 64 \<Longrightarrow> unat (word_of_int i :: u64) = nat i"
  by (simp add: unsigned_of_int take_bit_int_eq_self)

lemma clamp_val:
  assumes "length x = 8" "length u = 8" "length d = 8" "length l = 8" "val_le u \<le> val_le d"
  shows "val_le (let x1 = if bu_less x u then u else x; x2 = if bu_less d x1 then d else x1 in
      if bu_less l x2 then l else x2) = min (val_le l) (min (val_le d) (max (val_le u) (val_le x)))"
    and "length (let x1 = if bu_less x u then u else x; x2 = if bu_less d x1 then d else x1 in
      if bu_less l x2 then l else x2) = 8"
  using assms by (auto simp: Let_def bu_less_iff)

lemma GetNextWorkRequired_formula:
  assumes w: "lwma_window params M p"
  shows "\<exists>t. GetNextWorkRequired params M (Some p) = GetCompact False t \<and> length t = 8 \<and>
    val_le t = lwma_target params M p"
proof -
  let ?L = "val_le (powLimit params)" and ?sp = "nPowTargetSpacing params"
  obtain b where b: "M p = Some b" "90 \<le> nHeight b" and wf: "wf_index M" and L: "length (powLimit params) = 32" "?L < 2 ^ 244"
    and sp: "0 < ?sp" "?sp < 2 ^ 32" and tg: "\<And>j. j < 90 \<Longrightarrow> block_target (nth_back M p j) \<le> ?L"
    using w unfolding lwma_window_def by blast
  obtain c where c: "GetCompact False (UintToArith256 (powLimit params)) = Some c"
    using GetCompact_SetCompact[of "UintToArith256 (powLimit params)"] by auto
  obtain s where s: "lwma_loop params M 90 (Some p) (base_uint_u64 0) 0 0 = Some (s, lwma_sum_solve params M p 90, 4095)"
    "length s = 8" "val_le s = lwma_sum_target M p 90 mod 2 ^ 256"
    using lwma_loop_spec[OF wf b, of "base_uint_u64 0" params 0 0] by (auto simp: val_base_uint_u64)
  have sT: "val_le s = lwma_sum_target M p 90" using s(3) lwma_sum_target_le[OF tg] L(2) by simp
  obtain avg where avg: "bu_div s (base_uint_u64 4095) = Some avg" "length avg = 8"
    "val_le avg = lwma_sum_target M p 90 div 4095"
    using arith256.quot_val[OF s(2), of "base_uint_u64 4095"] sT by (auto simp: val_base_uint_u64)
  note sol = lwma_sum_solve_bounds[OF sp(1), of M p]
  have us: "unat (word_of_int (lwma_sum_solve params M p 90) :: u64) = nat (lwma_sum_solve params M p 90)"
    using sol sp by (intro unat_word_of_int_u64) simp_all
  have ud: "unat (word_of_int (4095 * ?sp) :: u64) = 4095 * nat ?sp"
    using unat_word_of_int_u64[of "4095 * ?sp"] sp by (simp add: nat_mult_distrib)
  obtain new where new: "bu_div (bu_mul avg (base_uint_u64 (word_of_int (lwma_sum_solve params M p 90))))
      (base_uint_u64 (word_of_int (4095 * ?sp))) = Some new" "length new = 8"
    "val_le new = lwma_sum_target M p 90 div 4095 * nat (lwma_sum_solve params M p 90) mod 2 ^ 256 div (4095 * nat ?sp)"
    using arith256.quot_val[of "bu_mul avg (base_uint_u64 (word_of_int (lwma_sum_solve params M p 90)))"
        "base_uint_u64 (word_of_int (4095 * ?sp))"] arith256.mul_val avg sp us ud
    by (auto simp: val_base_uint_u64)
  let ?prev = "fst (SetCompact (nBits b))"
  have pv: "val_le ?prev = block_target (nth_back M p 0)" "val_le ?prev \<le> ?L"
    using tg[of 0] b(1) by (simp_all add: block_target_def)
  obtain up where up: "bu_div (bu_mul ?prev (base_uint_u64 90)) (base_uint_u64 100) = Some up" "length up = 8"
    "val_le up = val_le ?prev * 90 div 100" using arith256.scale_u64[of ?prev 100 90] pv(2) L(2) by auto
  obtain dn where dn: "bu_div (bu_mul ?prev (base_uint_u64 110)) (base_uint_u64 100) = Some dn" "length dn = 8"
    "val_le dn = val_le ?prev * 110 div 100" using arith256.scale_u64[of ?prev 100 110] pv(2) L(2) by auto
  have "val_le up \<le> val_le dn" using up(3) dn(3) by (simp add: div_le_mono)
  note cl = clamp_val[OF new(2) up(2) dn(2) length_UintToArith256[of "powLimit params"] this]
  let ?t = "let x1 = if bu_less new up then up else new; x2 = if bu_less dn x1 then dn else x1 in
      if bu_less (UintToArith256 (powLimit params)) x2 then UintToArith256 (powLimit params) else x2"
  have "GetNextWorkRequired params M (Some p) = GetCompact False ?t"
    using b c s(1) avg(1) new(1) up(1) dn(1) by (simp add: GetNextWorkRequired_def LWMA_N_def Let_def)
  moreover have "val_le ?t = lwma_target params M p"
    unfolding cl(1) unfolding lwma_target_def Let_def new(3) up(3) dn(3) pv(1) val_UintToArith256[OF L(1)] by (rule refl)
  ultimately show ?thesis using cl(2) by blast
qed

section \<open>Compact form keeps fifteen significant bits\<close>

lemma compact_unit_pos: "0 < compact_unit pn"
  by (simp add: compact_unit_def)

lemma compact_rounding:
  assumes "length pn = 8"
  shows "val_le pn div compact_unit pn * compact_unit pn \<le> val_le pn"
    and "32767 * val_le pn \<le> 32768 * (val_le pn div compact_unit pn * compact_unit pn)"
    and "val_le pn \<noteq> 0 \<Longrightarrow> 0 < val_le pn div compact_unit pn * compact_unit pn"
proof -
  let ?u = "compact_unit pn" and ?v = "val_le pn"
  show "?v div ?u * ?u \<le> ?v" by simp
  have u: "32768 * ?u \<le> ?v" if "?u \<noteq> 1"
  proof -
    have q: "bits pn div 8 \<ge> 3" using that by (simp add: compact_unit_def)
    then have "?v \<noteq> 0" by (auto simp flip: bits_eq_0_iff)
    then have "2 ^ (bits pn - 1) \<le> ?v" by (rule bits_ge)
    moreover have "(32768::nat) * ?u = 2 ^ (15 + 8 * (bits pn div 8 - 2))"
      by (simp add: compact_unit_def power_add power_mult)
    moreover have "15 + 8 * (bits pn div 8 - 2) \<le> bits pn - 1" using q by presburger
    then have "(2::nat) ^ (15 + 8 * (bits pn div 8 - 2)) \<le> 2 ^ (bits pn - 1)" by (intro power_increasing) simp_all
    ultimately show ?thesis by linarith
  qed
  have m: "?v = ?v div ?u * ?u + ?v mod ?u" by simp
  have lt: "?v mod ?u < ?u" using compact_unit_pos by simp
  show "32767 * ?v \<le> 32768 * (?v div ?u * ?u)"
  proof (cases "?u = 1")
    case True
    then show ?thesis by simp
  next
    case False
    then show ?thesis using u m lt by linarith
  qed
  then show "?v \<noteq> 0 \<Longrightarrow> 0 < ?v div ?u * ?u" by linarith
qed

lemma GetNextWorkRequired_target:
  assumes w: "lwma_window params M p"
  shows "\<exists>c. GetNextWorkRequired params M (Some p) = Some c \<and> snd (SetCompact c) = (False, False) \<and>
    val_le (fst (SetCompact c)) \<le> lwma_target params M p \<and>
    32767 * lwma_target params M p \<le> 32768 * val_le (fst (SetCompact c)) \<and>
    (lwma_target params M p \<noteq> 0 \<longrightarrow> 0 < val_le (fst (SetCompact c)))"
proof -
  obtain t where t: "GetNextWorkRequired params M (Some p) = GetCompact False t" "length t = 8"
    "val_le t = lwma_target params M p" using GetNextWorkRequired_formula[OF w] by blast
  obtain c where c: "GetCompact False t = Some c" "snd (SetCompact c) = (False, False)"
    "val_le (fst (SetCompact c)) = val_le t div compact_unit t * compact_unit t"
    using GetCompact_SetCompact[OF t(2)] by blast
  show ?thesis
    using compact_rounding[OF t(2), folded c(3), unfolded t(3)] t(1) c(1,2) by (intro exI[of _ c]) simp
qed

lemma min_clamp_bounds:
  fixes l :: nat
  assumes "u \<le> d" "u \<le> l"
  shows "min l (min d (max u x)) \<le> l" "min l (min d (max u x)) \<le> d" "u \<le> min l (min d (max u x))"
  using assms by auto

lemma lwma_target_clamp:
  assumes "lwma_window params M p"
  shows "lwma_target params M p \<le> val_le (powLimit params)"
    and "lwma_target params M p \<le> block_target (nth_back M p 0) * 110 div 100"
    and "block_target (nth_back M p 0) * 90 div 100 \<le> lwma_target params M p"
proof -
  let ?x = "block_target (nth_back M p 0)"
  have "?x \<le> val_le (powLimit params)" using assms unfolding lwma_window_def by simp
  moreover have "?x * 90 div 100 \<le> ?x" by linarith
  ultimately have l: "?x * 90 div 100 \<le> val_le (powLimit params)" by (rule order_trans[rotated])
  have d: "?x * 90 div 100 \<le> ?x * 110 div 100" by (rule div_le_mono) simp
  note b = min_clamp_bounds[OF d l]
  show "lwma_target params M p \<le> val_le (powLimit params)"
    unfolding lwma_target_def Let_def by (rule b(1))
  show "lwma_target params M p \<le> ?x * 110 div 100"
    unfolding lwma_target_def Let_def by (rule b(2))
  show "?x * 90 div 100 \<le> lwma_target params M p"
    unfolding lwma_target_def Let_def by (rule b(3))
qed

text \<open>
  Large targets.  A quotient of a 256-bit number by the total weight is
  at most \<open>2 ^ 256 div (4095 * spacing)\<close>; where that is at most the lower clamp the block times have no
  influence and the target falls by a tenth.
\<close>

lemma lwma_target_wrapped:
  assumes w: "lwma_window params M p"
    and big: "2 ^ 256 div (4095 * nat (nPowTargetSpacing params)) \<le> block_target (nth_back M p 0) * 90 div 100"
  shows "lwma_target params M p = block_target (nth_back M p 0) * 90 div 100"
proof -
  let ?x = "block_target (nth_back M p 0)" and ?d = "4095 * nat (nPowTargetSpacing params)"
  define n where "n = lwma_sum_target M p 90 div 4095 * nat (lwma_sum_solve params M p 90) mod 2 ^ 256"
  have "n < 2 ^ 256" unfolding n_def by (rule mod_less_divisor) simp
  then have "n div ?d \<le> 2 ^ 256 div ?d" by (intro div_le_mono) linarith
  then have "max (?x * 90 div 100) (n div ?d) = ?x * 90 div 100" using big by linarith
  moreover have "?x * 90 div 100 \<le> ?x * 110 div 100" by (rule div_le_mono) simp
  moreover have "?x * 90 div 100 \<le> val_le (powLimit params)"
    using lwma_target_clamp(1,3)[OF w] by linarith
  ultimately show ?thesis unfolding lwma_target_def Let_def n_def[symmetric] by (metis min.absorb2)
qed

text \<open>The fixed point: on schedule and below the wrap, the target does not move.\<close>

lemma lwma_target_steady:
  assumes w: "lwma_window params M p"
    and T: "\<And>j. j < 90 \<Longrightarrow> block_target (nth_back M p j) = T"
    and st: "\<And>j. j < 90 \<Longrightarrow> block_solvetime M (nth_back M p j) = nPowTargetSpacing params"
    and small: "T * (4095 * nat (nPowTargetSpacing params)) < 2 ^ 256"
  shows "lwma_target params M p = T"
proof -
  let ?sp = "nPowTargetSpacing params"
  have sp: "0 < ?sp" and L: "T \<le> val_le (powLimit params)" using w T unfolding lwma_window_def by force+
  have "?sp sdiv 4 \<le> ?sp" using sp by (simp add: signed_divide_int_def)
  then have one: "lwma_solvetime params h ?sp = ?sp" for h
    using sp unfolding lwma_solvetime_def Let_def by (simp split: if_split)
  have "lwma_sum_solve params M p 90 = 4095 * ?sp" using st one by (intro lwma_sum_solve_const) simp
  then have s: "nat (lwma_sum_solve params M p 90) = 4095 * nat ?sp" using sp by (simp add: nat_mult_distrib)
  have t: "lwma_sum_target M p 90 div 4095 = T" using lwma_sum_target_const[OF T] by simp
  have q: "T * (4095 * nat ?sp) mod 2 ^ 256 div (4095 * nat ?sp) = T"
  proof -
    have "0 < 4095 * nat ?sp" using sp by simp
    then show ?thesis using small by (metis mod_less nonzero_mult_div_cancel_right less_not_refl3)
  qed
  have x: "block_target (nth_back M p 0) = T" using T by simp
  have "T * 90 div 100 \<le> T" "T \<le> T * 110 div 100" by linarith+
  then show ?thesis
    unfolding lwma_target_def Let_def s t q x using L by (metis max.absorb2 min.absorb2)
qed

lemma compact_val_unit_dvd:
  assumes t: "length t = 8" "val_le t = compact_val c"
  shows "val_le t div compact_unit t * compact_unit t = val_le t"
proof (cases "unat c div 2 ^ 24 \<le> 3")
  case True
  then have "val_le t < 2 ^ 23" using t(2) compact_val_small_less by simp
  then have "bits t \<le> 23" by (rule bits_leI)
  then have "bits t div 8 - 2 = 0" by presburger
  then show ?thesis by (simp add: compact_unit_def)
next
  case False
  let ?e = "unat c div 2 ^ 24 - 3"
  have v: "val_le t = (unat c mod 2 ^ 23) * 256 ^ ?e" using t(2) compact_val_large False by simp
  have "unat c mod 2 ^ 23 < 2 ^ 23" by simp
  then have "val_le t < 2 ^ 23 * 256 ^ ?e" unfolding v by (intro mult_strict_right_mono) simp_all
  also have "(2::nat) ^ 23 * 256 ^ ?e = 2 ^ (8 * ?e + 23)" by (simp only: pow256 power_add mult.commute)
  finally have "bits t \<le> 8 * ?e + 23" by (rule bits_leI)
  moreover have "x \<le> 8 * e + 23 \<Longrightarrow> x div 8 - 2 \<le> e" for x e :: nat by presburger
  ultimately have "bits t div 8 - 2 \<le> ?e" by blast
  then have "compact_unit t dvd val_le t" unfolding v compact_unit_def by (intro dvd_mult le_imp_power_dvd)
  then show ?thesis by simp
qed

lemma GetNextWorkRequired_lossless:
  assumes w: "lwma_window params M p" and v: "lwma_target params M p = compact_val c0"
  shows "\<exists>c. GetNextWorkRequired params M (Some p) = Some c \<and> snd (SetCompact c) = (False, False) \<and>
    val_le (fst (SetCompact c)) = lwma_target params M p"
proof -
  obtain t where t: "GetNextWorkRequired params M (Some p) = GetCompact False t" "length t = 8"
    "val_le t = lwma_target params M p" using GetNextWorkRequired_formula[OF w] by blast
  obtain c where c: "GetCompact False t = Some c" "snd (SetCompact c) = (False, False)"
    "val_le (fst (SetCompact c)) = val_le t div compact_unit t * compact_unit t"
    using GetCompact_SetCompact[OF t(2)] by blast
  have "val_le t div compact_unit t * compact_unit t = val_le t"
    by (rule compact_val_unit_dvd[OF t(2)]) (simp only: t(3) v)
  then show ?thesis using c t by auto
qed

section \<open>Valid results and the unreduced product\<close>

lemma DeriveTarget_clean:
  assumes "length limit = 32" "snd (SetCompact c) = (False, False)" "val_le (fst (SetCompact c)) \<le> val_le limit"
  shows "DeriveTarget c limit = (if val_le (fst (SetCompact c)) = 0 then None else Some (fst (SetCompact c)))"
proof -
  have v: "val_le (fst (SetCompact c)) = compact_val c" "\<not> (compact_val c \<noteq> 0 \<and> odd (unat c div 2 ^ 23))" "compact_val c < 2 ^ 256"
    using assms(2) unfolding SetCompact_flags by (auto simp: val_SetCompact)
  then have "compact_valid c \<longleftrightarrow> compact_val c \<noteq> 0" by (auto simp: compact_valid_def)
  then show ?thesis using DeriveTarget_eq[OF assms(1), of c] assms(3) v(1) by simp
qed

lemma lwma_target_pos:
  assumes "lwma_window params M p" "2 \<le> block_target (nth_back M p 0)"
  shows "0 < lwma_target params M p"
proof -
  have "2 * 90 div 100 \<le> block_target (nth_back M p 0) * 90 div 100" using assms(2) by (intro div_le_mono mult_le_mono1)
  with lwma_target_clamp(3)[OF assms(1)] show ?thesis by simp
qed

lemma lwma_unwrapped:
  assumes "\<And>j. j < 90 \<Longrightarrow> block_target (nth_back M p j) = T" "4095 * int sp \<le> lwma_sum_solve params M p 90" "0 < sp"
  shows "T \<le> lwma_sum_target M p 90 div 4095 * nat (lwma_sum_solve params M p 90) div (4095 * sp)"
proof -
  have "lwma_sum_target M p 90 div 4095 = T" using lwma_sum_target_const[OF assms(1)] by simp
  moreover have "4095 * sp \<le> nat (lwma_sum_solve params M p 90)" using assms(2) by linarith
  then have "T * (4095 * sp) div (4095 * sp) \<le> T * nat (lwma_sum_solve params M p 90) div (4095 * sp)"
    by (intro div_le_mono mult_le_mono2)
  ultimately show ?thesis using assms(3) by simp
qed

end
