(* ===== verification/Chain_Params.thy ===== *)
theory Chain_Params
  imports Pow
begin

text \<open>
  The consensus parameters of the five networks (\<open>kernel/chainparams.cpp\<close>: the assignments to
  \<open>consensus\<close> in the constructors of \<open>CMainParams\<close>, \<open>CTestNetParams\<close>, \<open>CTestNet4Params\<close>, \<open>SigNetParams\<close> and
  \<open>CRegTestParams\<close>).  The hash of the genesis block, which the constructors compute, is an argument.
\<close>

section \<open>Constants\<close>

text \<open>\<open>uint256{"..."}\<close>: the hexadecimal digits are the number whose little-endian bytes the object holds.\<close>

definition uint256_of :: "nat \<Rightarrow> uint256" where
  "uint256_of n = words_of_nat 32 n"

definition SCRIPT_VERIFY_NONE :: u64 where
  "SCRIPT_VERIFY_NONE = 0"

definition SCRIPT_VERIFY_P2SH :: u64 where
  "SCRIPT_VERIFY_P2SH = 1"

definition SCRIPT_VERIFY_WITNESS :: u64 where
  "SCRIPT_VERIFY_WITNESS = push_bit 11 1"

section \<open>Deployments\<close>

definition taproot_dates :: "int \<Rightarrow> nat \<Rightarrow> nat \<Rightarrow> BIP9Deployment" where
  "taproot_dates min_height threshold period =
     \<lparr>dep_bit = 2, dep_nStartTime = 1619222400, dep_nTimeout = 1628640000,
      dep_min_activation_height = min_height, dep_period = period, dep_threshold = threshold\<rparr>"

definition taproot_always :: "nat \<Rightarrow> nat \<Rightarrow> BIP9Deployment" where
  "taproot_always threshold period =
     \<lparr>dep_bit = 2, dep_nStartTime = ALWAYS_ACTIVE, dep_nTimeout = NO_TIMEOUT,
      dep_min_activation_height = 0, dep_period = period, dep_threshold = threshold\<rparr>"

definition testdummy :: "int \<Rightarrow> nat \<Rightarrow> nat \<Rightarrow> BIP9Deployment" where
  "testdummy start threshold period =
     \<lparr>dep_bit = 28, dep_nStartTime = start, dep_nTimeout = NO_TIMEOUT,
      dep_min_activation_height = 0, dep_period = period, dep_threshold = threshold\<rparr>"

fun deployments :: "BIP9Deployment \<Rightarrow> BIP9Deployment \<Rightarrow> DeploymentPos \<Rightarrow> BIP9Deployment" where
  "deployments dummy taproot DEPLOYMENT_TESTDUMMY = dummy"
| "deployments dummy taproot DEPLOYMENT_TAPROOT = taproot"

section \<open>Networks\<close>

definition main_consensus :: "uint256 \<Rightarrow> Params" where
  "main_consensus genesis_hash =
     \<lparr>hashGenesisBlock = genesis_hash,
      nSubsidyHalvingInterval = 210000,
      script_flag_exceptions =
        [uint256_of 0x00000000000002dc756eebf4f49723ed8d30cc28a5f108eb94b1ba88ac4f9c22 \<mapsto> SCRIPT_VERIFY_NONE,
         uint256_of 0x0000000000000000000f14c35b2d841e986ab5441de8c585d5ffe55ea1e395ad \<mapsto>
           SCRIPT_VERIFY_P2SH OR SCRIPT_VERIFY_WITNESS],
      BIP34Height = 1, BIP34Hash = uint256_0, BIP65Height = 1, BIP66Height = 1, CSVHeight = 1,
      SegwitHeight = 1, MinBIP9WarningHeight = 0,
      vDeployments = deployments (testdummy NEVER_ACTIVE 1815 2016) (taproot_dates 709632 1815 2016),
      powLimit = uint256_of 0x000fffffffffffffffffffffffffffffffffffffffffffffffffffffffffffff,
      fPowAllowMinDifficultyBlocks = False, enforce_BIP94 = False, fPowNoRetargeting = False,
      nPowTargetSpacing = 10 * 60, nPowTargetTimespan = 14 * 24 * 60 * 60,
      nMinimumChainWork = uint256_0, defaultAssumeValid = uint256_0,
      signet_blocks = False, signet_challenge = []\<rparr>"

definition testnet_consensus :: "uint256 \<Rightarrow> Params" where
  "testnet_consensus genesis_hash =
     \<lparr>hashGenesisBlock = genesis_hash,
      nSubsidyHalvingInterval = 210000,
      script_flag_exceptions =
        [uint256_of 0x00000000dd30457c001f4095d208cc1296b0eed002427aa599874af7a432b105 \<mapsto> SCRIPT_VERIFY_NONE],
      BIP34Height = 21111,
      BIP34Hash = uint256_of 0x0000000023b3a96d3484e5abb3755c413e7d41500f8e2a5c3f0dd01299cd8ef8,
      BIP65Height = 581885, BIP66Height = 330776, CSVHeight = 770112,
      SegwitHeight = 834624, MinBIP9WarningHeight = 836640,
      vDeployments = deployments (testdummy NEVER_ACTIVE 1512 2016) (taproot_dates 0 1512 2016),
      powLimit = uint256_of 0x00000000ffffffffffffffffffffffffffffffffffffffffffffffffffffffff,
      fPowAllowMinDifficultyBlocks = True, enforce_BIP94 = False, fPowNoRetargeting = False,
      nPowTargetSpacing = 10 * 60, nPowTargetTimespan = 14 * 24 * 60 * 60,
      nMinimumChainWork = uint256_of 0x0000000000000000000000000000000000000000000016dd270dd94fac1d7632,
      defaultAssumeValid = uint256_of 0x0000000000000065c6c38258e201971a3fdfcc2ceee0dd6e85a6c022d45dee34,
      signet_blocks = False, signet_challenge = []\<rparr>"

definition testnet4_consensus :: "uint256 \<Rightarrow> Params" where
  "testnet4_consensus genesis_hash =
     \<lparr>hashGenesisBlock = genesis_hash,
      nSubsidyHalvingInterval = 210000,
      script_flag_exceptions = Map.empty,
      BIP34Height = 1, BIP34Hash = uint256_0, BIP65Height = 1, BIP66Height = 1, CSVHeight = 1,
      SegwitHeight = 1, MinBIP9WarningHeight = 0,
      vDeployments = deployments (testdummy NEVER_ACTIVE 1512 2016) (taproot_always 1512 2016),
      powLimit = uint256_of 0x00000000ffffffffffffffffffffffffffffffffffffffffffffffffffffffff,
      fPowAllowMinDifficultyBlocks = True, enforce_BIP94 = True, fPowNoRetargeting = False,
      nPowTargetSpacing = 10 * 60, nPowTargetTimespan = 14 * 24 * 60 * 60,
      nMinimumChainWork = uint256_of 0x00000000000000000000000000000000000000000000034a4690fe592dc49c7c,
      defaultAssumeValid = uint256_of 0x000000000000000180a58e7fa3b0db84b5ea76377524894f53660d93ac839d9b,
      signet_blocks = False, signet_challenge = []\<rparr>"

text \<open>\<open>options.challenge\<close> of the signet, or the default challenge with its own chain work and assumed block.\<close>

definition default_challenge :: bytes where
  "default_challenge = rev (words_of_nat 71
     0x512103ad5e0edad18cb1f0fc0d28a3d4f1f3e445640337489abb10404f2d1e086be430210359ef5021964fe22d6f8e05b2463c9540ce96883fe3b278760f048f5189f2e6c452ae)"

definition signet_consensus :: "bytes option \<Rightarrow> uint256 \<Rightarrow> Params" where
  "signet_consensus challenge genesis_hash =
     \<lparr>hashGenesisBlock = genesis_hash,
      nSubsidyHalvingInterval = 210000,
      script_flag_exceptions = Map.empty,
      BIP34Height = 1, BIP34Hash = uint256_0, BIP65Height = 1, BIP66Height = 1, CSVHeight = 1,
      SegwitHeight = 1, MinBIP9WarningHeight = 0,
      vDeployments = deployments (testdummy NEVER_ACTIVE 1815 2016) (taproot_always 1815 2016),
      powLimit = uint256_of 0x00000377ae000000000000000000000000000000000000000000000000000000,
      fPowAllowMinDifficultyBlocks = False, enforce_BIP94 = False, fPowNoRetargeting = False,
      nPowTargetSpacing = 10 * 60, nPowTargetTimespan = 14 * 24 * 60 * 60,
      nMinimumChainWork =
        (if challenge = None then uint256_of 0x0000000000000000000000000000000000000000000000000000067d328e681a
         else uint256_0),
      defaultAssumeValid =
        (if challenge = None then uint256_of 0x000000128586e26813922680309f04e1de713c7542fee86ed908f56368aefe2e
         else uint256_0),
      signet_blocks = True,
      signet_challenge = (case challenge of None \<Rightarrow> default_challenge | Some bin \<Rightarrow> bin)\<rparr>"

text \<open>The options of regtest: overridden activation heights and deployment dates, the two unordered maps as lists of pairs.\<close>

record VersionBitsParameters =
  vb_start_time :: int
  vb_timeout :: int
  vb_min_activation_height :: int

record RegTestOptions =
  version_bits_parameters :: "(DeploymentPos \<times> VersionBitsParameters) list"
  activation_heights :: "(BuriedDeployment \<times> int) list"
  fastprune :: bool
  enforce_bip94 :: bool

fun set_activation_height :: "BuriedDeployment \<times> int \<Rightarrow> Params \<Rightarrow> Params" where
  "set_activation_height (DEPLOYMENT_SEGWIT, height) c = c\<lparr>SegwitHeight := height\<rparr>"
| "set_activation_height (DEPLOYMENT_HEIGHTINCB, height) c = c\<lparr>BIP34Height := height\<rparr>"
| "set_activation_height (DEPLOYMENT_DERSIG, height) c = c\<lparr>BIP66Height := height\<rparr>"
| "set_activation_height (DEPLOYMENT_CLTV, height) c = c\<lparr>BIP65Height := height\<rparr>"
| "set_activation_height (DEPLOYMENT_CSV, height) c = c\<lparr>CSVHeight := height\<rparr>"

fun set_version_bits :: "DeploymentPos \<times> VersionBitsParameters \<Rightarrow> Params \<Rightarrow> Params" where
  "set_version_bits (pos, vb) c =
     c\<lparr>vDeployments := (vDeployments c)(pos := (vDeployments c pos)
       \<lparr>dep_nStartTime := vb_start_time vb, dep_nTimeout := vb_timeout vb,
        dep_min_activation_height := vb_min_activation_height vb\<rparr>)\<rparr>"

definition regtest_consensus :: "RegTestOptions \<Rightarrow> uint256 \<Rightarrow> Params" where
  "regtest_consensus opts genesis_hash =
     fold set_version_bits (version_bits_parameters opts)
      (fold set_activation_height (activation_heights opts)
       \<lparr>hashGenesisBlock = genesis_hash,
        nSubsidyHalvingInterval = 150,
        script_flag_exceptions = Map.empty,
        BIP34Height = 1, BIP34Hash = uint256_0, BIP65Height = 1, BIP66Height = 1, CSVHeight = 1,
        SegwitHeight = 0, MinBIP9WarningHeight = 0,
        vDeployments = deployments (testdummy 0 108 144) (taproot_always 108 144),
        powLimit = uint256_of 0x000fffffffffffffffffffffffffffffffffffffffffffffffffffffffffffff,
        fPowAllowMinDifficultyBlocks = True, enforce_BIP94 = enforce_bip94 opts, fPowNoRetargeting = True,
        nPowTargetSpacing = 10 * 60, nPowTargetTimespan = 24 * 60 * 60,
        nMinimumChainWork = uint256_0, defaultAssumeValid = uint256_0,
        signet_blocks = False, signet_challenge = []\<rparr>)"

section \<open>The parameters of the difficulty algorithm\<close>

lemma val_uint256_of: "n < 2 ^ 256 \<Longrightarrow> val_le (uint256_of n) = n"
  by (simp add: uint256_of_def val_le_words_of_nat)

lemma length_uint256_of [simp]: "length (uint256_of n) = 32"
  by (simp add: uint256_of_def)

lemma main_powLimit: "val_le (powLimit (main_consensus g)) = 2 ^ 244 - 1"
  by (simp add: main_consensus_def val_uint256_of)

lemma set_activation_height_pow [simp]:
  "powLimit (set_activation_height h c) = powLimit c"
  "nPowTargetSpacing (set_activation_height h c) = nPowTargetSpacing c"
  by (cases "(h, c)" rule: set_activation_height.cases, simp_all)+

lemma fold_set_activation_height [simp]:
  "powLimit (fold set_activation_height hs c) = powLimit c"
  "nPowTargetSpacing (fold set_activation_height hs c) = nPowTargetSpacing c"
  by (induction hs arbitrary: c) simp_all

lemma fold_set_version_bits [simp]:
  "powLimit (fold set_version_bits vs c) = powLimit c"
  "nPowTargetSpacing (fold set_version_bits vs c) = nPowTargetSpacing c"
  by (induction vs arbitrary: c) auto

text \<open>Every network meets the side conditions under which the moving average is analysed.\<close>

definition lwma_params :: "Params \<Rightarrow> bool" where
  "lwma_params params \<longleftrightarrow> length (powLimit params) = 32 \<and> val_le (powLimit params) < 2 ^ 244 \<and>
     0 < nPowTargetSpacing params \<and> nPowTargetSpacing params < 2 ^ 32"

lemma networks_lwma_params:
  "lwma_params (main_consensus g)" "lwma_params (testnet_consensus g)" "lwma_params (testnet4_consensus g)"
  "lwma_params (signet_consensus c g)" "lwma_params (regtest_consensus opts g)"
  by (simp_all add: lwma_params_def main_consensus_def testnet_consensus_def testnet4_consensus_def
      signet_consensus_def regtest_consensus_def val_uint256_of)

lemma main_window:
  assumes "wf_index M" "M p = Some b" "90 \<le> nHeight b"
    and "\<forall>j<90. block_target (nth_back M p j) \<le> val_le (powLimit (main_consensus g))"
  shows "lwma_window (main_consensus g) M p"
  using networks_lwma_params(1)[of g] assms unfolding lwma_window_def lwma_params_def by blast

end
