(* ===== verification/Serialize.thy ===== *)
theory Serialize
  imports Arith_Uint256
begin

text \<open>
  Serialization (\<open>serialize.h\<close>).  Writing to a stream is the list of bytes written; reading takes the
  bytes still in the stream and returns the object and the rest, or \<open>None\<close> where the source throws
  \<open>std::ios_base::failure\<close> (end of data, a non-canonical or oversized length, an out-of-range
  varint).  The locale \<open>codec\<close> states the contract of a format: what was written is read back, and
  only the bytes the writer produces are accepted.  It is interpreted for the integers,
  \<open>CompactSize\<close>, \<open>VarInt\<close> and byte vectors, and lifted to vectors of any element type; the
  batched reads of the source are shown to be equal to unbatched ones.
\<close>

section \<open>Model\<close>

type_synonym 'a reader = "bytes \<Rightarrow> ('a \<times> bytes) option"

definition MAX_SIZE :: u64 where
  "MAX_SIZE = 0x02000000"

definition MAX_VECTOR_ALLOCATE :: nat where
  "MAX_VECTOR_ALLOCATE = 5000000"

subsection \<open>Integers\<close>

text \<open>\<open>read(span)\<close>: take exactly \<open>n\<close> bytes, or throw at the end of the data.\<close>

definition stream_read :: "nat \<Rightarrow> bytes reader" where
  "stream_read n s = (if length s < n then None else Some (take n s, drop n s))"

text \<open>The little-endian bytes of an integer object, and back.\<close>

definition le_bytes :: "'a::len word \<Rightarrow> bytes" where
  "le_bytes x = words_of_nat (LENGTH('a) div 8) (unat x)"

definition le_read :: "'a::len word reader" where
  "le_read s = do { (b, s) \<leftarrow> stream_read (LENGTH('a) div 8) s; Some (word_of_nat (val_le b), s) }"

definition ser_writedata8 :: "u8 \<Rightarrow> bytes" where
  "ser_writedata8 obj = [obj]"

definition ser_writedata16 :: "u16 \<Rightarrow> bytes" where
  "ser_writedata16 obj = le_bytes obj"

definition ser_writedata32 :: "u32 \<Rightarrow> bytes" where
  "ser_writedata32 obj = le_bytes obj"

definition ser_writedata64 :: "u64 \<Rightarrow> bytes" where
  "ser_writedata64 obj = le_bytes obj"

definition ser_readdata8 :: "u8 reader" where
  "ser_readdata8 s = (case s of [] \<Rightarrow> None | b # s \<Rightarrow> Some (b, s))"

definition ser_readdata16 :: "u16 reader" where
  "ser_readdata16 = le_read"

definition ser_readdata32 :: "u32 reader" where
  "ser_readdata32 = le_read"

definition ser_readdata64 :: "u64 reader" where
  "ser_readdata64 = le_read"

definition Serialize_int32 :: "int \<Rightarrow> bytes" where
  "Serialize_int32 a = ser_writedata32 (word_of_int a)"

definition Unserialize_int32 :: "int reader" where
  "Unserialize_int32 s = do { (w, s) \<leftarrow> ser_readdata32 s; Some (sint w, s) }"

definition Serialize_int64 :: "int \<Rightarrow> bytes" where
  "Serialize_int64 a = ser_writedata64 (word_of_int a)"

definition Unserialize_int64 :: "int reader" where
  "Unserialize_int64 s = do { (w, s) \<leftarrow> ser_readdata64 s; Some (sint w, s) }"

subsection \<open>Compact sizes\<close>

definition GetSizeOfCompactSize :: "u64 \<Rightarrow> nat" where
  "GetSizeOfCompactSize nSize =
     (if nSize < 253 then 1 else if nSize \<le> 0xffff then 1 + 2
      else if nSize \<le> 0xffffffff then 1 + 4 else 1 + 8)"

definition WriteCompactSize :: "u64 \<Rightarrow> bytes" where
  "WriteCompactSize nSize =
     (if nSize < 253 then ser_writedata8 (ucast nSize)
      else if nSize \<le> 0xffff then ser_writedata8 253 @ ser_writedata16 (ucast nSize)
      else if nSize \<le> 0xffffffff then ser_writedata8 254 @ ser_writedata32 (ucast nSize)
      else ser_writedata8 255 @ ser_writedata64 nSize)"

definition ReadCompactSize :: "bool \<Rightarrow> u64 reader" where
  "ReadCompactSize range_check s =
     do { (chSize, s) \<leftarrow> ser_readdata8 s;
          (nSizeRet, s) \<leftarrow>
            (if chSize < 253 then Some (ucast chSize, s)
             else if chSize = 253 then do { (n, s) \<leftarrow> ser_readdata16 s;
                    if (ucast n :: u64) < 253 then None else Some (ucast n, s) }
             else if chSize = 254 then do { (n, s) \<leftarrow> ser_readdata32 s;
                    if (ucast n :: u64) < 0x10000 then None else Some (ucast n, s) }
             else do { (n, s) \<leftarrow> ser_readdata64 s;
                    if n < 0x100000000 then None else Some (n, s) });
          if range_check \<and> nSizeRet > MAX_SIZE then None else Some (nSizeRet, s) }"

subsection \<open>Variable-length integers\<close>

lemma unat_varint_next:
  fixes n :: "'a::len word"
  assumes "\<not> unat n \<le> 127"
  shows "unat (drop_bit 7 n - 1) = unat n div 128 - 1"
proof -
  have d: "unat (drop_bit 7 n) = unat n div 128" unfolding unat_drop_bit_eq unfolding drop_bit_eq_div by simp
  have "0 < unat n div 128" using assms by simp
  then have "drop_bit 7 n \<noteq> 0" using d by (metis unat_0 less_not_refl)
  then have "unat (drop_bit 7 n - 1) = unat (drop_bit 7 n) - 1" by (rule unat_minus_one)
  then show ?thesis unfolding d .
qed

lemma varint_next_less: "\<not> unat n \<le> 127 \<Longrightarrow> unat (drop_bit 7 n - 1) < unat n"
  using unat_varint_next[of n] by (simp add: less_imp_diff_less)

text \<open>The buffer \<open>tmp\<close> of \<open>WriteVarInt\<close>, least significant digit first; the bytes go out in reverse.\<close>

function varint_tmp :: "'a::len word \<Rightarrow> nat \<Rightarrow> bytes" where
  "varint_tmp n len =
     (let b = ucast (n AND 0x7F) OR (if len \<noteq> 0 then 0x80 else 0) in
      if unat n \<le> 0x7F then [b] else b # varint_tmp (drop_bit 7 n - 1) (len + 1))"
  by pat_completeness auto
termination
  by (relation "measure (\<lambda>(n, len). unat n)") (auto simp: varint_next_less)

declare varint_tmp.simps [simp del]

definition WriteVarInt :: "'a::len word \<Rightarrow> bytes" where
  "WriteVarInt n = rev (varint_tmp n 0)"

text \<open>The loop of \<open>GetSizeOfVarInt\<close>.\<close>

function GetSizeOfVarInt :: "'a::len word \<Rightarrow> nat" where
  "GetSizeOfVarInt n = (if unat n \<le> 0x7F then 1 else 1 + GetSizeOfVarInt (drop_bit 7 n - 1))"
  by pat_completeness auto
termination
  by (relation "measure unat") (auto simp: varint_next_less)

declare GetSizeOfVarInt.simps [simp del]

fun varint_loop :: "'a::len word \<Rightarrow> 'a word reader" where
  "varint_loop n [] = None"
| "varint_loop n (chData # s) =
     (if n > drop_bit 7 (- 1) then None
      else let n = push_bit 7 n OR ucast (chData AND 0x7F) in
        if chData AND 0x80 \<noteq> 0 then (if n = - 1 then None else varint_loop (n + 1) s)
        else Some (n, s))"

definition ReadVarInt :: "'a::len word reader" where
  "ReadVarInt s = varint_loop 0 s"

subsection \<open>Vectors\<close>

definition Serialize_vector :: "('a \<Rightarrow> bytes) \<Rightarrow> 'a list \<Rightarrow> bytes" where
  "Serialize_vector ser v = WriteCompactSize (of_nat (length v)) @ concat (map ser v)"

text \<open>\<open>n\<close> elements, one after the other.\<close>

fun read_elems :: "'a reader \<Rightarrow> nat \<Rightarrow> 'a list reader" where
  "read_elems unser 0 s = Some ([], s)"
| "read_elems unser (Suc n) s =
     do { (x, s) \<leftarrow> unser s; (xs, s) \<leftarrow> read_elems unser n s; Some (x # xs, s) }"

text \<open>
  \<open>VectorFormatter::Unser\<close> allocates in batches of \<open>batch\<close> elements (\<open>MAX_VECTOR_ALLOCATE\<close> over the size
  of an element, which the compiler fixes and a \<open>static_assert\<close> keeps positive).
\<close>

function vector_loop :: "'a reader \<Rightarrow> nat \<Rightarrow> nat \<Rightarrow> nat \<Rightarrow> 'a list \<Rightarrow> 'a list reader" where
  "vector_loop unser batch nSize allocated v s =
     (if allocated < nSize \<and> 0 < batch
      then let allocated' = min nSize (allocated + batch) in
        do { (xs, s) \<leftarrow> read_elems unser (allocated' - length v) s;
             vector_loop unser batch nSize allocated' (v @ xs) s }
      else Some (v, s))"
  by pat_completeness auto
termination
  by (relation "measure (\<lambda>(unser, batch, nSize, allocated, v, s). nSize - allocated)") auto

declare vector_loop.simps [simp del]

definition Unserialize_vector :: "nat \<Rightarrow> 'a reader \<Rightarrow> 'a list reader" where
  "Unserialize_vector batch unser s =
     do { (nSize, s) \<leftarrow> ReadCompactSize True s; vector_loop unser batch (unat nSize) 0 [] s }"

text \<open>
  Vectors of bytes are written as one block and read in blocks of 5000000 bytes; the overloads for
  \<open>std::vector\<close> and \<open>prevector\<close> are the same code.
\<close>

definition Serialize_bytes :: "bytes \<Rightarrow> bytes" where
  "Serialize_bytes v = WriteCompactSize (of_nat (length v)) @ v"

function bytes_loop :: "nat \<Rightarrow> nat \<Rightarrow> bytes \<Rightarrow> bytes reader" where
  "bytes_loop nSize i v s =
     (if i < nSize
      then let blk = min (nSize - i) (1 + 4999999) in
        do { (b, s) \<leftarrow> stream_read blk s; bytes_loop nSize (i + blk) (v @ b) s }
      else Some (v, s))"
  by pat_completeness auto
termination
  by (relation "measure (\<lambda>(nSize, i, v, s). nSize - i)") auto

declare bytes_loop.simps [simp del]

definition Unserialize_bytes :: "bytes reader" where
  "Unserialize_bytes s =
     do { (nSize, s) \<leftarrow> ReadCompactSize True s; bytes_loop (unat (ucast nSize :: u32)) 0 [] s }"

section \<open>The contract of a format\<close>

locale codec =
  fixes ser :: "'a \<Rightarrow> bytes" and unser :: "'a reader" and ok :: "'a \<Rightarrow> bool"
  assumes unser_ser: "ok x \<Longrightarrow> unser (ser x @ s) = Some (x, s)"
    and unser_sound: "unser s = Some (x, s') \<Longrightarrow> ok x \<and> s = ser x @ s'"
begin

lemma ser_inject:
  assumes "ok x" "ok y" "ser x @ s = ser y @ t"
  shows "x = y \<and> s = t"
proof -
  have "Some (x, s) = Some (y, t)"
    using unser_ser[OF assms(1), of s] unser_ser[OF assms(2), of t] unfolding assms(3) by (rule trans[OF sym])
  then show ?thesis by simp
qed

lemma unser_iff: "unser s = Some (x, s') \<longleftrightarrow> ok x \<and> s = ser x @ s'"
  using unser_ser unser_sound by blast

lemma read_elems_ser:
  "\<forall>x\<in>set xs. ok x \<Longrightarrow> read_elems unser (length xs) (concat (map ser xs) @ s) = Some (xs, s)"
  by (induction xs) (simp_all add: unser_ser)

lemma read_elems_sound:
  "read_elems unser n s = Some (xs, s') \<Longrightarrow>
    length xs = n \<and> (\<forall>x\<in>set xs. ok x) \<and> s = concat (map ser xs) @ s'"
  by (induction n arbitrary: s xs) (auto simp: bind_eq_Some_conv dest!: unser_sound)

end

lemma read_elems_add:
  "read_elems unser (m + n) s =
    do { (xs, s) \<leftarrow> read_elems unser m s; (ys, s) \<leftarrow> read_elems unser n s; Some (xs @ ys, s) }"
  by (induction m arbitrary: s) (auto split: bind_splits simp: bind_eq_Some_conv bind_eq_None_conv)

lemma length_read_elems: "read_elems unser n s = Some (xs, s') \<Longrightarrow> length xs = n"
  by (induction n arbitrary: s xs) (auto simp: bind_eq_Some_conv)

text \<open>Reading in batches is reading the elements one after the other.\<close>

lemma vector_loop_eq:
  assumes "0 < batch"
  shows "length v = allocated \<Longrightarrow> allocated \<le> n \<Longrightarrow> vector_loop unser batch n allocated v s =
    do { (xs, s) \<leftarrow> read_elems unser (n - allocated) s; Some (v @ xs, s) }"
proof (induction "n - allocated" arbitrary: allocated v s rule: less_induct)
  case less
  show ?case
  proof (cases "allocated < n")
    case False
    then show ?thesis using less.prems by (simp add: vector_loop.simps)
  next
    case True
    let ?a = "min n (allocated + batch)"
    have split: "n - allocated = (?a - allocated) + (n - ?a)" using True by simp
    show ?thesis
    proof (cases "read_elems unser (?a - allocated) s")
      case None
      have "read_elems unser (n - allocated) s = None"
        unfolding split read_elems_add using None by simp
      then show ?thesis using True assms None less.prems(1)
        by (simp add: vector_loop.simps[of unser batch n allocated] Let_def)
    next
      case (Some r)
      obtain xs t where r: "r = (xs, t)" by (cases r)
      have len: "length xs = ?a - allocated" using Some r by (simp add: length_read_elems)
      have "vector_loop unser batch n allocated v s = vector_loop unser batch n ?a (v @ xs) t"
        using True assms Some r less.prems(1)
        by (simp add: vector_loop.simps[of unser batch n allocated] Let_def)
      also have "\<dots> = do { (ys, u) \<leftarrow> read_elems unser (n - ?a) t; Some ((v @ xs) @ ys, u) }"
        using True assms len less.prems(1) by (intro less.hyps) auto
      also have "\<dots> = do { (ys, u) \<leftarrow> read_elems unser (n - allocated) s; Some (v @ ys, u) }"
        unfolding split read_elems_add using Some r by (auto split: bind_splits)
      finally show ?thesis .
    qed
  qed
qed

lemma stream_read_add:
  "stream_read (m + k) s = do { (a, s) \<leftarrow> stream_read m s; (b, s) \<leftarrow> stream_read k s; Some (a @ b, s) }"
  by (auto simp: stream_read_def take_add add.commute[of k m])

lemma bytes_loop_eq:
  "i \<le> n \<Longrightarrow> bytes_loop n i v s = do { (b, s) \<leftarrow> stream_read (n - i) s; Some (v @ b, s) }"
proof (induction "n - i" arbitrary: i v s rule: less_induct)
  case less
  show ?case
  proof (cases "i < n")
    case False
    then show ?thesis using less.prems by (simp add: bytes_loop.simps stream_read_def)
  next
    case True
    let ?blk = "min (n - i) (1 + 4999999)"
    have "bytes_loop n i v s =
        do { (b, s) \<leftarrow> stream_read ?blk s; bytes_loop n (i + ?blk) (v @ b) s }"
      using True by (simp add: bytes_loop.simps[of n i] Let_def)
    also have "\<dots> = do { (b, s) \<leftarrow> stream_read ?blk s;
        (c, s) \<leftarrow> stream_read (n - (i + ?blk)) s; Some ((v @ b) @ c, s) }"
      using True less.hyps[of "i + ?blk"] by simp
    also have "\<dots> = do { (b, s) \<leftarrow> stream_read (n - i) s; Some (v @ b, s) }"
    proof -
      define k where "k = n - (i + ?blk)"
      have "?blk + k = n - i" unfolding k_def by simp
      then have "stream_read (n - i) s = do { (a, s) \<leftarrow> stream_read ?blk s; (b, s) \<leftarrow> stream_read k s; Some (a @ b, s) }"
        using stream_read_add[of ?blk k s] by simp
      then show ?thesis unfolding k_def[symmetric] by (simp split: bind_splits prod.splits)
    qed
    finally show ?thesis .
  qed
qed

section \<open>Integers\<close>

lemma length_le_bytes [simp]: "length (le_bytes (x :: 'a::len word)) = LENGTH('a) div 8"
  by (simp add: le_bytes_def)

lemma le_codec:
  assumes d: "8 * (LENGTH('a) div 8) = LENGTH('a)"
  shows "codec (le_bytes :: 'a::len word \<Rightarrow> bytes) le_read (\<lambda>_. True)"
proof
  have v: "val_le (le_bytes x) = unat x" for x :: "'a word"
    using unsigned_less[of x, where ?'a = nat] by (simp add: le_bytes_def val_le_words_of_nat d)
  fix x :: "'a word" and s s' :: bytes
  show "le_read (le_bytes x @ s) = Some (x, s)"
    by (simp add: le_read_def stream_read_def v)
  assume "le_read s = Some (x, s')"
  then have s: "LENGTH('a) div 8 \<le> length s" "x = word_of_nat (val_le (take (LENGTH('a) div 8) s))"
    "s' = drop (LENGTH('a) div 8) s"
    by (auto simp: le_read_def stream_read_def split: if_splits)
  let ?b = "take (LENGTH('a) div 8) s"
  have "length ?b = LENGTH('a) div 8" using s(1) by simp
  then have "val_le ?b < 2 ^ LENGTH('a)" using val_le_less[of ?b] d by simp
  then have "unat x = val_le ?b" by (simp add: s(2) unat_of_nat)
  then have "le_bytes x = ?b" using s(1) by (simp add: le_bytes_def words_of_nat_val_le)
  then show "True \<and> s = le_bytes x @ s'" by (simp add: s(3))
qed

interpretation u8_codec: codec ser_writedata8 ser_readdata8 "\<lambda>_. True"
  by unfold_locales (auto simp: ser_writedata8_def ser_readdata8_def split: list.splits)

interpretation u16_codec: codec ser_writedata16 ser_readdata16 "\<lambda>_. True"
  unfolding ser_writedata16_def ser_readdata16_def by (rule le_codec) simp

interpretation u32_codec: codec ser_writedata32 ser_readdata32 "\<lambda>_. True"
  unfolding ser_writedata32_def ser_readdata32_def by (rule le_codec) simp

interpretation u64_codec: codec ser_writedata64 ser_readdata64 "\<lambda>_. True"
  unfolding ser_writedata64_def ser_readdata64_def by (rule le_codec) simp

interpretation int32_codec: codec Serialize_int32 Unserialize_int32 "\<lambda>a. - (2 ^ 31) \<le> a \<and> a < 2 ^ 31"
proof unfold_locales
  fix x s assume "- (2 ^ 31) \<le> x \<and> x < (2::int) ^ 31"
  then have "sint (word_of_int x :: u32) = x"
    by (simp add: signed_of_int signed_take_bit_int_eq_self)
  then show "Unserialize_int32 (Serialize_int32 x @ s) = Some (x, s)"
    by (simp add: Unserialize_int32_def Serialize_int32_def u32_codec.unser_ser)
next
  fix s x s' assume "Unserialize_int32 s = Some (x, s')"
  then obtain w where w: "ser_readdata32 s = Some (w, s')" "x = sint w"
    by (auto simp: Unserialize_int32_def bind_eq_Some_conv)
  then show "(- (2 ^ 31) \<le> x \<and> x < 2 ^ 31) \<and> s = Serialize_int32 x @ s'"
    using u32_codec.unser_sound[OF w(1)] sint_greater_eq[of w] sint_less[of w]
    by (simp add: Serialize_int32_def)
qed

interpretation int64_codec: codec Serialize_int64 Unserialize_int64 "\<lambda>a. - (2 ^ 63) \<le> a \<and> a < 2 ^ 63"
proof unfold_locales
  fix x s assume "- (2 ^ 63) \<le> x \<and> x < (2::int) ^ 63"
  then have "sint (word_of_int x :: u64) = x"
    by (simp add: signed_of_int signed_take_bit_int_eq_self)
  then show "Unserialize_int64 (Serialize_int64 x @ s) = Some (x, s)"
    by (simp add: Unserialize_int64_def Serialize_int64_def u64_codec.unser_ser)
next
  fix s x s' assume "Unserialize_int64 s = Some (x, s')"
  then obtain w where w: "ser_readdata64 s = Some (w, s')" "x = sint w"
    by (auto simp: Unserialize_int64_def bind_eq_Some_conv)
  then show "(- (2 ^ 63) \<le> x \<and> x < 2 ^ 63) \<and> s = Serialize_int64 x @ s'"
    using u64_codec.unser_sound[OF w(1)] sint_greater_eq[of w] sint_less[of w]
    by (simp add: Serialize_int64_def)
qed

section \<open>Compact sizes\<close>

lemma length_WriteCompactSize: "length (WriteCompactSize n) = GetSizeOfCompactSize n"
  by (simp add: WriteCompactSize_def GetSizeOfCompactSize_def ser_writedata8_def ser_writedata16_def
      ser_writedata32_def ser_writedata64_def)

lemma ucast_down_up_u64:
  assumes "unat (n :: u64) < 2 ^ LENGTH('a)"
  shows "ucast (ucast n :: 'a::len word) = n"
proof -
  have "unat n < 2 ^ 64" using unsigned_less[of n, where ?'a = nat] by simp
  have d: "unat (ucast n :: 'a word) = unat n"
    unfolding unsigned_ucast_eq using assms by (rule take_bit_nat_eq_self)
  have "unat (ucast (ucast n :: 'a word) :: u64) = take_bit LENGTH(64) (unat (ucast n :: 'a word))"
    by (rule unsigned_ucast_eq)
  then have "unat (ucast (ucast n :: 'a word) :: u64) = unat n"
    unfolding d using \<open>unat n < 2 ^ 64\<close> by (simp only: take_bit_nat_eq_self len_num0 len_num1) (simp add: take_bit_nat_eq_self)
  then show ?thesis by (simp only: word_unat_eq_iff)
qed

lemma ucast_up_down: "LENGTH('a) \<le> LENGTH('b) \<Longrightarrow> ucast (ucast (x :: 'a::len word) :: 'b::len word) = x"
  by (rule bit_word_eqI) (simp add: bit_ucast_iff)

lemma ReadCompactSize_Write:
  assumes "range_check \<Longrightarrow> n \<le> MAX_SIZE"
  shows "ReadCompactSize range_check (WriteCompactSize n @ s) = Some (n, s)"
proof -
  have fin: "(if range_check \<and> n > MAX_SIZE then None else Some (n, s)) = Some (n, s)"
    using assms by auto
  consider "n < 253" | "\<not> n < 253" "n \<le> 0xffff" | "\<not> n \<le> 0xffff" "n \<le> 0xffffffff" | "\<not> n \<le> 0xffffffff"
    by blast
  then show ?thesis
  proof cases
    case 1
    then have u: "unat n < 253" by (simp add: word_less_nat_alt)
    then have "ucast (ucast n :: u8) = n" by (intro ucast_down_up_u64) simp
    moreover have "(ucast n :: u8) < 253" using u by (simp add: word_less_nat_alt unsigned_ucast_eq take_bit_nat_eq_self)
    ultimately show ?thesis using 1 fin by (simp add: ReadCompactSize_def WriteCompactSize_def u8_codec.unser_ser)
  next
    case 2
    then have "unat n < 2 ^ 16" by (simp add: word_le_nat_alt)
    then have "ucast (ucast n :: u16) = n" by (intro ucast_down_up_u64) simp
    then show ?thesis using 2 fin
      by (simp add: ReadCompactSize_def WriteCompactSize_def u8_codec.unser_ser u16_codec.unser_ser)
  next
    case 3
    then have u: "unat n < 2 ^ 32" "0x10000 \<le> unat n" by (simp_all add: word_le_nat_alt)
    then have "ucast (ucast n :: u32) = n" by (intro ucast_down_up_u64) simp
    moreover have "\<not> n < 253" "\<not> n < 0x10000" using u(2) by (simp_all add: word_less_nat_alt)
    ultimately show ?thesis using 3 fin
      by (simp add: ReadCompactSize_def WriteCompactSize_def u8_codec.unser_ser u32_codec.unser_ser)
  next
    case 4
    then have u: "0x100000000 \<le> unat n" by (simp add: word_le_nat_alt)
    have "\<not> n < 253" "\<not> n \<le> 0xffff" "\<not> n < 0x100000000" using u by (simp_all add: word_less_nat_alt word_le_nat_alt)
    then show ?thesis using 4 fin
      by (simp add: ReadCompactSize_def WriteCompactSize_def u8_codec.unser_ser u64_codec.unser_ser)
  qed
qed


lemma unat_ucast_up: "LENGTH('a) \<le> LENGTH('b) \<Longrightarrow> unat (ucast (x :: 'a::len word) :: 'b::len word) = unat x"
proof -
  assume "LENGTH('a) \<le> LENGTH('b)"
  then have "(2::nat) ^ LENGTH('a) \<le> 2 ^ LENGTH('b)" by (intro power_increasing) simp_all
  then have "unat x < 2 ^ LENGTH('b)" using unsigned_less[of x, where ?'a = nat] by linarith
  then show ?thesis unfolding unsigned_ucast_eq by (rule take_bit_nat_eq_self)
qed

lemma ReadCompactSize_sound:
  assumes "ReadCompactSize range_check s = Some (n, s')"
  shows "(range_check \<longrightarrow> n \<le> MAX_SIZE) \<and> s = WriteCompactSize n @ s'"
proof -
  obtain ch t where ch: "s = ch # t" using assms by (cases s) (auto simp: ReadCompactSize_def ser_readdata8_def)
  have rd: "ser_readdata8 s = Some (ch, t)" by (simp add: ch ser_readdata8_def)
  obtain m u where m: "(if ch < 253 then Some (ucast ch, t)
             else if ch = 253 then do { (n, s) \<leftarrow> ser_readdata16 t;
                    if (ucast n :: u64) < 253 then None else Some (ucast n, s) }
             else if ch = 254 then do { (n, s) \<leftarrow> ser_readdata32 t;
                    if (ucast n :: u64) < 0x10000 then None else Some (ucast n, s) }
             else do { (n, s) \<leftarrow> ser_readdata64 t;
                    if n < 0x100000000 then None else Some (n, s) }) = Some (m, u)"
    and fin: "m = n" "u = s'" "range_check \<longrightarrow> n \<le> MAX_SIZE"
    using assms rd by (auto simp: ReadCompactSize_def bind_eq_Some_conv not_less split: if_splits)
  consider "ch < 253" | "ch = 253" | "ch = 254" | "ch = 255"
  proof -
    have "unat ch < 256" using unsigned_less[of ch, where ?'a = nat] by simp
    then have "unat ch < 253 \<or> unat ch = 253 \<or> unat ch = 254 \<or> unat ch = 255" by linarith
    then show thesis using that by (auto simp: word_less_nat_alt word_unat_eq_iff)
  qed
  then have "s = WriteCompactSize n @ s'"
  proof cases
    case 1
    have u: "unat n = unat ch" "n = ucast ch" using m 1 fin by (auto simp: unat_ucast_up)
    then have "n < 253" using 1 by (simp add: word_less_nat_alt)
    then show ?thesis using m 1 fin u(2) ch by (simp add: WriteCompactSize_def ser_writedata8_def ucast_up_down)
  next
    case 2
    then obtain w where w: "ser_readdata16 t = Some (w, s')" "n = ucast w" "\<not> n < 253"
      using m fin by (auto simp: bind_eq_Some_conv split: if_splits)
    have "n \<le> 0xffff" using unsigned_less[of w, where ?'a = nat] w(2) by (simp add: word_le_nat_alt unat_ucast_up)
    then show ?thesis using w u16_codec.unser_sound[OF w(1)] ch 2 by (simp add: WriteCompactSize_def ser_writedata8_def ucast_up_down)
  next
    case 3
    then obtain w where w: "ser_readdata32 t = Some (w, s')" "n = ucast w" "\<not> n < 0x10000"
      using m fin by (auto simp: bind_eq_Some_conv split: if_splits)
    have "n \<le> 0xffffffff" "\<not> n < 253" "\<not> n \<le> 0xffff"
      using unsigned_less[of w, where ?'a = nat] w(2,3) by (simp_all add: word_le_nat_alt word_less_nat_alt unat_ucast_up)
    then show ?thesis using w u32_codec.unser_sound[OF w(1)] ch 3 by (simp add: WriteCompactSize_def ser_writedata8_def ucast_up_down)
  next
    case 4
    then have w: "ser_readdata64 t = Some (n, s')" "\<not> n < 0x100000000"
      using m fin by (auto simp: bind_eq_Some_conv split: if_splits)
    then have "\<not> n < 253" "\<not> n \<le> 0xffff" "\<not> n \<le> 0xffffffff" by (simp_all add: word_le_nat_alt word_less_nat_alt)
    then show ?thesis using w u64_codec.unser_sound[OF w(1)] ch 4 by (simp add: WriteCompactSize_def ser_writedata8_def)
  qed
  then show ?thesis using fin(3) by blast
qed

interpretation compact_codec: codec WriteCompactSize "ReadCompactSize True" "\<lambda>n. n \<le> MAX_SIZE"
  by unfold_locales (auto simp: ReadCompactSize_Write dest: ReadCompactSize_sound)

interpretation compact_number_codec: codec WriteCompactSize "ReadCompactSize False" "\<lambda>_. True"
  by unfold_locales (auto simp: ReadCompactSize_Write dest: ReadCompactSize_sound)

section \<open>Vectors\<close>

lemma of_nat_le_MAX_SIZE: "n \<le> 0x02000000 \<Longrightarrow> (of_nat n :: u64) \<le> MAX_SIZE \<and> unat (of_nat n :: u64) = n"
  by (simp add: MAX_SIZE_def word_le_nat_alt unat_of_nat)

lemma of_nat_eq_u64: "n < 2 ^ 64 \<Longrightarrow> (of_nat n = (x :: u64)) \<longleftrightarrow> n = unat x"
  by (auto simp: word_unat_eq_iff unat_of_nat)

context codec
begin

text \<open>A format for elements is a format for vectors of them, whatever the batch size.\<close>

lemma vector_codec:
  assumes b: "0 < batch"
  shows "codec (Serialize_vector ser) (Unserialize_vector batch unser)
    (\<lambda>v. length v \<le> 0x02000000 \<and> (\<forall>x\<in>set v. ok x))"
proof
  have loop: "vector_loop unser batch n 0 [] s = read_elems unser n s" for n s
    using vector_loop_eq[OF b, of "[]" 0 n unser s] by (auto split: bind_splits)
  fix v s
  show "Unserialize_vector batch unser (Serialize_vector ser v @ s) = Some (v, s)"
    if v: "length v \<le> 0x02000000 \<and> (\<forall>x\<in>set v. ok x)"
    using v of_nat_le_MAX_SIZE[of "length v"] loop read_elems_ser[of v s]
    by (simp add: Unserialize_vector_def Serialize_vector_def compact_codec.unser_ser)
  fix s'
  assume "Unserialize_vector batch unser s = Some (v, s')"
  then obtain n t where n: "ReadCompactSize True s = Some (n, t)" "read_elems unser (unat n) t = Some (v, s')"
    by (auto simp: Unserialize_vector_def bind_eq_Some_conv loop)
  have r: "length v = unat n" "\<forall>x\<in>set v. ok x" "t = concat (map ser v) @ s'" using read_elems_sound[OF n(2)] by auto
  have c: "n \<le> MAX_SIZE" "s = WriteCompactSize n @ t" using compact_codec.unser_sound[OF n(1)] by auto
  then have "unat n \<le> 0x02000000" by (simp add: MAX_SIZE_def word_le_nat_alt)
  then show "(length v \<le> 0x02000000 \<and> (\<forall>x\<in>set v. ok x)) \<and> s = Serialize_vector ser v @ s'"
    using r c by (simp add: Serialize_vector_def)
qed

end

interpretation bytes_codec: codec Serialize_bytes Unserialize_bytes "\<lambda>v. length v \<le> 0x02000000"
proof unfold_locales
  have u: "unat (ucast n :: u32) = unat n" if "n \<le> MAX_SIZE" for n :: u64
    using that by (simp add: MAX_SIZE_def word_le_nat_alt unsigned_ucast_eq take_bit_nat_eq_self)
  fix v s :: bytes
  show "Unserialize_bytes (Serialize_bytes v @ s) = Some (v, s)" if v: "length v \<le> 0x02000000"
    using of_nat_le_MAX_SIZE[OF v] bytes_loop_eq[of 0 "length v" "[]" "v @ s"]
    by (simp add: Unserialize_bytes_def Serialize_bytes_def compact_codec.unser_ser u stream_read_def)
  fix s'
  assume "Unserialize_bytes s = Some (v, s')"
  then obtain n t where n: "ReadCompactSize True s = Some (n, t)" "bytes_loop (unat (ucast n :: u32)) 0 [] t = Some (v, s')"
    by (auto simp: Unserialize_bytes_def bind_eq_Some_conv)
  have c: "n \<le> MAX_SIZE" "s = WriteCompactSize n @ t" using compact_codec.unser_sound[OF n(1)] by auto
  have r: "v = take (unat n) t" "s' = drop (unat n) t" "unat n \<le> length t"
    using n(2) bytes_loop_eq[of 0 "unat n" "[]" t] u[OF c(1)] by (auto simp: stream_read_def split: if_splits)
  have "unat n \<le> 0x02000000" using c(1) by (simp add: MAX_SIZE_def word_le_nat_alt)
  then show "length v \<le> 0x02000000 \<and> s = Serialize_bytes v @ s'"
    using r c by (simp add: Serialize_bytes_def)
qed

section \<open>Variable-length integers\<close>

text \<open>The bytes and the accumulator in terms of numbers.\<close>

lemma varint_low7: "unat ((b :: u8) AND 0x7F) = unat b mod 128"
proof -
  have "b AND 0x7F = take_bit 7 b" by (simp add: take_bit_eq_mask mask_eq_exp_minus_1)
  then show ?thesis by (simp add: take_bit_eq_mod unat_mod)
qed

lemma varint_cont_iff: "(b :: u8) AND 0x80 \<noteq> 0 \<longleftrightarrow> 128 \<le> unat b"
proof -
  have "b AND 0x80 \<noteq> 0 \<longleftrightarrow> bit b 7" using and_exp_eq_0_iff_not_bit[of b 7] by simp
  also have "\<dots> \<longleftrightarrow> bit (unat b) 7" by (simp add: bit_unsigned_iff)
  also have "\<dots> \<longleftrightarrow> odd (unat b div 128)" by (simp only: bit_iff_odd) simp
  also have "\<dots> \<longleftrightarrow> 128 \<le> unat b"
  proof -
    have "unat b < 256" using unsigned_less[of b, where ?'a = nat] by simp
    then have "unat b div 128 = (if 128 \<le> unat b then 1 else 0)" by auto
    then show ?thesis by simp
  qed
  finally show ?thesis .
qed

lemma varint_digit:
  fixes n :: "'a::len word"
  assumes "7 < LENGTH('a)"
  shows "unat ((ucast (n AND 0x7F) :: u8) OR (if c then 0x80 else 0)) = unat n mod 128 + (if c then 128 else 0)"
proof -
  have m: "n AND 0x7F = take_bit 7 n" by (simp add: take_bit_eq_mask mask_eq_exp_minus_1)
  have u: "unat (take_bit 7 n) = unat n mod 128" unfolding unsigned_take_bit_eq unfolding take_bit_eq_mod by simp
  have l: "unat (ucast (take_bit 7 n) :: u8) = unat n mod 128"
    unfolding unsigned_ucast_eq u by (simp add: take_bit_eq_mod)
  have "(ucast (take_bit 7 n) :: u8) OR 0x80 = ucast (take_bit 7 n) + 0x80"
  proof (rule disjunctive_add[symmetric])
    fix k
    have "bit (0x80 :: u8) k \<longleftrightarrow> k = 7"
      using bit_exp_iff[where 'a = u8, of 7 k] by auto
    then show "\<not> bit (ucast (take_bit 7 n) :: u8) k \<or> \<not> bit (0x80 :: u8) k"
      by (auto simp: bit_ucast_iff bit_take_bit_iff)
  qed
  then have "unat ((ucast (take_bit 7 n) :: u8) OR 0x80) = unat n mod 128 + 128"
    using unat_add_lem[of "ucast (take_bit 7 n) :: u8" "0x80"] l by simp
  then show ?thesis unfolding m using l by simp
qed

lemma varint_step:
  fixes n :: "'a::len word" and b :: u8
  assumes L: "7 < LENGTH('a)" and n: "\<not> n > drop_bit 7 (- 1)"
  shows "unat (push_bit 7 n OR ucast (b AND 0x7F)) = unat n * 128 + unat b mod 128"
    and "unat n * 128 + 127 < 2 ^ LENGTH('a)"
proof -
  have "unat n \<le> unat (drop_bit 7 (- 1 :: 'a word))" using n by (simp add: not_less word_le_nat_alt)
  also have "\<dots> = (2 ^ LENGTH('a) - 1) div 128"
    unfolding unat_drop_bit_eq unsigned_minus_1_eq_mask unfolding drop_bit_eq_div mask_eq_exp_minus_1 by simp
  also have "((2::nat) ^ LENGTH('a) - 1) div 128 = 2 ^ (LENGTH('a) - 7) - 1"
  proof -
    have e: "(2::nat) ^ LENGTH('a) = 128 * 2 ^ (LENGTH('a) - 7)"
      using L power_add[of "2::nat" 7 "LENGTH('a) - 7"] by simp
    obtain y where y: "(2::nat) ^ (LENGTH('a) - 7) = Suc y" using not0_implies_Suc[of "2 ^ (LENGTH('a) - 7)"] by auto
    have "128 * Suc y - 1 = 127 + 128 * y" by simp
    then have "(128 * Suc y - 1) div 128 = y" by (simp only: div_mult_self2)
    then show ?thesis unfolding e y by simp
  qed
  finally have "unat n \<le> 2 ^ (LENGTH('a) - 7) - 1" .
  moreover have "(0::nat) < 2 ^ (LENGTH('a) - 7)" by simp
  ultimately have le: "unat n + 1 \<le> 2 ^ (LENGTH('a) - 7)" by linarith
  have "(unat n + 1) * 128 \<le> 2 ^ (LENGTH('a) - 7) * 128" using le by (rule mult_right_mono) simp
  also have "\<dots> = 2 ^ LENGTH('a)" using L power_add[of "2::nat" "LENGTH('a) - 7" 7] by simp
  finally show bound: "unat n * 128 + 127 < 2 ^ LENGTH('a)" by simp
  have p: "unat (push_bit 7 n) = unat n * 128" using unat_push_bit_exact[of n 7] bound by simp
  have c: "unat (ucast (b AND 0x7F) :: 'a word) = unat b mod 128"
    using L by (simp add: unat_ucast_up varint_low7)
  have "push_bit 7 n OR ucast (b AND 0x7F) = push_bit 7 n + ucast (b AND 0x7F)"
  proof (rule disjunctive_add[symmetric])
    fix k
    have "b AND 0x7F = take_bit 7 b" by (simp add: take_bit_eq_mask mask_eq_exp_minus_1)
    then show "\<not> bit (push_bit 7 n) k \<or> \<not> bit (ucast (b AND 0x7F) :: 'a word) k"
      by (auto simp: bit_push_bit_iff bit_ucast_iff bit_take_bit_iff)
  qed
  moreover have "unat b mod 128 < 128" by simp
  then have "unat n * 128 + unat b mod 128 < 2 ^ LENGTH('a)" using bound by linarith
  ultimately show "unat (push_bit 7 n OR ucast (b AND 0x7F)) = unat n * 128 + unat b mod 128"
    using unat_add_lem[of "push_bit 7 n" "ucast (b AND 0x7F) :: 'a word"] p c by simp
qed


lemma not_above_max7_iff:
  fixes n :: "'a::len word"
  assumes L: "7 < LENGTH('a)"
  shows "\<not> n > drop_bit 7 (- 1) \<longleftrightarrow> unat n * 128 + 127 < 2 ^ LENGTH('a)"
proof
  assume "\<not> n > drop_bit 7 (- 1)"
  then show "unat n * 128 + 127 < 2 ^ LENGTH('a)" by (rule varint_step(2)[OF L])
next
  assume b: "unat n * 128 + 127 < 2 ^ LENGTH('a)"
  have "unat (drop_bit 7 (- 1 :: 'a word)) = (2 ^ LENGTH('a) - 1) div 128"
    unfolding unat_drop_bit_eq unsigned_minus_1_eq_mask unfolding drop_bit_eq_div mask_eq_exp_minus_1 by simp
  moreover have "unat n * 128 div 128 \<le> (2 ^ LENGTH('a) - 1) div 128" using b by (intro div_le_mono) linarith
  ultimately show "\<not> n > drop_bit 7 (- 1)" by (simp add: not_less word_le_nat_alt)
qed

text \<open>One digit: a continuation byte adds 1, a final byte ends.\<close>

lemma varint_loop_digit:
  fixes n m :: "'a::len word"
  assumes L: "7 < LENGTH('a)" and m: "unat m = unat n * 128 + unat b mod 128"
  shows "varint_loop n (b # s) =
    (if 128 \<le> unat b then (if m = - 1 then None else varint_loop (m + 1) s) else Some (m, s))"
proof -
  have "unat m < 2 ^ LENGTH('a)" using unsigned_less[of m, where ?'a = nat] by simp
  obtain k where k: "(2::nat) ^ LENGTH('a) = 128 * k"
    using L power_add[of "2::nat" 7 "LENGTH('a) - 7"] by simp
  then have "unat n < k" using \<open>unat m < _\<close> m by simp
  then have "unat n * 128 + 127 < 2 ^ LENGTH('a)" unfolding k by linarith
  then have ok: "\<not> n > drop_bit 7 (- 1)" using not_above_max7_iff[OF L, of n] by blast
  have "push_bit 7 n OR ucast (b AND 0x7F) = m"
    using varint_step(1)[OF L ok, of b] m by (simp add: word_unat_eq_iff)
  then show ?thesis using ok varint_cont_iff[of b] by (simp add: Let_def)
qed

lemma varint_tmp_unfold:
  fixes n :: "'a::len word"
  assumes L: "7 < LENGTH('a)"
  shows "\<exists>b. unat b = unat n mod 128 + (if len \<noteq> 0 then 128 else 0) \<and>
    varint_tmp n len = (if unat n \<le> 127 then [b] else b # varint_tmp (drop_bit 7 n - 1) (len + 1))"
  using varint_digit[OF L, of n "len \<noteq> 0"] by (subst varint_tmp.simps) (auto simp: Let_def)

lemma word_neq_max_iff: "(m :: 'a::len word) \<noteq> - 1 \<longleftrightarrow> unat m + 1 < 2 ^ LENGTH('a)"
proof -
  have "m = - 1 \<longleftrightarrow> unat m = 2 ^ LENGTH('a) - 1"
    by (simp add: word_unat_eq_iff unsigned_minus_1_eq_mask mask_eq_exp_minus_1)
  moreover have "unat m < 2 ^ LENGTH('a)" using unsigned_less[of m, where ?'a = nat] by simp
  ultimately show ?thesis by linarith
qed

lemma unat_plus_one: "(m :: 'a::len word) \<noteq> - 1 \<Longrightarrow> unat (m + 1) = unat m + 1"
  using word_neq_max_iff[of m] unat_add_lem[of m 1] by simp

lemma varint_next_props:
  fixes n :: "'a::len word"
  assumes "\<not> unat n \<le> 127"
  shows "drop_bit 7 n - 1 \<noteq> - 1 \<and> unat (drop_bit 7 n - 1 + 1) = unat n div 128"
proof -
  have d: "unat (drop_bit 7 n) = unat n div 128" unfolding unat_drop_bit_eq unfolding drop_bit_eq_div by simp
  have "0 < unat n div 128" using assms by simp
  then have "drop_bit 7 n \<noteq> 0" using d by (metis unat_0 less_not_refl)
  then show ?thesis using d by (simp only: diff_add_cancel) (metis diff_add_cancel add.left_inverse)
qed

text \<open>The continuation digits of \<open>n\<close> leave the accumulator at \<open>n + 1\<close>.\<close>

lemma varint_loop_cont:
  fixes n :: "'a::len word"
  assumes L: "7 < LENGTH('a)"
  shows "n \<noteq> - 1 \<Longrightarrow> len \<noteq> 0 \<Longrightarrow> varint_loop 0 (rev (varint_tmp n len) @ s) = varint_loop (n + 1) s"
proof (induction "unat n" arbitrary: n len s rule: less_induct)
  case less
  obtain b where b: "unat b = unat n mod 128 + 128"
    "varint_tmp n len = (if unat n \<le> 127 then [b] else b # varint_tmp (drop_bit 7 n - 1) (len + 1))"
    using varint_tmp_unfold[OF L, of n len] less.prems(2) by auto
  have bm: "unat b mod 128 = unat n mod 128" "128 \<le> unat b" using b(1) by simp_all
  show ?case
  proof (cases "unat n \<le> 127")
    case True
    then have "unat n = unat (0 :: 'a word) * 128 + unat b mod 128" using bm by simp
    from varint_loop_digit[OF L this, of s] show ?thesis using b(2) True bm less.prems(1) by simp
  next
    case False
    let ?m = "drop_bit 7 n - 1"
    have mne: "?m \<noteq> - 1" and um1: "unat (?m + 1) = unat n div 128"
      using varint_next_props[OF False] by blast+
    have "unat n = unat (?m + 1) * 128 + unat b mod 128" unfolding um1 bm(1) by simp
    from varint_loop_digit[OF L this, of s]
    have last: "varint_loop (?m + 1) (b # s) = varint_loop (n + 1) s" using bm(2) less.prems(1) by simp
    have "varint_loop 0 (rev (varint_tmp ?m (len + 1)) @ b # s) = varint_loop (?m + 1) (b # s)"
      using varint_next_less[OF False] mne by (intro less.hyps) simp_all
    then show ?thesis using b(2) False last by simp
  qed
qed

lemma ReadVarInt_WriteVarInt:
  fixes n :: "'a::len word"
  assumes L: "7 < LENGTH('a)"
  shows "ReadVarInt (WriteVarInt n @ s) = Some (n, s)"
proof -
  obtain b where b: "unat b = unat n mod 128"
    "varint_tmp n 0 = (if unat n \<le> 127 then [b] else b # varint_tmp (drop_bit 7 n - 1) 1)"
    using varint_tmp_unfold[OF L, of n 0] by auto
  have bm: "unat b mod 128 = unat n mod 128" "\<not> 128 \<le> unat b" using b(1) by (simp_all add: not_le)
  show ?thesis
  proof (cases "unat n \<le> 127")
    case True
    then have "unat n = unat (0 :: 'a word) * 128 + unat b mod 128" using bm by simp
    from varint_loop_digit[OF L this, of s] show ?thesis
      using b(2) True bm(2) by (simp add: ReadVarInt_def WriteVarInt_def)
  next
    case False
    let ?m = "drop_bit 7 n - 1"
    have mne: "?m \<noteq> - 1" and um1: "unat (?m + 1) = unat n div 128"
      using varint_next_props[OF False] by blast+
    have "unat n = unat (?m + 1) * 128 + unat b mod 128" unfolding um1 bm(1) by simp
    from varint_loop_digit[OF L this, of s] varint_loop_cont[OF L mne, of 1 "b # s"]
    show ?thesis using b(2) False bm(2) by (simp add: ReadVarInt_def WriteVarInt_def)
  qed
qed

lemma varint_tmp_len: "len \<noteq> 0 \<Longrightarrow> len' \<noteq> 0 \<Longrightarrow> varint_tmp n len = varint_tmp n len'"
proof (induction "unat n" arbitrary: n len len' rule: less_induct)
  case less
  show ?case
  proof (cases "unat n \<le> 127")
    case True
    then show ?thesis using less.prems by (simp add: varint_tmp.simps[of n] Let_def)
  next
    case False
    have "varint_tmp (drop_bit 7 n - 1) (len + 1) = varint_tmp (drop_bit 7 n - 1) (len' + 1)"
      using varint_next_less[OF False] by (intro less.hyps) simp_all
    then show ?thesis using less.prems by (simp add: varint_tmp.simps[of n] Let_def)
  qed
qed

text \<open>The buffer after one more digit \<open>b\<close>.\<close>

lemma varint_tmp_snoc:
  fixes m acc :: "'a::len word"
  assumes L: "7 < LENGTH('a)" and m: "unat m = unat acc * 128 + unat b mod 128"
    and len: "len \<noteq> 0 \<longleftrightarrow> 128 \<le> unat b"
  shows "varint_tmp m len = b # (if acc = 0 then [] else varint_tmp (acc - 1) 1)"
proof -
  obtain d where d: "unat d = unat m mod 128 + (if len \<noteq> 0 then 128 else 0)"
    "varint_tmp m len = (if unat m \<le> 127 then [d] else d # varint_tmp (drop_bit 7 m - 1) (len + 1))"
    using varint_tmp_unfold[OF L, of m len] by blast
  have "unat b < 256" using unsigned_less[of b, where ?'a = nat] by simp
  then have "unat b = unat b mod 128 + (if 128 \<le> unat b then 128 else 0)" by (simp add: le_mod_geq)
  moreover have "unat m mod 128 = unat b mod 128" using m by simp
  ultimately have "unat d = unat b" using d(1) len by simp
  then have db: "d = b" by (simp add: word_unat_eq_iff)
  show ?thesis
  proof (cases "acc = 0")
    case True
    then have "unat m \<le> 127" using m by simp
    then show ?thesis using d(2) db True by simp
  next
    case False
    then have "0 < unat acc" by (simp add: unat_gt_0)
    then have big: "\<not> unat m \<le> 127" using m by simp
    have "unat (drop_bit 7 m - 1 + 1) = unat acc" using varint_next_props[OF big] m by simp
    then have "drop_bit 7 m - 1 + 1 = acc" by (simp only: word_unat_eq_iff)
    then have "drop_bit 7 m - 1 = acc - 1" by (metis add_diff_cancel_right')
    then show ?thesis using d(2) db False big varint_tmp_len[of "len + 1" 1 "acc - 1"] by simp
  qed
qed

lemma varint_loop_sound:
  fixes acc n :: "'a::len word"
  assumes L: "7 < LENGTH('a)"
  shows "varint_loop acc s = Some (n, s') \<Longrightarrow>
    rev (if acc = 0 then [] else varint_tmp (acc - 1) 1) @ s = WriteVarInt n @ s'"
proof (induction s arbitrary: acc)
  case Nil
  then show ?case by simp
next
  case (Cons b s)
  then have ok: "\<not> acc > drop_bit 7 (- 1)" by (auto split: if_splits)
  define m where "m = push_bit 7 acc OR (ucast (b AND 0x7F) :: 'a word)"
  have m: "unat m = unat acc * 128 + unat b mod 128" unfolding m_def by (rule varint_step(1)[OF L ok])
  note digit = varint_loop_digit[OF L m, of s]
  show ?case
  proof (cases "128 \<le> unat b")
    case True
    then have m1: "m \<noteq> - 1" "varint_loop (m + 1) s = Some (n, s')" using Cons.prems digit by (auto split: if_splits)
    then have "m + 1 \<noteq> 0" by (metis eq_neg_iff_add_eq_0)
    then have "rev (varint_tmp m 1) @ s = WriteVarInt n @ s'" using Cons.IH[OF m1(2)] by simp
    then show ?thesis using varint_tmp_snoc[OF L m, of 1] True by simp
  next
    case False
    then have "n = m" "s' = s" using Cons.prems digit by simp_all
    then show ?thesis using varint_tmp_snoc[OF L m, of 0] False by (simp add: WriteVarInt_def)
  qed
qed

lemma varint_codec:
  assumes L: "7 < LENGTH('a::len)"
  shows "codec (WriteVarInt :: 'a word \<Rightarrow> bytes) ReadVarInt (\<lambda>_. True)"
  using ReadVarInt_WriteVarInt[OF L] varint_loop_sound[OF L, of 0]
  by unfold_locales (auto simp: ReadVarInt_def)

interpretation varint32_codec: codec "WriteVarInt :: u32 \<Rightarrow> bytes" ReadVarInt "\<lambda>_. True"
  by (rule varint_codec) simp

interpretation varint64_codec: codec "WriteVarInt :: u64 \<Rightarrow> bytes" ReadVarInt "\<lambda>_. True"
  by (rule varint_codec) simp

text \<open>The stack buffer of \<open>WriteVarInt\<close> has room for \<open>(8 * sizeof(n) + 6) / 7\<close> digits.\<close>

lemma length_varint_tmp:
  fixes n :: "'a::len word"
  shows "unat n < 2 ^ (7 * k) \<Longrightarrow> 0 < k \<Longrightarrow> length (varint_tmp n len) \<le> k"
proof (induction k arbitrary: n len)
  case 0
  then show ?case by simp
next
  case (Suc k)
  show ?case
  proof (cases "unat n \<le> 127")
    case True
    then show ?thesis by (simp add: varint_tmp.simps[of n] Let_def)
  next
    case False
    have e: "(2::nat) ^ (7 * Suc k) = 2 ^ (7 * k) * 128" by (simp add: power_add)
    have "unat n div 128 < 2 ^ (7 * k)" using Suc.prems(1) unfolding e by (rule less_mult_imp_div_less)
    then have "unat (drop_bit 7 n - 1) < 2 ^ (7 * k)" using unat_varint_next[OF False] by simp
    moreover have "0 < k" using False Suc.prems(1) by (cases k) simp_all
    ultimately show ?thesis
      using Suc.IH[of "drop_bit 7 n - 1" "len + 1"] False by (simp add: varint_tmp.simps[of n] Let_def)
  qed
qed

lemma WriteVarInt_fits:
  fixes n :: "'a::len word"
  shows "length (WriteVarInt n) \<le> (LENGTH('a) + 6) div 7"
proof -
  have L: "LENGTH('a) \<le> 7 * ((LENGTH('a) + 6) div 7)" "0 < (LENGTH('a) + 6) div 7"
    using len_gt_0[where 'a = 'a] by presburger+
  have "unat n < 2 ^ LENGTH('a)" using unsigned_less[of n, where ?'a = nat] by simp
  also have "\<dots> \<le> 2 ^ (7 * ((LENGTH('a) + 6) div 7))" using L(1) by (intro power_increasing) simp_all
  finally show ?thesis using length_varint_tmp L(2) by (auto simp: WriteVarInt_def)
qed

lemma length_WriteVarInt: "length (WriteVarInt n) = GetSizeOfVarInt n"
proof -
  have "length (varint_tmp n len) = GetSizeOfVarInt n" for len
    by (induction n len rule: varint_tmp.induct) (subst varint_tmp.simps, subst GetSizeOfVarInt.simps, simp add: Let_def)
  then show ?thesis by (simp add: WriteVarInt_def)
qed

end
