(* ===== verification/Transaction.thy ===== *)
theory Transaction
  imports Serialize Chain_Index
begin

text \<open>
  Transactions and blocks (\<open>primitives/transaction.h\<close>, \<open>primitives/transaction.cpp\<close>,
  \<open>primitives/block.h\<close>, \<open>consensus/amount.h\<close>): the data, the two serialization formats, and the
  functions on amounts.  A script is its bytes.  The identifier functions take the double SHA-256
  as an argument \<open>H\<close>; the theory of the hash supplies it.  The lemmas show that both formats of a
  transaction and the format of a block satisfy the contract \<open>codec\<close> of the theory of
  serialization, except for the one form the extended format cannot carry.
\<close>

section \<open>Model\<close>

subsection \<open>Amounts\<close>

type_synonym CAmount = int

definition COIN :: CAmount where
  "COIN = 100000000"

definition MAX_MONEY :: CAmount where
  "MAX_MONEY = 21000000 * COIN"

definition MoneyRange :: "CAmount \<Rightarrow> bool" where
  "MoneyRange nValue \<longleftrightarrow> nValue \<ge> 0 \<and> nValue \<le> MAX_MONEY"

subsection \<open>Data\<close>

type_synonym CScript = bytes

record COutPoint =
  op_hash :: uint256
  op_n :: u32

definition NULL_INDEX :: u32 where
  "NULL_INDEX = 0xffffffff"

definition COutPoint_null :: COutPoint where
  "COutPoint_null = \<lparr>op_hash = uint256_0, op_n = NULL_INDEX\<rparr>"

definition uint256_IsNull :: "uint256 \<Rightarrow> bool" where
  "uint256_IsNull h = list_all (\<lambda>b. b = 0) h"

definition COutPoint_IsNull :: "COutPoint \<Rightarrow> bool" where
  "COutPoint_IsNull p \<longleftrightarrow> uint256_IsNull (op_hash p) \<and> op_n p = NULL_INDEX"

record CTxIn =
  prevout :: COutPoint
  scriptSig :: CScript
  nSequence :: u32
  scriptWitness :: "bytes list"

definition SEQUENCE_FINAL :: u32 where
  "SEQUENCE_FINAL = 0xffffffff"

definition MAX_SEQUENCE_NONFINAL :: u32 where
  "MAX_SEQUENCE_NONFINAL = SEQUENCE_FINAL - 1"

definition SEQUENCE_LOCKTIME_DISABLE_FLAG :: u32 where
  "SEQUENCE_LOCKTIME_DISABLE_FLAG = push_bit 31 1"

definition SEQUENCE_LOCKTIME_TYPE_FLAG :: u32 where
  "SEQUENCE_LOCKTIME_TYPE_FLAG = push_bit 22 1"

definition SEQUENCE_LOCKTIME_MASK :: u32 where
  "SEQUENCE_LOCKTIME_MASK = 0x0000ffff"

definition SEQUENCE_LOCKTIME_GRANULARITY :: nat where
  "SEQUENCE_LOCKTIME_GRANULARITY = 9"

record CTxOut =
  nValue :: CAmount
  scriptPubKey :: CScript

definition CTxOut_null :: CTxOut where
  "CTxOut_null = \<lparr>nValue = -1, scriptPubKey = []\<rparr>"

definition CTxOut_IsNull :: "CTxOut \<Rightarrow> bool" where
  "CTxOut_IsNull o1 \<longleftrightarrow> nValue o1 = -1"

record CTransaction =
  vin :: "CTxIn list"
  vout :: "CTxOut list"
  tx_version :: u32
  nLockTime :: u32

definition CTransaction_IsNull :: "CTransaction \<Rightarrow> bool" where
  "CTransaction_IsNull tx \<longleftrightarrow> vin tx = [] \<and> vout tx = []"

definition IsCoinBase :: "CTransaction \<Rightarrow> bool" where
  "IsCoinBase tx \<longleftrightarrow> length (vin tx) = 1 \<and> COutPoint_IsNull (prevout (vin tx ! 0))"

definition HasWitness :: "CTransaction \<Rightarrow> bool" where
  "HasWitness tx \<longleftrightarrow> list_ex (\<lambda>input. scriptWitness input \<noteq> []) (vin tx)"

definition CalculateOutputValue :: "CTransaction \<Rightarrow> CAmount" where
  "CalculateOutputValue tx = foldl (\<lambda>sum txout. sum + nValue txout) 0 (vout tx)"

text \<open>\<open>GetValueOut\<close> throws (\<open>None\<close>) as soon as an output or the running total is out of range.\<close>

fun value_out_loop :: "CAmount \<Rightarrow> CTxOut list \<Rightarrow> CAmount option" where
  "value_out_loop nValueOut [] = (if MoneyRange nValueOut then Some nValueOut else None)"
| "value_out_loop nValueOut (tx_out # outs) =
     (if \<not> MoneyRange (nValue tx_out) \<or> \<not> MoneyRange (nValueOut + nValue tx_out) then None
      else value_out_loop (nValueOut + nValue tx_out) outs)"

definition GetValueOut :: "CTransaction \<Rightarrow> CAmount option" where
  "GetValueOut tx = value_out_loop 0 (vout tx)"

subsection \<open>Serialization\<close>

text \<open>
  The element types of the vectors below; \<open>alloc\<close> gives the number of elements read per batch,
  \<open>MAX_VECTOR_ALLOCATE / sizeof(T)\<close>, which the compiler fixes and the source asserts positive.
\<close>

datatype vector_elem = Elem_CTxIn | Elem_CTxOut | Elem_stack_item | Elem_CTransaction

type_synonym alloc = "vector_elem \<Rightarrow> nat"

definition Serialize_uint256 :: "uint256 \<Rightarrow> bytes" where
  "Serialize_uint256 h = h"

definition Unserialize_uint256 :: "uint256 reader" where
  "Unserialize_uint256 = stream_read 32"

definition Serialize_COutPoint :: "COutPoint \<Rightarrow> bytes" where
  "Serialize_COutPoint p = Serialize_uint256 (op_hash p) @ ser_writedata32 (op_n p)"

definition Unserialize_COutPoint :: "COutPoint reader" where
  "Unserialize_COutPoint s =
     do { (h, s) \<leftarrow> Unserialize_uint256 s; (n, s) \<leftarrow> ser_readdata32 s; Some (\<lparr>op_hash = h, op_n = n\<rparr>, s) }"

definition Serialize_CTxIn :: "CTxIn \<Rightarrow> bytes" where
  "Serialize_CTxIn i = Serialize_COutPoint (prevout i) @ Serialize_bytes (scriptSig i) @ ser_writedata32 (nSequence i)"

definition Unserialize_CTxIn :: "CTxIn reader" where
  "Unserialize_CTxIn s =
     do { (p, s) \<leftarrow> Unserialize_COutPoint s; (sig, s) \<leftarrow> Unserialize_bytes s; (q, s) \<leftarrow> ser_readdata32 s;
          Some (\<lparr>prevout = p, scriptSig = sig, nSequence = q, scriptWitness = []\<rparr>, s) }"

definition Serialize_CTxOut :: "CTxOut \<Rightarrow> bytes" where
  "Serialize_CTxOut o1 = Serialize_int64 (nValue o1) @ Serialize_bytes (scriptPubKey o1)"

definition Unserialize_CTxOut :: "CTxOut reader" where
  "Unserialize_CTxOut s =
     do { (v, s) \<leftarrow> Unserialize_int64 s; (k, s) \<leftarrow> Unserialize_bytes s; Some (\<lparr>nValue = v, scriptPubKey = k\<rparr>, s) }"

definition SerializeTransaction :: "bool \<Rightarrow> CTransaction \<Rightarrow> bytes" where
  "SerializeTransaction fAllowWitness tx =
     (let flags = (if fAllowWitness \<and> HasWitness tx then 1 else 0 :: u8) in
      ser_writedata32 (tx_version tx) @
      (if flags \<noteq> 0 then Serialize_vector Serialize_CTxIn [] @ ser_writedata8 flags else []) @
      Serialize_vector Serialize_CTxIn (vin tx) @
      Serialize_vector Serialize_CTxOut (vout tx) @
      (if flags AND 1 \<noteq> 0
       then concat (map (\<lambda>i. Serialize_vector Serialize_bytes (scriptWitness i)) (vin tx)) else []) @
      ser_writedata32 (nLockTime tx))"

text \<open>The loop that reads one witness stack per input.\<close>

fun read_witnesses :: "alloc \<Rightarrow> CTxIn list \<Rightarrow> CTxIn list reader" where
  "read_witnesses alloc [] s = Some ([], s)"
| "read_witnesses alloc (i # is) s =
     do { (w, s) \<leftarrow> Unserialize_vector (alloc Elem_stack_item) Unserialize_bytes s;
          (is', s) \<leftarrow> read_witnesses alloc is s;
          Some (i\<lparr>scriptWitness := w\<rparr> # is', s) }"

definition UnserializeTransaction :: "alloc \<Rightarrow> bool \<Rightarrow> CTransaction reader" where
  "UnserializeTransaction alloc fAllowWitness s =
     do { (version, s) \<leftarrow> ser_readdata32 s;
          (ins, s) \<leftarrow> Unserialize_vector (alloc Elem_CTxIn) Unserialize_CTxIn s;
          (flags, ins, outs, s) \<leftarrow>
            (if ins = [] \<and> fAllowWitness
             then do { (flags, s) \<leftarrow> ser_readdata8 s;
                       if flags \<noteq> 0
                       then do { (ins, s) \<leftarrow> Unserialize_vector (alloc Elem_CTxIn) Unserialize_CTxIn s;
                                 (outs, s) \<leftarrow> Unserialize_vector (alloc Elem_CTxOut) Unserialize_CTxOut s;
                                 Some (flags, ins, outs, s) }
                       else Some (flags, [], [], s) }
             else do { (outs, s) \<leftarrow> Unserialize_vector (alloc Elem_CTxOut) Unserialize_CTxOut s;
                       Some (0, ins, outs, s) });
          (flags, ins, s) \<leftarrow>
            (if flags AND 1 \<noteq> 0 \<and> fAllowWitness
             then do { (ins, s) \<leftarrow> read_witnesses alloc ins s;
                       if \<not> list_ex (\<lambda>i. scriptWitness i \<noteq> []) ins then None
                       else Some (flags XOR 1, ins, s) }
             else Some (flags, ins, s));
          if flags \<noteq> 0 then None
          else do { (lock, s) \<leftarrow> ser_readdata32 s;
                    Some (\<lparr>vin = ins, vout = outs, tx_version = version, nLockTime = lock\<rparr>, s) } }"

text \<open>\<open>GetSerializeSize\<close> counts the bytes the writer would produce.\<close>

definition GetSerializeSize_tx :: "bool \<Rightarrow> CTransaction \<Rightarrow> nat" where
  "GetSerializeSize_tx fAllowWitness tx = length (SerializeTransaction fAllowWitness tx)"

definition GetTotalSize :: "CTransaction \<Rightarrow> nat" where
  "GetTotalSize tx = GetSerializeSize_tx True tx"

subsection \<open>Identifiers\<close>

definition ComputeHash :: "(bytes \<Rightarrow> uint256) \<Rightarrow> CTransaction \<Rightarrow> uint256" where
  "ComputeHash H tx = H (SerializeTransaction False tx)"

definition ComputeWitnessHash :: "(bytes \<Rightarrow> uint256) \<Rightarrow> CTransaction \<Rightarrow> uint256" where
  "ComputeWitnessHash H tx = (if \<not> HasWitness tx then ComputeHash H tx else H (SerializeTransaction True tx))"

subsection \<open>Blocks\<close>

definition Serialize_CBlockHeader :: "CBlockHeader \<Rightarrow> bytes" where
  "Serialize_CBlockHeader h =
     Serialize_int32 (h_nVersion h) @ Serialize_uint256 (h_hashPrevBlock h) @
     Serialize_uint256 (h_hashMerkleRoot h) @ ser_writedata32 (h_nTime h) @
     ser_writedata32 (h_nBits h) @ ser_writedata32 (h_nNonce h)"

definition Unserialize_CBlockHeader :: "CBlockHeader reader" where
  "Unserialize_CBlockHeader s =
     do { (v, s) \<leftarrow> Unserialize_int32 s; (p, s) \<leftarrow> Unserialize_uint256 s; (m, s) \<leftarrow> Unserialize_uint256 s;
          (t, s) \<leftarrow> ser_readdata32 s; (b, s) \<leftarrow> ser_readdata32 s; (n, s) \<leftarrow> ser_readdata32 s;
          Some (\<lparr>h_nVersion = v, h_hashPrevBlock = p, h_hashMerkleRoot = m, h_nTime = t,
                 h_nBits = b, h_nNonce = n\<rparr>, s) }"

record CBlock = CBlockHeader +
  vtx :: "CTransaction list"
  fChecked :: bool
  m_checked_witness_commitment :: bool
  m_checked_merkle_root :: bool

definition header_of :: "CBlock \<Rightarrow> CBlockHeader" where
  "header_of b = CBlockHeader.truncate b"

definition Serialize_CBlock :: "bool \<Rightarrow> CBlock \<Rightarrow> bytes" where
  "Serialize_CBlock fAllowWitness b =
     Serialize_CBlockHeader (header_of b) @ Serialize_vector (SerializeTransaction fAllowWitness) (vtx b)"

text \<open>
  A block is read into an object: the header and the transactions are replaced, the flags that
  remember checks stay as they are.  \<open>SetNull\<close> is what clears them.
\<close>

definition set_header :: "CBlockHeader \<Rightarrow> CBlock \<Rightarrow> CBlock" where
  "set_header h obj = CBlockHeader.extend h (CBlock.fields (vtx obj) (fChecked obj) (m_checked_witness_commitment obj)
     (m_checked_merkle_root obj))"

definition Unserialize_CBlock :: "alloc \<Rightarrow> bool \<Rightarrow> CBlock \<Rightarrow> CBlock reader" where
  "Unserialize_CBlock alloc fAllowWitness obj s =
     do { (h, s) \<leftarrow> Unserialize_CBlockHeader s;
          let obj = set_header h obj;
          (txs, s) \<leftarrow> Unserialize_vector (alloc Elem_CTransaction) (UnserializeTransaction alloc fAllowWitness) s;
          Some (obj\<lparr>vtx := txs\<rparr>, s) }"

definition CBlockHeader_null :: CBlockHeader where
  "CBlockHeader_null = \<lparr>h_nVersion = 0, h_hashPrevBlock = uint256_0, h_hashMerkleRoot = uint256_0, h_nTime = 0, h_nBits = 0,
     h_nNonce = 0\<rparr>"

definition CBlock_null :: CBlock where
  "CBlock_null = CBlockHeader.extend CBlockHeader_null
     \<lparr>vtx = [], fChecked = False, m_checked_witness_commitment = False, m_checked_merkle_root = False\<rparr>"

definition GetSerializeSize_block :: "bool \<Rightarrow> CBlock \<Rightarrow> nat" where
  "GetSerializeSize_block fAllowWitness b = length (Serialize_CBlock fAllowWitness b)"

definition CBlockHeader_GetHash :: "(bytes \<Rightarrow> uint256) \<Rightarrow> CBlockHeader \<Rightarrow> uint256" where
  "CBlockHeader_GetHash H h = H (Serialize_CBlockHeader h)"

section \<open>Formats\<close>

text \<open>The objects that have a serialized form: hashes of 32 bytes, scripts and vectors within \<open>MAX_SIZE\<close>, 64-bit amounts.\<close>

definition ok_outpoint :: "COutPoint \<Rightarrow> bool" where
  "ok_outpoint p \<longleftrightarrow> length (op_hash p) = 32"

definition ok_txin :: "CTxIn \<Rightarrow> bool" where
  "ok_txin i \<longleftrightarrow> ok_outpoint (prevout i) \<and> length (scriptSig i) \<le> 0x02000000"

definition ok_txout :: "CTxOut \<Rightarrow> bool" where
  "ok_txout o1 \<longleftrightarrow> - (2 ^ 63) \<le> nValue o1 \<and> nValue o1 < 2 ^ 63 \<and> length (scriptPubKey o1) \<le> 0x02000000"

definition ok_stack :: "bytes list \<Rightarrow> bool" where
  "ok_stack w \<longleftrightarrow> length w \<le> 0x02000000 \<and> (\<forall>x\<in>set w. length x \<le> 0x02000000)"

definition ok_tx :: "bool \<Rightarrow> CTransaction \<Rightarrow> bool" where
  "ok_tx fAllowWitness tx \<longleftrightarrow>
     length (vin tx) \<le> 0x02000000 \<and> (\<forall>i\<in>set (vin tx). ok_txin i \<and> ok_stack (scriptWitness i)) \<and>
     length (vout tx) \<le> 0x02000000 \<and> (\<forall>o1\<in>set (vout tx). ok_txout o1) \<and>
     (if fAllowWitness then vin tx \<noteq> [] \<or> vout tx = [] else \<not> HasWitness tx)"

definition strip_witness :: "CTxIn \<Rightarrow> CTxIn" where
  "strip_witness i = i\<lparr>scriptWitness := []\<rparr>"

interpretation uint256_codec: codec Serialize_uint256 Unserialize_uint256 "\<lambda>h. length h = 32"
  by unfold_locales (auto simp: Serialize_uint256_def Unserialize_uint256_def stream_read_def split: if_splits)

interpretation outpoint_codec: codec Serialize_COutPoint Unserialize_COutPoint ok_outpoint
proof unfold_locales
  fix p s assume "ok_outpoint p"
  then show "Unserialize_COutPoint (Serialize_COutPoint p @ s) = Some (p, s)"
    by (simp add: Unserialize_COutPoint_def Serialize_COutPoint_def ok_outpoint_def
        uint256_codec.unser_ser u32_codec.unser_ser)
next
  fix s p s' assume "Unserialize_COutPoint s = Some (p, s')"
  then show "ok_outpoint p \<and> s = Serialize_COutPoint p @ s'"
    by (auto simp: Unserialize_COutPoint_def Serialize_COutPoint_def ok_outpoint_def bind_eq_Some_conv
        dest!: uint256_codec.unser_sound u32_codec.unser_sound)
qed

interpretation txin_codec: codec Serialize_CTxIn Unserialize_CTxIn "\<lambda>i. ok_txin i \<and> scriptWitness i = []"
proof unfold_locales
  fix i s assume "ok_txin i \<and> scriptWitness i = []"
  then show "Unserialize_CTxIn (Serialize_CTxIn i @ s) = Some (i, s)"
    by (simp add: Unserialize_CTxIn_def Serialize_CTxIn_def ok_txin_def
        outpoint_codec.unser_ser bytes_codec.unser_ser u32_codec.unser_ser)
next
  fix s i s' assume "Unserialize_CTxIn s = Some (i, s')"
  then show "(ok_txin i \<and> scriptWitness i = []) \<and> s = Serialize_CTxIn i @ s'"
    by (auto simp: Unserialize_CTxIn_def Serialize_CTxIn_def ok_txin_def bind_eq_Some_conv
        dest!: outpoint_codec.unser_sound bytes_codec.unser_sound u32_codec.unser_sound)
qed

interpretation txout_codec: codec Serialize_CTxOut Unserialize_CTxOut ok_txout
proof unfold_locales
  fix o1 s assume "ok_txout o1"
  then show "Unserialize_CTxOut (Serialize_CTxOut o1 @ s) = Some (o1, s)"
    by (simp add: Unserialize_CTxOut_def Serialize_CTxOut_def ok_txout_def
        int64_codec.unser_ser bytes_codec.unser_ser)
next
  fix s o1 s' assume "Unserialize_CTxOut s = Some (o1, s')"
  then show "ok_txout o1 \<and> s = Serialize_CTxOut o1 @ s'"
    by (auto simp: Unserialize_CTxOut_def Serialize_CTxOut_def ok_txout_def bind_eq_Some_conv
        dest!: int64_codec.unser_sound bytes_codec.unser_sound)
qed

lemma stack_codec:
  "0 < k \<Longrightarrow> codec (Serialize_vector Serialize_bytes) (Unserialize_vector k Unserialize_bytes) ok_stack"
  unfolding ok_stack_def by (rule bytes_codec.vector_codec)

lemma Serialize_strip [simp]: "Serialize_CTxIn (strip_witness i) = Serialize_CTxIn i"
  by (simp add: Serialize_CTxIn_def strip_witness_def)

lemma strip_id [simp]: "scriptWitness i = [] \<Longrightarrow> strip_witness i = i"
  by (simp add: strip_witness_def)

lemma Serialize_vector_strip: "Serialize_vector Serialize_CTxIn (map strip_witness is) = Serialize_vector Serialize_CTxIn is"
  by (simp add: Serialize_vector_def comp_def)

lemma read_vin:
  assumes "0 < k" "length is \<le> 0x02000000" "\<forall>i\<in>set is. ok_txin i"
  shows "Unserialize_vector k Unserialize_CTxIn (Serialize_vector Serialize_CTxIn is @ s) = Some (map strip_witness is, s)"
proof -
  have "length (map strip_witness is) \<le> 0x02000000 \<and>
      (\<forall>i\<in>set (map strip_witness is). ok_txin i \<and> scriptWitness i = [])"
    using assms(2,3) by (auto simp: ok_txin_def strip_witness_def)
  from codec.unser_ser[OF txin_codec.vector_codec[OF assms(1)] this, of s]
  show ?thesis by (simp only: Serialize_vector_strip)
qed

lemma read_vin_sound:
  assumes "0 < k" "Unserialize_vector k Unserialize_CTxIn s = Some (is, s')"
  shows "length is \<le> 0x02000000 \<and> (\<forall>i\<in>set is. ok_txin i \<and> scriptWitness i = []) \<and>
    s = Serialize_vector Serialize_CTxIn is @ s'"
  using codec.unser_sound[OF txin_codec.vector_codec[OF assms(1)] assms(2)] by blast

lemmas read_vout = codec.unser_ser[OF txout_codec.vector_codec]
lemmas read_vout_sound = codec.unser_sound[OF txout_codec.vector_codec]

lemma read_witnesses_ser:
  assumes "0 < alloc Elem_stack_item"
  shows "\<forall>i\<in>set is. ok_stack (scriptWitness i) \<Longrightarrow>
    read_witnesses alloc (map strip_witness is)
      (concat (map (\<lambda>i. Serialize_vector Serialize_bytes (scriptWitness i)) is) @ s) = Some (is, s)"
  by (induction "is") (simp_all add: codec.unser_ser[OF stack_codec[OF assms]] strip_witness_def)

lemma read_witnesses_sound:
  assumes "0 < alloc Elem_stack_item"
  shows "read_witnesses alloc is s = Some (is', s') \<Longrightarrow>
    map strip_witness is' = map strip_witness is \<and> (\<forall>i\<in>set is'. ok_stack (scriptWitness i)) \<and>
    s = concat (map (\<lambda>i. Serialize_vector Serialize_bytes (scriptWitness i)) is') @ s'"
proof (induction "is" arbitrary: s is')
  case (Cons i "is")
  then obtain w t js where w: "Unserialize_vector (alloc Elem_stack_item) Unserialize_bytes s = Some (w, t)"
    "read_witnesses alloc is t = Some (js, s')" "is' = i\<lparr>scriptWitness := w\<rparr> # js"
    by (auto simp: bind_eq_Some_conv)
  show ?case
    using codec.unser_sound[OF stack_codec[OF assms] w(1)] Cons.IH[OF w(2)] w(3)
    by (simp add: strip_witness_def)
qed simp


lemma Serialize_vector_Nil: "Serialize_vector ser [] = [0]"
  by (simp add: Serialize_vector_def WriteCompactSize_def ser_writedata8_def)

lemma HasWitness_strip: "\<not> HasWitness tx \<Longrightarrow> map strip_witness (vin tx) = vin tx"
  by (induction "vin tx" arbitrary: tx) (auto simp: HasWitness_def list_ex_iff intro!: map_idI)

text \<open>The format without witnesses.\<close>

lemma tx_roundtrip_basic:
  assumes a: "\<And>e. 0 < alloc e" and ok: "ok_tx fw tx" and nw: "\<not> HasWitness tx"
  shows "UnserializeTransaction alloc fw (SerializeTransaction fw tx @ s) = Some (tx, s)"
proof -
  have o: "length (vin tx) \<le> 0x02000000" "\<forall>i\<in>set (vin tx). ok_txin i"
    "length (vout tx) \<le> 0x02000000 \<and> (\<forall>o1\<in>set (vout tx). ok_txout o1)"
    using ok by (auto simp: ok_tx_def)
  have ser: "SerializeTransaction fw tx @ s = ser_writedata32 (tx_version tx) @
      Serialize_vector Serialize_CTxIn (vin tx) @ Serialize_vector Serialize_CTxOut (vout tx) @
      ser_writedata32 (nLockTime tx) @ s"
    using nw by (simp add: SerializeTransaction_def)
  note rv = read_vin[OF a o(1,2), unfolded HasWitness_strip[OF nw]]
  note ro = read_vout[OF a o(3)]
  show ?thesis
  proof (cases "vin tx = [] \<and> fw")
    case True
    then have "vout tx = []" using ok by (simp add: ok_tx_def)
    then show ?thesis
      unfolding ser using True rv[of Elem_CTxIn]
      by (simp add: UnserializeTransaction_def u32_codec.unser_ser Serialize_vector_Nil ser_readdata8_def)
  next
    case False
    then show ?thesis
      unfolding ser by (cases fw) (simp_all add: UnserializeTransaction_def u32_codec.unser_ser rv ro)
  qed
qed

lemma tx_roundtrip_witness:
  assumes a: "\<And>e. 0 < alloc e" and ok: "ok_tx True tx" and w: "HasWitness tx"
  shows "UnserializeTransaction alloc True (SerializeTransaction True tx @ s) = Some (tx, s)"
proof -
  have o: "length (vin tx) \<le> 0x02000000" "\<forall>i\<in>set (vin tx). ok_txin i"
    "length (vout tx) \<le> 0x02000000 \<and> (\<forall>o1\<in>set (vout tx). ok_txout o1)"
    "\<forall>i\<in>set (vin tx). ok_stack (scriptWitness i)"
    using ok by (auto simp: ok_tx_def)
  have ser: "SerializeTransaction True tx @ s = ser_writedata32 (tx_version tx) @
      Serialize_vector Serialize_CTxIn [] @ ser_writedata8 1 @
      Serialize_vector Serialize_CTxIn (vin tx) @ Serialize_vector Serialize_CTxOut (vout tx) @
      concat (map (\<lambda>i. Serialize_vector Serialize_bytes (scriptWitness i)) (vin tx)) @
      ser_writedata32 (nLockTime tx) @ s"
    using w by (simp add: SerializeTransaction_def)
  have r0: "Unserialize_vector (alloc Elem_CTxIn) Unserialize_CTxIn (Serialize_vector Serialize_CTxIn [] @ t) = Some ([], t)" for t
    using read_vin[OF a, of "[]"] by simp
  show ?thesis
    unfolding ser using w
    by (simp add: UnserializeTransaction_def u32_codec.unser_ser u8_codec.unser_ser r0
        read_vin[OF a o(1,2)] read_vout[OF a o(3)] read_witnesses_ser[OF a o(4)] HasWitness_def)
qed

lemma tx_sound:
  assumes a: "\<And>e. 0 < alloc e" and r: "UnserializeTransaction alloc fw s = Some (tx, s')"
  shows "ok_tx fw tx \<and> s = SerializeTransaction fw tx @ s'"
proof -
  obtain v s1 where v: "ser_readdata32 s = Some (v, s1)" using r by (auto simp: UnserializeTransaction_def bind_eq_Some_conv)
  obtain i0 s2 where i0: "Unserialize_vector (alloc Elem_CTxIn) Unserialize_CTxIn s1 = Some (i0, s2)"
    using r v by (auto simp: UnserializeTransaction_def bind_eq_Some_conv)
  note h = u32_codec.unser_sound[OF v] read_vin_sound[OF a i0]
  show ?thesis
  proof (cases "i0 = [] \<and> fw")
    case False
    then obtain outs s3 lock where o: "Unserialize_vector (alloc Elem_CTxOut) Unserialize_CTxOut s2 = Some (outs, s3)"
      "ser_readdata32 s3 = Some (lock, s')"
      "tx = \<lparr>vin = i0, vout = outs, tx_version = v, nLockTime = lock\<rparr>"
      using r v i0 by (auto simp: UnserializeTransaction_def bind_eq_Some_conv)
    have nw: "\<not> HasWitness tx" using h(2) o(3) by (auto simp: HasWitness_def list_ex_iff)
    show ?thesis
      using h read_vout_sound[OF a o(1)] u32_codec.unser_sound[OF o(2)] o(3) nw False
      by (auto simp: SerializeTransaction_def ok_tx_def ok_stack_def)
  next
    case True
    then obtain fl s3 where fl: "ser_readdata8 s2 = Some (fl, s3)"
      using r v i0 by (auto simp: UnserializeTransaction_def bind_eq_Some_conv)
    have s2: "s2 = fl # s3" using u8_codec.unser_sound[OF fl] by (simp add: ser_writedata8_def)
    show ?thesis
    proof (cases "fl = 0")
      case F: True
      then obtain lock where o: "ser_readdata32 s3 = Some (lock, s')"
        "tx = \<lparr>vin = [], vout = [], tx_version = v, nLockTime = lock\<rparr>"
        using r v i0 True fl by (auto simp: UnserializeTransaction_def bind_eq_Some_conv)
      show ?thesis
        using h u32_codec.unser_sound[OF o(1)] o(2) True s2 F
        by (simp add: SerializeTransaction_def ok_tx_def HasWitness_def Serialize_vector_Nil)
    next
      case F: False
      then obtain ins s4 outs s5 ins' s6 lock where o:
        "Unserialize_vector (alloc Elem_CTxIn) Unserialize_CTxIn s3 = Some (ins, s4)"
        "Unserialize_vector (alloc Elem_CTxOut) Unserialize_CTxOut s4 = Some (outs, s5)"
        "fl AND 1 \<noteq> 0" "read_witnesses alloc ins s5 = Some (ins', s6)" "list_ex (\<lambda>i. scriptWitness i \<noteq> []) ins'"
        "fl XOR 1 = 0" "ser_readdata32 s6 = Some (lock, s')"
        "tx = \<lparr>vin = ins', vout = outs, tx_version = v, nLockTime = lock\<rparr>"
        using r v i0 True fl by (auto simp: UnserializeTransaction_def bind_eq_Some_conv split: if_splits)
      have f1: "fl = 1" using o(6) by (metis xor.assoc xor.left_neutral xor.right_neutral xor_self_eq)
      note ri = read_vin_sound[OF a o(1)] and rw = read_witnesses_sound[OF a o(4)]
      have st: "map strip_witness ins' = ins" using ri rw by (auto intro!: map_idI)
      have "\<forall>i\<in>set ins'. ok_txin i"
        using ri unfolding st[symmetric] by (auto simp: ok_txin_def strip_witness_def)
      moreover have "length ins' = length ins" using st by (metis length_map)
      ultimately have ok: "ok_tx True tx"
        using o(5,8) ri rw read_vout_sound[OF a o(2)] by (auto simp: ok_tx_def)
      have "Serialize_vector Serialize_CTxIn ins' = Serialize_vector Serialize_CTxIn ins"
        unfolding st[symmetric] by (rule Serialize_vector_strip[symmetric])
      moreover have "HasWitness tx" using o(5,8) by (simp add: HasWitness_def)
      ultimately show ?thesis
        using h ok True s2 f1 ri rw read_vout_sound[OF a o(2)] u32_codec.unser_sound[OF o(7)] o(8)
        by (simp add: SerializeTransaction_def ser_writedata8_def)
    qed
  qed
qed

lemma tx_codec:
  assumes a: "\<And>e. 0 < alloc e"
  shows "codec (SerializeTransaction fw) (UnserializeTransaction alloc fw) (ok_tx fw)"
proof
  fix tx s assume ok: "ok_tx fw tx"
  show "UnserializeTransaction alloc fw (SerializeTransaction fw tx @ s) = Some (tx, s)"
    using tx_roundtrip_basic[where alloc = alloc, OF a ok] tx_roundtrip_witness[where alloc = alloc, OF a] ok
    by (cases "HasWitness tx"; cases fw) (auto simp: ok_tx_def)
qed (rule tx_sound[OF a])

definition ok_header :: "CBlockHeader \<Rightarrow> bool" where
  "ok_header h \<longleftrightarrow> - (2 ^ 31) \<le> h_nVersion h \<and> h_nVersion h < 2 ^ 31 \<and>
     length (h_hashPrevBlock h) = 32 \<and> length (h_hashMerkleRoot h) = 32"

definition ok_block :: "bool \<Rightarrow> CBlock \<Rightarrow> bool" where
  "ok_block fw b \<longleftrightarrow> ok_header (header_of b) \<and> length (vtx b) \<le> 0x02000000 \<and> (\<forall>tx\<in>set (vtx b). ok_tx fw tx)"

text \<open>Two blocks with the same flags.\<close>

definition same_flags :: "CBlock \<Rightarrow> CBlock \<Rightarrow> bool" where
  "same_flags a b \<longleftrightarrow> fChecked b = fChecked a \<and> m_checked_witness_commitment b = m_checked_witness_commitment a \<and>
     m_checked_merkle_root b = m_checked_merkle_root a"

lemma set_header_simps [simp]: "header_of (set_header h b) = h" "vtx (set_header h b) = vtx b" "same_flags b (set_header h b)"
  by (simp_all add: set_header_def header_of_def same_flags_def CBlockHeader.defs CBlock.defs)

lemma set_header_same: "same_flags obj b \<Longrightarrow> (set_header (header_of b) obj)\<lparr>vtx := vtx b\<rparr> = b"
  by (simp add: set_header_def header_of_def same_flags_def CBlockHeader.defs CBlock.defs)

lemma set_vtx_simps [simp]: "header_of (b\<lparr>vtx := txs\<rparr>) = header_of b" "same_flags a (b\<lparr>vtx := txs\<rparr>) \<longleftrightarrow> same_flags a b"
  by (simp_all add: header_of_def same_flags_def CBlockHeader.defs)

interpretation header_codec: codec Serialize_CBlockHeader Unserialize_CBlockHeader ok_header
proof unfold_locales
  fix h s assume "ok_header h"
  then show "Unserialize_CBlockHeader (Serialize_CBlockHeader h @ s) = Some (h, s)"
    by (simp add: Unserialize_CBlockHeader_def Serialize_CBlockHeader_def ok_header_def
        int32_codec.unser_ser uint256_codec.unser_ser u32_codec.unser_ser)
next
  fix s h s' assume "Unserialize_CBlockHeader s = Some (h, s')"
  then show "ok_header h \<and> s = Serialize_CBlockHeader h @ s'"
    by (auto simp: Unserialize_CBlockHeader_def Serialize_CBlockHeader_def ok_header_def bind_eq_Some_conv
        dest!: int32_codec.unser_sound uint256_codec.unser_sound u32_codec.unser_sound)
qed

lemma length_Serialize_CBlockHeader: "ok_header h \<Longrightarrow> length (Serialize_CBlockHeader h) = 80"
  by (simp add: Serialize_CBlockHeader_def ok_header_def Serialize_int32_def Serialize_uint256_def ser_writedata32_def)

lemma block_codec:
  assumes a: "\<And>e. 0 < alloc e"
  shows "codec (Serialize_CBlock fw) (Unserialize_CBlock alloc fw obj) (\<lambda>b. ok_block fw b \<and> same_flags obj b)"
proof
  note v = codec.vector_codec[OF tx_codec[where alloc = alloc and fw = fw, OF a] a[of Elem_CTransaction]]
  fix b :: CBlock and s s'
  show "Unserialize_CBlock alloc fw obj (Serialize_CBlock fw b @ s) = Some (b, s)" if "ok_block fw b \<and> same_flags obj b"
    using that codec.unser_ser[OF v, of "vtx b" s]
    by (simp add: Unserialize_CBlock_def Serialize_CBlock_def ok_block_def header_codec.unser_ser set_header_same)
  assume "Unserialize_CBlock alloc fw obj s = Some (b, s')"
  then obtain h t txs where h: "Unserialize_CBlockHeader s = Some (h, t)"
    "Unserialize_vector (alloc Elem_CTransaction) (UnserializeTransaction alloc fw) t = Some (txs, s')"
    "b = (set_header h obj)\<lparr>vtx := txs\<rparr>"
    by (auto simp: Unserialize_CBlock_def bind_eq_Some_conv)
  then show "(ok_block fw b \<and> same_flags obj b) \<and> s = Serialize_CBlock fw b @ s'"
    using header_codec.unser_sound[OF h(1)] codec.unser_sound[OF v h(2)]
    by (simp add: ok_block_def Serialize_CBlock_def)
qed

section \<open>Amounts\<close>

lemma value_out_loop_iff:
  "MoneyRange acc \<Longrightarrow> value_out_loop acc outs = Some v \<longleftrightarrow>
    (\<forall>o1\<in>set outs. MoneyRange (nValue o1)) \<and> v = acc + sum_list (map nValue outs) \<and> v \<le> MAX_MONEY"
proof (induction outs arbitrary: acc)
  case Nil
  then show ?case by (auto simp: MoneyRange_def)
next
  case (Cons o1 outs)
  have nonneg: "0 \<le> sum_list (map nValue outs)" if "\<forall>o1\<in>set outs. MoneyRange (nValue o1)"
    using that by (intro sum_list_nonneg) (auto simp: MoneyRange_def)
  show ?case
  proof (cases "MoneyRange (nValue o1) \<and> MoneyRange (acc + nValue o1)")
    case True
    then show ?thesis using Cons.IH[of "acc + nValue o1"] by (auto simp: add.assoc)
  next
    case False
    then show ?thesis using Cons.prems nonneg by (auto simp: MoneyRange_def)
  qed
qed

lemma GetValueOut_iff:
  "GetValueOut tx = Some v \<longleftrightarrow>
    (\<forall>o1\<in>set (vout tx). MoneyRange (nValue o1)) \<and> v = sum_list (map nValue (vout tx)) \<and> v \<le> MAX_MONEY"
  using value_out_loop_iff[of 0 "vout tx" v] by (simp add: GetValueOut_def MoneyRange_def MAX_MONEY_def COIN_def)

end
