(* ===== verification/Header_Validation.thy ===== *)
theory Header_Validation
  imports Chain_Params Transaction
begin

text \<open>
  The acceptance of block headers (\<open>validation.cpp\<close>): \<open>ContextualCheckBlockHeader\<close>, \<open>AcceptBlockHeader\<close>, the loop of
  \<open>ProcessNewBlockHeaders\<close> and the pre-check \<open>HasValidProofOfWork\<close>.  A rejection is the pair of its result
  code and reject reason; \<open>None\<close> is a failed assertion or a null dereference.  The block hash, the
  RandomX hash and the build constant of the fuzzer are fields of \<open>ChainEnv\<close>, the clock is an
  argument.  The lemmas give the exact conditions of acceptance, that accepting keeps the block
  index, and that no header is ever accepted at a height that is a positive multiple of 2048.
\<close>

section \<open>Model\<close>

datatype BlockValidationResult =
    BLOCK_RESULT_UNSET | BLOCK_CONSENSUS | BLOCK_CACHED_INVALID | BLOCK_INVALID_HEADER | BLOCK_MUTATED
  | BLOCK_MISSING_PREV | BLOCK_INVALID_PREV | BLOCK_TIME_FUTURE | BLOCK_HEADER_LOW_WORK

type_synonym rejection = "BlockValidationResult \<times> string"

record ChainEnv =
  consensus :: Params
  GetHash :: "CBlockHeader \<Rightarrow> uint256"
  GetPoWHash :: "CBlockHeader \<Rightarrow> uint256 \<Rightarrow> uint256"
  fuzz :: bool

definition MAX_TIMEWARP :: int where
  "MAX_TIMEWARP = 600"

text \<open>\<open>%08x\<close>: eight hexadecimal digits.\<close>

definition hex_digit :: "nat \<Rightarrow> char" where
  "hex_digit d = char_of (if d < 10 then 48 + d else 87 + d)"

definition hex8 :: "u32 \<Rightarrow> string" where
  "hex8 x = map (\<lambda>i. hex_digit (unat x div 16 ^ (7 - i) mod 16)) [0..<8]"

definition DeploymentActiveAfter :: "Params \<Rightarrow> CBlockIndex option \<Rightarrow> BuriedDeployment \<Rightarrow> bool" where
  "DeploymentActiveAfter params pindexPrev dep \<longleftrightarrow>
     (case pindexPrev of None \<Rightarrow> 0 | Some b \<Rightarrow> int (nHeight b) + 1) \<ge> DeploymentHeight params dep"

definition bad_version :: "Params \<Rightarrow> CBlockIndex \<Rightarrow> int \<Rightarrow> bool" where
  "bad_version params prev version \<longleftrightarrow>
     (version < 2 \<and> DeploymentActiveAfter params (Some prev) DEPLOYMENT_HEIGHTINCB) \<or>
     (version < 3 \<and> DeploymentActiveAfter params (Some prev) DEPLOYMENT_DERSIG) \<or>
     (version < 4 \<and> DeploymentActiveAfter params (Some prev) DEPLOYMENT_CLTV)"

text \<open>The seed of the RandomX hash of the block after \<open>p\<close>; \<open>Some None\<close> is the rejection of an unknown seed.\<close>

definition contextual_seed :: "BlockMap \<Rightarrow> uint256 \<Rightarrow> nat \<Rightarrow> uint256 option option" where
  "contextual_seed M p height =
     (let nSeedHeight = (height div 2048) * 2048 in
      if nSeedHeight = 0 then Some (Some uint256_0)
      else do { anc \<leftarrow> GetAncestor M p (int nSeedHeight);
                case anc of None \<Rightarrow> Some None
                | Some q \<Rightarrow> do { h \<leftarrow> GetBlockHash M q; Some (Some h) } })"

definition timewarp :: "Params \<Rightarrow> CBlockIndex \<Rightarrow> nat \<Rightarrow> int \<Rightarrow> bool option" where
  "timewarp params prev height time =
     (if \<not> enforce_BIP94 params then Some False
      else if nPowTargetSpacing params = 0 \<or> DifficultyAdjustmentInterval params = 0 then None
      else Some (int height smod DifficultyAdjustmentInterval params = 0 \<and> time < GetBlockTime prev - MAX_TIMEWARP))"

definition ContextualCheckBlockHeader ::
    "ChainEnv \<Rightarrow> int \<Rightarrow> BlockMap \<Rightarrow> CBlockHeader \<Rightarrow> uint256 \<Rightarrow> bool \<Rightarrow> (rejection + unit) option" where
  "ContextualCheckBlockHeader env now M block pindexPrev fCheckPoW =
     do { prev \<leftarrow> M pindexPrev;
          let height = nHeight prev + 1;
          required \<leftarrow> GetNextWorkRequired (consensus env) M (Some pindexPrev);
          if h_nBits block \<noteq> required then Some (Inl (BLOCK_INVALID_HEADER, ''bad-diffbits''))
          else do {
            seed_opt \<leftarrow> contextual_seed M pindexPrev height;
            case seed_opt of
              None \<Rightarrow> Some (Inl (BLOCK_INVALID_HEADER, ''randomx-seed-unknown''))
            | Some seed \<Rightarrow>
              if fCheckPoW \<and> \<not> CheckProofOfWork (fuzz env) (GetPoWHash env block seed) (h_nBits block) (consensus env)
              then Some (Inl (BLOCK_INVALID_HEADER, ''high-hash''))
              else do {
                mtp \<leftarrow> GetMedianTimePast M pindexPrev;
                let time = uint (h_nTime block);
                if time \<le> mtp then Some (Inl (BLOCK_INVALID_HEADER, ''time-too-old''))
                else do {
                  warp \<leftarrow> timewarp (consensus env) prev height time;
                  if warp then Some (Inl (BLOCK_INVALID_HEADER, ''time-timewarp-attack''))
                  else if time > now + MAX_FUTURE_BLOCK_TIME then Some (Inl (BLOCK_TIME_FUTURE, ''time-too-new''))
                  else if bad_version (consensus env) prev (h_nVersion block)
                  then Some (Inl (BLOCK_INVALID_HEADER, ''bad-version(0x'' @ hex8 (word_of_int (h_nVersion block)) @ '')''))
                  else Some (Inr ()) } } } }"

text \<open>
  \<open>CheckBlockHeader\<close> returns true.  The state is the block index and \<open>m_best_header\<close>; the result of success is the
  key of the entry.
\<close>

definition CheckBlockHeader :: "CBlockHeader \<Rightarrow> bool" where
  "CheckBlockHeader block = True"

type_synonym headers_state = "BlockManager \<times> uint256 option"

definition header_checks ::
    "ChainEnv \<Rightarrow> int \<Rightarrow> BlockMap \<Rightarrow> CBlockHeader \<Rightarrow> (rejection + unit) option" where
  "header_checks env now M block =
     (case M (h_hashPrevBlock block) of
        None \<Rightarrow> Some (Inl (BLOCK_MISSING_PREV, ''prev-blk-not-found''))
      | Some prev \<Rightarrow>
          if nStatus prev AND BLOCK_FAILED_MASK \<noteq> 0 then Some (Inl (BLOCK_INVALID_PREV, ''bad-prevblk''))
          else ContextualCheckBlockHeader env now M block (h_hashPrevBlock block) True)"

definition AcceptBlockHeader ::
    "ChainEnv \<Rightarrow> int \<Rightarrow> bool \<Rightarrow> CBlockHeader \<Rightarrow> headers_state \<Rightarrow> ((rejection + uint256) \<times> headers_state) option" where
  "AcceptBlockHeader env now min_pow_checked block st =
     (let (bm, best) = st; hash = GetHash env block; M = m_block_index bm;
          add = (if \<not> min_pow_checked then Some (Inl (BLOCK_HEADER_LOW_WORK, ''too-little-chainwork''), st)
                 else do { (k, bm', best') \<leftarrow> AddToBlockIndex (GetHash env) bm block best; Some (Inr k, bm', best') }) in
      if hash \<noteq> hashGenesisBlock (consensus env) then
        case M hash of
          Some b \<Rightarrow>
            if nStatus b AND BLOCK_FAILED_MASK \<noteq> 0 then Some (Inl (BLOCK_CACHED_INVALID, ''duplicate-invalid''), st)
            else Some (Inr hash, st)
        | None \<Rightarrow>
            if \<not> CheckBlockHeader block then Some (Inl (BLOCK_RESULT_UNSET, ''''), st)
            else do { r \<leftarrow> header_checks env now M block;
                      case r of Inl e \<Rightarrow> Some (Inl e, st) | Inr _ \<Rightarrow> add }
      else add)"

text \<open>The headers of one message, in order, up to the first that is refused.\<close>

fun ProcessNewBlockHeaders ::
    "ChainEnv \<Rightarrow> int \<Rightarrow> bool \<Rightarrow> CBlockHeader list \<Rightarrow> headers_state \<Rightarrow> ((rejection + unit) \<times> headers_state) option" where
  "ProcessNewBlockHeaders env now min_pow_checked [] st = Some (Inr (), st)"
| "ProcessNewBlockHeaders env now min_pow_checked (h # hs) st =
     do { (r, st) \<leftarrow> AcceptBlockHeader env now min_pow_checked h st;
          case r of Inl e \<Rightarrow> Some (Inl e, st) | Inr _ \<Rightarrow> ProcessNewBlockHeaders env now min_pow_checked hs st }"

subsection \<open>The check before the headers are processed\<close>

text \<open>
  \<open>HasValidProofOfWork\<close> on a batch of headers: \<open>i\<close> is the position in the batch, \<open>height\<close> the height of that header.
  \<open>Some None\<close> is the early \<open>return false\<close>.
\<close>

definition batch_seed ::
    "ChainEnv \<Rightarrow> BlockMap \<Rightarrow> CBlockHeader list \<Rightarrow> nat \<Rightarrow> uint256 option \<Rightarrow> int \<Rightarrow> uint256 option option" where
  "batch_seed env M headers i pindexPrev currentHeight =
     (let prevHeight = currentHeight - 1; nSeedHeight = (prevHeight sdiv 2048) * 2048 in
      if nSeedHeight = 0 then Some (Some uint256_0)
      else do {
        in_index \<leftarrow> (case pindexPrev of None \<Rightarrow> Some False
                     | Some p \<Rightarrow> do { b \<leftarrow> M p; Some (nSeedHeight \<le> int (nHeight b)) });
        if in_index then
          do { anc \<leftarrow> GetAncestor M (the pindexPrev) nSeedHeight;
               case anc of None \<Rightarrow> Some None | Some q \<Rightarrow> do { h \<leftarrow> GetBlockHash M q; Some (Some h) } }
        else
          let offset = currentHeight - nSeedHeight in
          if offset \<le> 0 \<or> nat offset > i then Some None
          else let h = GetHash env (headers ! (i - nat offset)) in
               Some (Some (if h \<noteq> uint256_0 then h else uint256_0)) })"

fun batch_loop ::
    "ChainEnv \<Rightarrow> BlockMap \<Rightarrow> CBlockHeader list \<Rightarrow> nat \<Rightarrow> CBlockHeader list \<Rightarrow> uint256 option \<Rightarrow> uint256 \<Rightarrow> int \<Rightarrow> bool option" where
  "batch_loop env M headers i [] pindexPrev prevHash currentHeight = Some True"
| "batch_loop env M headers i (header # rest) pindexPrev prevHash currentHeight =
     do { let gap = (h_hashPrevBlock header \<noteq> prevHash);
          let pindexPrev = (if gap then (if M (h_hashPrevBlock header) = None then None else Some (h_hashPrevBlock header))
                            else pindexPrev);
          if gap \<and> pindexPrev = None \<and> h_hashPrevBlock header \<noteq> hashGenesisBlock (consensus env) then Some False
          else do {
            currentHeight \<leftarrow> (if \<not> gap then Some currentHeight
                              else case pindexPrev of None \<Rightarrow> Some 0
                                   | Some p \<Rightarrow> do { b \<leftarrow> M p; Some (int (nHeight b) + 1) });
            seed_opt \<leftarrow> batch_seed env M headers i pindexPrev currentHeight;
            case seed_opt of None \<Rightarrow> Some False
            | Some seed \<Rightarrow>
                if \<not> CheckProofOfWork (fuzz env) (GetPoWHash env header seed) (h_nBits header) (consensus env) then Some False
                else batch_loop env M headers (Suc i) rest pindexPrev (GetHash env header) (currentHeight + 1) } }"

definition HasValidProofOfWork :: "ChainEnv \<Rightarrow> BlockManager \<Rightarrow> CBlockHeader list \<Rightarrow> bool option" where
  "HasValidProofOfWork env bm headers =
     (case headers of [] \<Rightarrow> Some True
      | h0 # _ \<Rightarrow>
          let hashPrevBlock = h_hashPrevBlock h0; pindexPrev = LookupBlockIndex bm hashPrevBlock in
          if pindexPrev = None \<and> \<not> uint256_IsNull hashPrevBlock \<and> hashPrevBlock \<noteq> hashGenesisBlock (consensus env)
          then Some False
          else do { currentHeight \<leftarrow> (case pindexPrev of None \<Rightarrow> Some 0
                       | Some p \<Rightarrow> do { b \<leftarrow> m_block_index bm p; Some (int (nHeight b) + 1) });
                    batch_loop env (m_block_index bm) headers 0 headers pindexPrev hashPrevBlock currentHeight })"

section \<open>One header\<close>

text \<open>What a header has to satisfy.\<close>

definition header_ok :: "ChainEnv \<Rightarrow> int \<Rightarrow> BlockMap \<Rightarrow> CBlockHeader \<Rightarrow> uint256 \<Rightarrow> bool" where
  "header_ok env now M block p \<longleftrightarrow> (\<exists>prev seed mtp. M p = Some prev \<and>
     GetNextWorkRequired (consensus env) M (Some p) = Some (h_nBits block) \<and>
     contextual_seed M p (nHeight prev + 1) = Some (Some seed) \<and>
     CheckProofOfWork (fuzz env) (GetPoWHash env block seed) (h_nBits block) (consensus env) \<and>
     GetMedianTimePast M p = Some mtp \<and> mtp < uint (h_nTime block) \<and>
     timewarp (consensus env) prev (nHeight prev + 1) (uint (h_nTime block)) = Some False \<and>
     uint (h_nTime block) \<le> now + MAX_FUTURE_BLOCK_TIME \<and>
     \<not> bad_version (consensus env) prev (h_nVersion block))"

lemma ContextualCheckBlockHeader_iff:
  "ContextualCheckBlockHeader env now M block p True = Some (Inr ()) \<longleftrightarrow> header_ok env now M block p"
  (is "?L \<longleftrightarrow> ?R")
proof
  assume ?R
  then obtain prev seed mtp where *: "M p = Some prev"
     "GetNextWorkRequired (consensus env) M (Some p) = Some (h_nBits block)"
     "contextual_seed M p (nHeight prev + 1) = Some (Some seed)"
     "CheckProofOfWork (fuzz env) (GetPoWHash env block seed) (h_nBits block) (consensus env)"
     "GetMedianTimePast M p = Some mtp" "\<not> uint (h_nTime block) \<le> mtp"
     "timewarp (consensus env) prev (nHeight prev + 1) (uint (h_nTime block)) = Some False"
     "\<not> uint (h_nTime block) > now + MAX_FUTURE_BLOCK_TIME"
     "\<not> bad_version (consensus env) prev (h_nVersion block)"
    unfolding header_ok_def not_le not_less by blast
  then show ?L by (simp add: ContextualCheckBlockHeader_def Let_def)
next
  assume L: ?L
  obtain prev where p: "M p = Some prev" using L by (cases "M p") (simp_all add: ContextualCheckBlockHeader_def)
  obtain r where r: "GetNextWorkRequired (consensus env) M (Some p) = Some r"
    using L p by (cases "GetNextWorkRequired (consensus env) M (Some p)") (simp_all add: ContextualCheckBlockHeader_def)
  have b: "h_nBits block = r" using L p r by (simp add: ContextualCheckBlockHeader_def Let_def split: if_splits)
  obtain seed where s: "contextual_seed M p (nHeight prev + 1) = Some (Some seed)"
    using L p r b unfolding ContextualCheckBlockHeader_def Let_def
    by (cases "contextual_seed M p (nHeight prev + 1)") (auto split: option.splits)
  have w: "CheckProofOfWork (fuzz env) (GetPoWHash env block seed) (h_nBits block) (consensus env)"
    using L p r b s by (simp add: ContextualCheckBlockHeader_def Let_def split: if_splits)
  obtain mtp where m: "GetMedianTimePast M p = Some mtp"
    using L p r b s w by (cases "GetMedianTimePast M p") (simp_all add: ContextualCheckBlockHeader_def Let_def)
  have t: "\<not> uint (h_nTime block) \<le> mtp"
    using L p r b s w m by (simp add: ContextualCheckBlockHeader_def Let_def split: if_splits)
  obtain x where x: "timewarp (consensus env) prev (nHeight prev + 1) (uint (h_nTime block)) = Some x"
    using L p r b s w m t
    by (cases "timewarp (consensus env) prev (nHeight prev + 1) (uint (h_nTime block))")
      (simp_all add: ContextualCheckBlockHeader_def Let_def)
  have "\<not> x \<and> \<not> uint (h_nTime block) > now + MAX_FUTURE_BLOCK_TIME \<and> \<not> bad_version (consensus env) prev (h_nVersion block)"
    using L p r b s w m t x by (simp add: ContextualCheckBlockHeader_def Let_def split: if_splits)
  with p r b s w m t x show ?R unfolding header_ok_def by auto
qed

lemma header_checks_iff:
  "header_checks env now M block = Some (Inr ()) \<longleftrightarrow>
    (\<exists>prev. M (h_hashPrevBlock block) = Some prev \<and> nStatus prev AND BLOCK_FAILED_MASK = 0) \<and>
    header_ok env now M block (h_hashPrevBlock block)"
  by (auto simp: header_checks_def ContextualCheckBlockHeader_iff split: option.splits)

section \<open>The seed\<close>

lemma contextual_seed_boundary:
  assumes "M p = Some prev" "nHeight prev + 1 = 2048 * k" "0 < k"
  shows "contextual_seed M p (nHeight prev + 1) = Some None"
  using assms by (auto simp: contextual_seed_def GetAncestor_def Let_def)

lemma contextual_seed_below:
  "height < 2048 \<Longrightarrow> contextual_seed M p height = Some (Some uint256_0)"
  by (simp add: contextual_seed_def)

text \<open>Up to the height of the block itself the seed is 0 or the hash of the ancestor at the last multiple of 2048.\<close>

lemma contextual_seed_defined:
  assumes wf: "wf_index M" and p: "M p = Some prev"
  shows "\<exists>q. contextual_seed M p (nHeight prev) = Some (Some q) \<and>
    (if nHeight prev < 2048 then q = uint256_0
     else walk_back M (nHeight prev - nHeight prev div 2048 * 2048) p = Some q)"
proof (cases "nHeight prev < 2048")
  case True
  then show ?thesis by (simp add: contextual_seed_below)
next
  case False
  let ?s = "nHeight prev div 2048 * 2048"
  have nz: "?s \<noteq> 0" using False by simp
  have le: "int ?s \<le> int (nHeight prev)" by (simp only: of_nat_le_iff)
  obtain q c where q: "GetAncestor M p (int ?s) = Some (Some q)" "walk_back M (nHeight prev - ?s) p = Some q" "M q = Some c"
    using GetAncestor_walk_back[OF wf p _ le] unfolding nat_int by auto
  have "phashBlock c = Some q" using wf_indexD[OF wf q(3)] by (simp add: wf_entry_def)
  then have "GetBlockHash M q = Some q" using q(3) by (simp add: GetBlockHash_def)
  then show ?thesis using q nz False by (simp add: contextual_seed_def Let_def del: of_nat_mult)
qed

lemma header_ok_not_boundary:
  assumes ok: "header_ok env now M block p" and p: "M p = Some prev"
  shows "\<not> 2048 dvd nHeight prev + 1"
proof
  assume "2048 dvd nHeight prev + 1"
  then obtain k where k: "nHeight prev + 1 = 2048 * k" by (rule dvdE)
  then have "0 < k" by (cases k) simp_all
  then show False using contextual_seed_boundary[of M p prev k, OF p k] ok p unfolding header_ok_def by auto
qed

text \<open>The pre-check of a single header uses the epoch of its predecessor.\<close>

lemma sdiv_2048: "int n sdiv 2048 = int (n div 2048)"
  by (cases "n = 0") (simp_all add: signed_divide_int_def zdiv_int)

lemma batch_seed_known:
  assumes p: "M p = Some prev"
  shows "batch_seed env M headers i (Some p) (int (nHeight prev) + 1) = contextual_seed M p (nHeight prev)"
proof -
  let ?s = "nHeight prev div 2048 * 2048"
  have s: "(int (nHeight prev) + 1 - 1) sdiv 2048 * 2048 = int ?s" by (simp add: sdiv_2048)
  have "int ?s \<le> int (nHeight prev)" by (simp only: of_nat_le_iff)
  then show ?thesis unfolding batch_seed_def contextual_seed_def Let_def s using p by simp
qed

lemma HasValidProofOfWork_single:
  assumes p: "m_block_index bm (h_hashPrevBlock h) = Some prev"
    and s: "contextual_seed (m_block_index bm) (h_hashPrevBlock h) (nHeight prev) = Some (Some seed)"
  shows "HasValidProofOfWork env bm [h] =
    Some (CheckProofOfWork (fuzz env) (GetPoWHash env h seed) (h_nBits h) (consensus env))"
proof -
  have "LookupBlockIndex bm (h_hashPrevBlock h) = Some (h_hashPrevBlock h)" using p by (simp add: LookupBlockIndex_def)
  then show ?thesis using p s batch_seed_known[where M = "m_block_index bm" and env = env and headers = "[h]" and i = 0, OF p]
    by (simp add: HasValidProofOfWork_def Let_def)
qed

lemma contextual_seed_same_epoch:
  assumes "\<not> 2048 dvd n + 1"
  shows "contextual_seed M p (n + 1) = contextual_seed M p n"
proof -
  have "(n + 1) div 2048 = n div 2048" using assms by (metis Suc_eq_plus1 div_Suc dvd_eq_mod_eq_0)
  then show ?thesis by (simp add: contextual_seed_def)
qed

section \<open>The index under new headers\<close>

definition headers_inv :: "ChainEnv \<Rightarrow> headers_state \<Rightarrow> bool" where
  "headers_inv env st \<longleftrightarrow> wf_index (m_block_index (fst st)) \<and> work_index (m_block_index (fst st)) \<and>
     (\<forall>q. snd st = Some q \<longrightarrow> q \<in> dom (m_block_index (fst st))) \<and>
     hashGenesisBlock (consensus env) \<in> dom (m_block_index (fst st))"

text \<open>Adding a header whose predecessor is known: the entry is the only one that changes.\<close>

lemma AddToBlockIndex_entry:
  assumes wf: "wf_index (m_block_index bm)" and work: "work_index (m_block_index bm)"
    and best: "\<And>q. best = Some q \<Longrightarrow> q \<in> dom (m_block_index bm)"
    and new: "m_block_index bm (H block) = None"
    and prev: "m_block_index bm (h_hashPrevBlock block) = Some pr"
  obtains b bm' best' where "AddToBlockIndex H bm block best = Some (H block, bm', best')"
    "m_block_index bm' = (m_block_index bm)(H block \<mapsto> b)" "wf_index (m_block_index bm')" "work_index (m_block_index bm')"
    "pprev b = Some (h_hashPrevBlock block)" "nHeight b = nHeight pr + 1" "nBits b = h_nBits block"
    "nTime b = h_nTime block" "\<exists>q. best' = Some q \<and> q \<in> dom (m_block_index bm')"
proof -
  let ?M = "m_block_index bm"
  have ne: "h_hashPrevBlock block \<noteq> H block" using new prev by auto
  obtain bm' best' where a: "AddToBlockIndex H bm block best = Some (H block, bm', best')"
    "wf_index (m_block_index bm')" "work_index (m_block_index bm')"
    using AddToBlockIndex_wf[where GetHash = H and bm = bm and block = block and best = best, OF wf work best ne] by blast
  obtain b where b: "new_block_index (?M(H block \<mapsto> CBlockIndex_of_header block)) (H block) block = Some b"
    "nHeight b = nHeight pr + 1" "pprev b = Some (h_hashPrevBlock block)" "nBits b = h_nBits block" "nTime b = h_nTime block"
    using new_block_index_linked[where M = ?M, OF wf new prev] by blast
  have M': "m_block_index bm' = ?M(H block \<mapsto> b)" "\<exists>q. best' = Some q \<and> q \<in> dom (?M(H block \<mapsto> b))"
    using a(1) new b(1) best by (auto simp: AddToBlockIndex_def Let_def bind_eq_Some_conv split: option.splits if_splits)
  show thesis by (rule that[OF a(1) M'(1) a(2,3) b(3,2,4,5)]) (use M' in simp)
qed

text \<open>
  A header that is processed leaves the state alone, or it passed every check and is the one new entry, one above its
  predecessor.
\<close>

definition header_added :: "ChainEnv \<Rightarrow> int \<Rightarrow> CBlockHeader \<Rightarrow> BlockMap \<Rightarrow> BlockMap \<Rightarrow> bool" where
  "header_added env now block M M' \<longleftrightarrow> (\<exists>b pr. M (GetHash env block) = None \<and> M' = M(GetHash env block \<mapsto> b) \<and>
     M (h_hashPrevBlock block) = Some pr \<and> nStatus pr AND BLOCK_FAILED_MASK = 0 \<and>
     header_ok env now M block (h_hashPrevBlock block) \<and>
     pprev b = Some (h_hashPrevBlock block) \<and> nHeight b = nHeight pr + 1 \<and>
     nBits b = h_nBits block \<and> nTime b = h_nTime block)"

lemma AcceptBlockHeader_spec:
  assumes inv: "headers_inv env st" and acc: "AcceptBlockHeader env now mpc block st = Some (r, st')"
  shows "headers_inv env st' \<and> (st' = st \<or> r = Inr (GetHash env block) \<and> mpc \<and>
    header_added env now block (m_block_index (fst st)) (m_block_index (fst st')))"
proof -
  obtain bm best where st: "st = (bm, best)" by (cases st)
  let ?M = "m_block_index bm" and ?h = "GetHash env block"
  have i: "wf_index ?M" "work_index ?M" "\<And>q. best = Some q \<Longrightarrow> q \<in> dom ?M" "hashGenesisBlock (consensus env) \<in> dom ?M"
    using inv by (auto simp: headers_inv_def st)
  show ?thesis
  proof (cases "st' = st")
    case False
    have genesis: "?h \<noteq> hashGenesisBlock (consensus env)"
    proof
      assume g: "?h = hashGenesisBlock (consensus env)"
      then have "?M ?h \<noteq> None" using i(4) by auto
      then have "AddToBlockIndex (GetHash env) bm block best = Some (?h, bm, best)" by (simp add: AddToBlockIndex_def)
      then show False using acc g False by (auto simp: AcceptBlockHeader_def Let_def st split: if_splits)
    qed
    have new: "?M ?h = None"
      using acc genesis False by (cases "?M ?h") (auto simp: AcceptBlockHeader_def Let_def st split: if_splits)
    obtain c where c: "header_checks env now ?M block = Some c"
      using acc genesis new by (auto simp: AcceptBlockHeader_def CheckBlockHeader_def Let_def st bind_eq_Some_conv)
    have c': "c = Inr ()" using acc genesis new c False
      by (cases c) (auto simp: AcceptBlockHeader_def CheckBlockHeader_def Let_def st)
    have mpc: mpc using acc genesis new c c' False
      by (auto simp: AcceptBlockHeader_def CheckBlockHeader_def Let_def st split: if_splits)
    have ok: "header_ok env now ?M block (h_hashPrevBlock block)" using c c' header_checks_iff by blast
    obtain pr where pr: "?M (h_hashPrevBlock block) = Some pr" "nStatus pr AND BLOCK_FAILED_MASK = 0"
      using c c' header_checks_iff by blast
    obtain b bm' best' where a: "AddToBlockIndex (GetHash env) bm block best = Some (?h, bm', best')"
      "m_block_index bm' = ?M(?h \<mapsto> b)" "wf_index (m_block_index bm')" "work_index (m_block_index bm')"
      "pprev b = Some (h_hashPrevBlock block)" "nHeight b = nHeight pr + 1" "nBits b = h_nBits block" "nTime b = h_nTime block"
      "\<exists>q. best' = Some q \<and> q \<in> dom (m_block_index bm')"
      by (rule AddToBlockIndex_entry[where H = "GetHash env" and bm = bm and block = block and best = best and pr = pr,
            OF i(1,2,3) new pr(1)])
    have st': "st' = (bm', best')" "r = Inr ?h" using acc genesis new c c' mpc a(1)
      by (auto simp: AcceptBlockHeader_def CheckBlockHeader_def Let_def st)
    have "headers_inv env st'" using a i(4) by (auto simp: headers_inv_def st')
    moreover have "header_added env now block ?M (m_block_index bm')"
      unfolding header_added_def using new a pr ok by blast
    ultimately show ?thesis using st' mpc by (simp add: st)
  qed (use inv in simp)
qed

text \<open>A property of the index that every added header keeps holds after any message.\<close>

lemma ProcessNewBlockHeaders_inv:
  assumes "ProcessNewBlockHeaders env now mpc hs st = Some (r, st')" "headers_inv env st" "P (m_block_index (fst st))"
    and step: "\<And>block M M'. P M \<Longrightarrow> header_added env now block M M' \<Longrightarrow> P M'"
  shows "headers_inv env st' \<and> P (m_block_index (fst st'))"
  using assms(1-3)
proof (induction hs arbitrary: st)
  case (Cons h hs)
  obtain r1 st1 where a: "AcceptBlockHeader env now mpc h st = Some (r1, st1)"
    using Cons.prems(1) by (auto simp: bind_eq_Some_conv)
  from AcceptBlockHeader_spec[OF Cons.prems(2) a] have i: "headers_inv env st1" and "P (m_block_index (fst st1))"
    using Cons.prems(3) step by blast+
  then show ?case using Cons.IH[of st1] Cons.prems(1) a by (cases r1) auto
qed simp

text \<open>Calls at successive clock values, with any headers.\<close>

inductive headers_reach :: "ChainEnv \<Rightarrow> headers_state \<Rightarrow> headers_state \<Rightarrow> bool" for env where
  reach_refl: "headers_reach env st st"
| reach_step: "headers_reach env st st1 \<Longrightarrow> ProcessNewBlockHeaders env now mpc hs st1 = Some (r, st2) \<Longrightarrow>
    headers_reach env st st2"

lemma headers_reach_inv:
  assumes "headers_reach env st st'" "headers_inv env st" "P (m_block_index (fst st))"
    and "\<And>now block M M'. P M \<Longrightarrow> header_added env now block M M' \<Longrightarrow> P M'"
  shows "headers_inv env st' \<and> P (m_block_index (fst st'))"
  using assms(1-3)
proof (induction rule: headers_reach.induct)
  case (reach_step st st1 now mpc hs r st2)
  then show ?case using ProcessNewBlockHeaders_inv[of env now mpc hs st1 r st2 P] assms(4) by blast
qed blast

text \<open>The chain of headers cannot grow past height 2047.\<close>

definition below_first_seed :: "BlockMap \<Rightarrow> bool" where
  "below_first_seed M \<longleftrightarrow> (\<forall>p b. M p = Some b \<longrightarrow> nHeight b < 2048)"

lemma below_first_seed_kept:
  assumes P: "below_first_seed M" and a: "header_added env now block M M'"
  shows "below_first_seed M'"
proof -
  obtain b pr where b: "M' = M(GetHash env block \<mapsto> b)" "M (h_hashPrevBlock block) = Some pr" "nHeight b = nHeight pr + 1"
    "header_ok env now M block (h_hashPrevBlock block)" using a unfolding header_added_def by blast
  have "\<not> 2048 dvd nHeight pr + 1" by (rule header_ok_not_boundary[OF b(4,2)])
  then have "nHeight pr + 1 \<noteq> 2048" by (metis dvd_refl)
  moreover have "nHeight pr < 2048" using P b(2) unfolding below_first_seed_def by blast
  ultimately have "nHeight b < 2048" using b(3) by linarith
  then show ?thesis using P unfolding below_first_seed_def b(1) by simp
qed

end
