(* ===== verification/Examples.thy ===== *)
theory Examples
  imports Header_Validation
begin

text \<open>
  Concrete block trees on which the hypotheses of the theorems are evaluated.  \<open>line_chain bits time n\<close> is a
  chain of \<open>n + 1\<close> blocks without forks, with the compact targets and times given per height; the
  key of the block at height \<open>h\<close> is the 32-byte number \<open>h + 1\<close>.
\<close>

definition line_key :: "nat \<Rightarrow> uint256" where
  "line_key h = words_of_nat 32 (h + 1)"

fun line_work :: "(nat \<Rightarrow> u32) \<Rightarrow> nat \<Rightarrow> base_uint" where
  "line_work bts 0 = bu_add (base_uint_u64 0) (the (GetBlockProof ((CBlockIndex_of_header
     \<lparr>h_nVersion = 1, h_hashPrevBlock = uint256_0, h_hashMerkleRoot = uint256_0, h_nTime = 0,
      h_nBits = bts 0, h_nNonce = 0\<rparr>))))"
| "line_work bts (Suc h) = bu_add (line_work bts h) (the (GetBlockProof ((CBlockIndex_of_header
     \<lparr>h_nVersion = 1, h_hashPrevBlock = uint256_0, h_hashMerkleRoot = uint256_0, h_nTime = 0,
      h_nBits = bts (Suc h), h_nNonce = 0\<rparr>))))"

fun line_time_max :: "(nat \<Rightarrow> u32) \<Rightarrow> nat \<Rightarrow> u32" where
  "line_time_max tm 0 = tm 0"
| "line_time_max tm (Suc h) = max (line_time_max tm h) (tm (Suc h))"

definition line_block :: "(nat \<Rightarrow> u32) \<Rightarrow> (nat \<Rightarrow> u32) \<Rightarrow> nat \<Rightarrow> CBlockIndex" where
  "line_block bts tm h =
     \<lparr>phashBlock = Some (line_key h), pprev = (if h = 0 then None else Some (line_key (h - 1))),
      pskip = (if h = 0 then None else Some (line_key (GetSkipHeight h))), nHeight = h,
      nFile = 0, nDataPos = 0, nUndoPos = 0, nChainWork = line_work bts h, nTx = 1,
      m_chain_tx_count = of_nat (h + 1), nStatus = 2, nVersion = 1, hashMerkleRoot = uint256_0,
      nTime = tm h, nBits = bts h, nNonce = 0, nSequenceId = 1, nTimeMax = line_time_max tm h\<rparr>"

definition line_chain :: "(nat \<Rightarrow> u32) \<Rightarrow> (nat \<Rightarrow> u32) \<Rightarrow> nat \<Rightarrow> BlockMap" where
  "line_chain bts tm n p =
     (if length p = 32 \<and> 0 < val_le p \<and> val_le p \<le> n + 1 then Some (line_block bts tm (val_le p - 1)) else None)"

lemma val_line_key: "h < 2 ^ 255 \<Longrightarrow> val_le (line_key h) = h + 1"
  by (simp add: line_key_def val_le_words_of_nat)

lemma line_chain_key: "h \<le> n \<Longrightarrow> n < 2 ^ 255 \<Longrightarrow> line_chain bts tm n (line_key h) = Some (line_block bts tm h)"
  by (simp add: line_chain_def val_line_key line_key_def[THEN arg_cong[where f = length]])

lemma line_chain_SomeD:
  assumes "line_chain bts tm n p = Some b"
  shows "\<exists>h \<le> n. p = line_key h \<and> b = line_block bts tm h"
proof -
  have p: "length p = 32" "0 < val_le p" "val_le p \<le> n + 1" "b = line_block bts tm (val_le p - 1)"
    using assms by (auto simp: line_chain_def split: if_splits)
  then have "p = line_key (val_le p - 1)" by (simp add: line_key_def words_of_nat_val_le)
  then show ?thesis using p by (intro exI[of _ "val_le p - 1"]) auto
qed

lemma walk_back_line:
  assumes "n < 2 ^ 255"
  shows "h \<le> n \<Longrightarrow> k \<le> h \<Longrightarrow> walk_back (line_chain bts tm n) k (line_key h) = Some (line_key (h - k))"
  by (induction k arbitrary: h) (simp_all add: line_chain_key[OF _ assms] line_block_def)

lemma length_line_work [simp]: "length (line_work bts h) = 8"
proof -
  have "length (the (GetBlockProof b)) = 8" for b using GetBlockProof_val[of b] by auto
  then show ?thesis by (induction h) simp_all
qed

lemma wf_line_chain:
  assumes n: "n < 2 ^ 255"
  shows "wf_index (line_chain bts tm n)"
  unfolding wf_index_def
proof (intro allI impI)
  fix p b assume "line_chain bts tm n p = Some b"
  then obtain h where h: "h \<le> n" "p = line_key h" "b = line_block bts tm h" using line_chain_SomeD by blast
  show "wf_entry (line_chain bts tm n) p b"
  proof (cases "h = 0")
    case True
    then show ?thesis using h by (simp add: wf_entry_def line_block_def del: line_work.simps)
  next
    case False
    then have lt: "GetSkipHeight h < h" by (simp add: GetSkipHeight_less)
    then have "walk_back (line_chain bts tm n) (h - GetSkipHeight h) (line_key h) = Some (line_key (GetSkipHeight h))"
      using walk_back_line[OF n h(1), of "h - GetSkipHeight h"] by simp
    moreover have "line_chain bts tm n (line_key (h - 1)) = Some (line_block bts tm (h - 1))"
      using h(1) by (intro line_chain_key n) simp
    ultimately show ?thesis using h False by (simp add: wf_entry_def line_block_def)
  qed
qed

lemma nth_back_line:
  "n < 2 ^ 255 \<Longrightarrow> h \<le> n \<Longrightarrow> k \<le> h \<Longrightarrow> nth_back (line_chain bts tm n) (line_key h) k = line_block bts tm (h - k)"
  by (simp add: nth_back_def walk_back_line line_chain_key)


lemma GetBlockProof_cong: "nBits a = nBits b \<Longrightarrow> GetBlockProof a = GetBlockProof b"
  by (simp add: GetBlockProof_def)

lemma work_line_chain:
  assumes n: "n < 2 ^ 255"
  shows "work_index (line_chain bts tm n)"
  unfolding work_index_def
proof (intro allI impI)
  fix p b assume "line_chain bts tm n p = Some b"
  then obtain h where h: "h \<le> n" "b = line_block bts tm h" using line_chain_SomeD by blast
  let ?b0 = "CBlockIndex_of_header
     \<lparr>h_nVersion = 1, h_hashPrevBlock = uint256_0, h_hashMerkleRoot = uint256_0, h_nTime = 0,
      h_nBits = bts h, h_nNonce = 0\<rparr>"
  obtain w where w: "GetBlockProof ?b0 = Some w" "length w = 8" using GetBlockProof_val[of ?b0] by blast
  have g: "GetBlockProof b = Some w"
    using w(1) GetBlockProof_cong[of b ?b0] h(2) by (simp add: line_block_def CBlockIndex_of_header_def)
  show "work_entry (line_chain bts tm n) b"
  proof (cases h)
    case 0
    then show ?thesis using g w h(2) by (simp add: work_entry_def line_block_def)
  next
    case (Suc k)
    have "line_chain bts tm n (line_key k) = Some (line_block bts tm k)"
      using h(1) Suc by (intro line_chain_key n) simp
    then show ?thesis using g w h(2) Suc by (simp add: work_entry_def line_block_def)
  qed
qed

section \<open>A chain of 21 blocks\<close>

abbreviation line20 :: BlockMap where
  "line20 \<equiv> line_chain (\<lambda>_. 0x1d00ffff) of_nat 20"

lemma line20_facts:
  "wf_index line20" "work_index line20" "h \<le> 20 \<Longrightarrow> line20 (line_key h) = Some (line_block (\<lambda>_. 0x1d00ffff) of_nat h)"
  "h \<le> 20 \<Longrightarrow> k \<le> h \<Longrightarrow> walk_back line20 k (line_key h) = Some (line_key (h - k))"
  by (simp_all add: wf_line_chain work_line_chain line_chain_key walk_back_line)

lemma line20_same_root: "h \<le> 20 \<Longrightarrow> h' \<le> 20 \<Longrightarrow> same_root line20 (line_key h) (line_key h')"
  unfolding same_root_def
  by (intro exI[of _ "line_block (\<lambda>_. 0x1d00ffff) of_nat h"] exI[of _ "line_block (\<lambda>_. 0x1d00ffff) of_nat h'"])
    (simp add: line20_facts line_block_def)

lemma line20_is_chain: "is_chain line20 (line_key 20) (map (\<lambda>i. Some (line_key i)) [0..<21])"
  by (simp add: is_chain_def line20_facts line_block_def)

section \<open>A main-network chain\<close>

text \<open>A main-network chain of 101 blocks, ten minutes apart, every block with the compact target \<open>bts\<close>.\<close>

abbreviation main0 :: Params where
  "main0 \<equiv> main_consensus uint256_0"

definition main_time :: "nat \<Rightarrow> u32" where
  "main_time h = 1766971600 + 600 * of_nat h"

definition main_chain :: "u32 \<Rightarrow> BlockMap" where
  "main_chain c = line_chain (\<lambda>_. c) main_time 100"

lemma compact_examples:
  "compact_val 0x1d00ffff = 0xffff * 2 ^ 208" "compact_val 0x1f00ffff = 0xffff * 2 ^ 224"
  "compact_val 0x1f0fffff = 0xfffff * 2 ^ 224" "compact_valid 0x1f00ffff"
  by (simp_all add: compact_val_def compact_valid_def)

lemma uint_main_time: "h \<le> 100 \<Longrightarrow> uint (main_time h) = 1766971600 + 600 * int h"
  by (simp add: main_time_def uint_word_ariths unsigned_of_nat take_bit_nat_eq_self)

lemma main_chain_back: "j \<le> 100 \<Longrightarrow> nth_back (main_chain c) (line_key 100) j = line_block (\<lambda>_. c) main_time (100 - j)"
  by (simp add: main_chain_def nth_back_line)

lemma main_chain_target: "j \<le> 100 \<Longrightarrow> block_target (nth_back (main_chain c) (line_key 100) j) = val_le (fst (SetCompact c))"
  by (simp add: main_chain_back block_target_def line_block_def)

lemma main_chain_window:
  assumes "val_le (fst (SetCompact c)) < 2 ^ 244"
  shows "lwma_window main0 (main_chain c) (line_key 100)"
proof -
  have "\<exists>b. main_chain c (line_key 100) = Some b \<and> 90 \<le> nHeight b"
    by (simp add: main_chain_def line_chain_key line_block_def)
  moreover have "wf_index (main_chain c)" unfolding main_chain_def by (rule wf_line_chain) simp
  moreover have "block_target (nth_back (main_chain c) (line_key 100) j) \<le> val_le (powLimit main0)" if "j < 90" for j
    using that assms main_chain_target[of j c] main_powLimit[of uint256_0] by simp
  ultimately show ?thesis using networks_lwma_params(1)[of uint256_0]
    unfolding lwma_window_def lwma_params_def by blast
qed

section \<open>A transaction\<close>

definition sample_tx :: CTransaction where
  "sample_tx = \<lparr>vin = [\<lparr>prevout = \<lparr>op_hash = line_key 4, op_n = 1\<rparr>, scriptSig = [], nSequence = SEQUENCE_FINAL,
     scriptWitness = [[1, 2], []]\<rparr>], vout = [\<lparr>nValue = 5000, scriptPubKey = [0x51]\<rparr>], tx_version = 2, nLockTime = 0\<rparr>"

lemma ok_sample_tx: "ok_tx True sample_tx"
  by (simp add: ok_tx_def sample_tx_def ok_txin_def ok_outpoint_def ok_stack_def ok_txout_def line_key_def)

section \<open>A header\<close>

text \<open>A main-network node whose RandomX hash is constantly 0 and whose block hash is the nonce as a key.\<close>

definition main_env :: ChainEnv where
  "main_env = \<lparr>consensus = main_consensus (line_key 0), GetHash = \<lambda>h. line_key (unat (h_nNonce h)),
     GetPoWHash = \<lambda>_ _. uint256_0, fuzz = False\<rparr>"

definition limit_bits :: u32 where
  "limit_bits = the (GetCompact False (UintToArith256 (powLimit (consensus main_env))))"

definition short_state :: headers_state where
  "short_state = (\<lparr>m_block_index = line_chain (\<lambda>_. limit_bits) (\<lambda>_. 0) 3, m_dirty_blockindex = {}\<rparr>, Some (line_key 3))"

definition next_header :: CBlockHeader where
  "next_header = \<lparr>h_nVersion = 4, h_hashPrevBlock = line_key 3, h_hashMerkleRoot = uint256_0, h_nTime = 600,
     h_nBits = limit_bits, h_nNonce = 4\<rparr>"

lemma short_index: "h \<le> 3 \<Longrightarrow> line_chain (\<lambda>_. limit_bits) (\<lambda>_. 0) 3 (line_key h) = Some (line_block (\<lambda>_. limit_bits) (\<lambda>_. 0) h)"
  by (simp add: line_chain_key)

lemma short_inv: "headers_inv main_env short_state" "below_first_seed (m_block_index (fst short_state))"
proof -
  have "line_key 3 \<in> dom (line_chain (\<lambda>_. limit_bits) (\<lambda>_. 0) 3)" "line_key 0 \<in> dom (line_chain (\<lambda>_. limit_bits) (\<lambda>_. 0) 3)"
    using short_index[of 3] short_index[of 0] by auto
  then show "headers_inv main_env short_state"
    by (simp add: headers_inv_def short_state_def main_env_def wf_line_chain work_line_chain main_consensus_def)
  show "below_first_seed (m_block_index (fst short_state))"
    using line_chain_SomeD[of "\<lambda>_. limit_bits" "\<lambda>_. 0" 3] by (fastforce simp: below_first_seed_def short_state_def line_block_def)
qed

lemma limit_bits_ok:
  "GetCompact False (UintToArith256 (powLimit (consensus main_env))) = Some limit_bits"
  "CheckProofOfWork False uint256_0 limit_bits (consensus main_env)"
proof -
  let ?L = "UintToArith256 (powLimit (consensus main_env))"
  have len: "length (powLimit (consensus main_env)) = 32" by (simp add: main_env_def main_consensus_def)
  have v: "val_le ?L = 2 ^ 244 - 1" using main_powLimit len by (simp add: main_env_def val_UintToArith256)
  obtain c where c: "GetCompact False ?L = Some c" "snd (SetCompact c) = (False, False)"
    "val_le (fst (SetCompact c)) \<le> val_le ?L" "32767 * val_le ?L \<le> 32768 * val_le (fst (SetCompact c))"
    using GetCompact_SetCompact[of ?L] compact_rounding(1,2)[of ?L] by auto
  then show g: "GetCompact False ?L = Some limit_bits" by (simp add: limit_bits_def)
  have cl: "c = limit_bits" using c(1) g by simp
  have ov: "compact_val c < 2 ^ 256" "\<not> (compact_val c \<noteq> 0 \<and> odd (unat c div 2 ^ 23))"
    using c(2) unfolding SetCompact_flags by auto
  have vc: "val_le (fst (SetCompact c)) = compact_val c" using ov(1) by (simp add: val_SetCompact)
  have "compact_val c \<noteq> 0" using c(4) unfolding vc v by auto
  then have "compact_valid c" using ov by (simp add: compact_valid_def)
  moreover have "compact_val c \<le> val_le (powLimit (consensus main_env))"
    using c(3) vc len by (simp add: val_UintToArith256)
  moreover have "length uint256_0 = 32" "val_le uint256_0 = 0" by (simp_all add: uint256_0_def)
  ultimately show "CheckProofOfWork False uint256_0 limit_bits (consensus main_env)"
    using CheckProofOfWorkImpl_iff[OF _ len, of uint256_0 c] cl by (simp add: CheckProofOfWork_def)
qed

lemma short_blocks:
  "pprev (line_block (\<lambda>_. limit_bits) (\<lambda>_. 0) h) = (if h = 0 then None else Some (line_key (h - 1)))"
  "GetBlockTime (line_block (\<lambda>_. limit_bits) (\<lambda>_. 0) h) = 0" "nHeight (line_block (\<lambda>_. limit_bits) (\<lambda>_. 0) h) = h"
  by (simp_all add: line_block_def GetBlockTime_def)

lemma short_median: "GetMedianTimePast (line_chain (\<lambda>_. limit_bits) (\<lambda>_. 0) 3) (line_key 3) = Some 0"
proof -
  let ?M = "line_chain (\<lambda>_. limit_bits) (\<lambda>_. 0) 3"
  have "h \<le> 3 \<Longrightarrow> median_times ?M k (Some (line_key h)) = Some (replicate (min k (h + 1)) 0)" for h k
  proof (induction k arbitrary: h)
    case (Suc k)
    then show ?case using Suc.IH[of "h - 1"] by (cases h; cases k) (simp_all add: short_index short_blocks)
  qed simp
  from this[of 3 11] show ?thesis by (simp add: GetMedianTimePast_def nMedianTimeSpan_def sorted_sort_id)
qed

lemma next_header_ok: "header_ok main_env 0 (m_block_index (fst short_state)) next_header (line_key 3)"
proof -
  let ?M = "line_chain (\<lambda>_. limit_bits) (\<lambda>_. 0) 3"
  note blk = short_blocks
  have "GetMedianTimePast ?M (line_key 3) = Some 0" by (rule short_median)
  moreover have "GetNextWorkRequired (consensus main_env) ?M (Some (line_key 3)) = Some limit_bits"
    using limit_bits_ok(1) by (simp add: GetNextWorkRequired_def short_index blk LWMA_N_def)
  moreover have "timewarp (consensus main_env) b h t = Some False" for b h t
    by (simp add: timewarp_def main_env_def main_consensus_def)
  moreover have "CheckProofOfWork (fuzz main_env) (GetPoWHash main_env next_header uint256_0) limit_bits (consensus main_env)"
    using limit_bits_ok(2) by (simp add: main_env_def)
  ultimately show ?thesis
    unfolding header_ok_def short_state_def fst_conv BlockManager.simps
    by (intro exI[of _ "line_block (\<lambda>_. limit_bits) (\<lambda>_. 0) 3"] exI[of _ uint256_0] exI[of _ 0])
      (simp add: short_index blk contextual_seed_below next_header_def bad_version_def MAX_FUTURE_BLOCK_TIME_def)
qed

lemma next_header_accepted:
  "\<exists>st'. AcceptBlockHeader main_env 0 True next_header short_state = Some (Inr (line_key 4), st') \<and> st' \<noteq> short_state"
proof -
  let ?M = "line_chain (\<lambda>_. limit_bits) (\<lambda>_. 0) 3" and ?bm = "fst short_state"
  have M: "m_block_index ?bm = ?M" by (simp add: short_state_def)
  have h: "GetHash main_env next_header = line_key 4" "h_hashPrevBlock next_header = line_key 3"
    by (simp_all add: main_env_def next_header_def)
  have "val_le (line_key 4) \<noteq> val_le (line_key 0)" by (simp add: val_line_key)
  then have g: "line_key 4 \<noteq> hashGenesisBlock (consensus main_env)" by (auto simp: main_env_def main_consensus_def)
  have new: "?M (line_key 4) = None" by (simp add: line_chain_def val_line_key)
  have pr: "?M (line_key 3) = Some (line_block (\<lambda>_. limit_bits) (\<lambda>_. 0) 3)" by (simp add: short_index)
  have c: "header_checks main_env 0 ?M next_header = Some (Inr ())"
    using next_header_ok unfolding header_checks_iff h(2) M pr by (simp add: line_block_def BLOCK_FAILED_MASK_def)
  obtain b bm' best' where a: "AddToBlockIndex (GetHash main_env) ?bm next_header (snd short_state) = Some (line_key 4, bm', best')"
    "m_block_index bm' = ?M(line_key 4 \<mapsto> b)"
    by (rule AddToBlockIndex_entry[where H = "GetHash main_env" and bm = ?bm and block = next_header and best = "snd short_state",
          unfolded M h, OF _ _ _ new pr]) (use short_inv(1) in \<open>auto simp: headers_inv_def M\<close>)
  have "bm' \<noteq> ?bm" using a(2) M new by (metis fun_upd_same option.distinct(1))
  then have "(bm', best') \<noteq> short_state" by (metis fst_conv)
  moreover have "AcceptBlockHeader main_env 0 True next_header short_state = Some (Inr (line_key 4), bm', best')"
  proof -
    obtain bm best where st: "short_state = (bm, best)" by (cases short_state)
    show ?thesis using g new c a(1) M h unfolding st by (simp add: AcceptBlockHeader_def CheckBlockHeader_def Let_def)
  qed
  ultimately show ?thesis by blast
qed

end
