(* ===== verification/Script.thy ===== *)
theory Script
  imports Transaction
begin

text \<open>
  Building and reading scripts (\<open>script/script.h\<close>, \<open>script/script.cpp\<close>): script numbers, the pushes
  of \<open>operator<<\<close>, \<open>GetScriptOp\<close>, the minimality test of pushes and \<open>IsPushOnly\<close>.  The lemmas show
  that the accepted minimal encodings of numbers and of pushes are exactly the ones the program writes.
\<close>

section \<open>Model\<close>

definition OP_0 :: u8 where "OP_0 = 0x00"
definition OP_PUSHDATA1 :: u8 where "OP_PUSHDATA1 = 0x4c"
definition OP_PUSHDATA2 :: u8 where "OP_PUSHDATA2 = 0x4d"
definition OP_PUSHDATA4 :: u8 where "OP_PUSHDATA4 = 0x4e"
definition OP_1 :: u8 where "OP_1 = 0x51"
definition OP_16 :: u8 where "OP_16 = 0x60"
definition OP_CHECKSIG :: u8 where "OP_CHECKSIG = 0xac"

lemmas opcode_defs = OP_0_def OP_PUSHDATA1_def OP_PUSHDATA2_def OP_PUSHDATA4_def OP_1_def OP_16_def OP_CHECKSIG_def

definition WriteLE16 :: "u16 \<Rightarrow> bytes" where
  "WriteLE16 x = [ucast x, ucast (drop_bit 8 x)]"

definition ReadLE16 :: "bytes \<Rightarrow> u16" where
  "ReadLE16 p = ucast (p ! 0) OR push_bit 8 (ucast (p ! 1))"

subsection \<open>Script numbers\<close>

text \<open>The loop over the absolute value, and \<open>CScriptNum::serialize\<close>; the argument is an \<open>int64_t\<close>.\<close>

function abs_bytes :: "u64 \<Rightarrow> bytes" where
  "abs_bytes absvalue = (if absvalue = 0 then [] else ucast (absvalue AND 0xff) # abs_bytes (drop_bit 8 absvalue))"
  by pat_completeness auto
termination
proof (relation "measure unat")
  fix w :: u64 assume "w \<noteq> 0"
  then have "0 < unat w" by (simp add: unat_gt_0)
  then show "(drop_bit 8 w, w) \<in> measure unat" by (simp add: drop_bit_eq_div unat_div)
qed simp

declare abs_bytes.simps [simp del]

definition ScriptNum_serialize :: "int \<Rightarrow> bytes" where
  "ScriptNum_serialize n =
     (if n = 0 then []
      else let neg = n < 0;
               absvalue = (if neg then NOT (word_of_int n) + 1 else word_of_int n);
               result = abs_bytes absvalue
           in if last result AND 0x80 \<noteq> 0 then result @ [if neg then 0x80 else 0]
              else if neg then butlast result @ [last result OR 0x80] else result)"

text \<open>\<open>set_vch\<close>; shifting by 64 or more bits is undefined.\<close>

definition set_vch :: "bytes \<Rightarrow> int option" where
  "set_vch vch =
     (if vch = [] then Some 0
      else if length vch > 8 then None
      else let result = foldl (\<lambda>result i. result OR push_bit (8 * i) (ucast (vch ! i))) (0 :: u64) [0..<length vch]
           in if last vch AND 0x80 \<noteq> 0
              then Some (- sint (result AND NOT (push_bit (8 * (length vch - 1)) 0x80)))
              else Some (sint result))"

definition CScriptNum :: "bytes \<Rightarrow> bool \<Rightarrow> nat \<Rightarrow> int option" where
  "CScriptNum vch fRequireMinimal nMaxNumSize =
     (if length vch > nMaxNumSize then None
      else if fRequireMinimal \<and> length vch > 0 \<and> last vch AND 0x7f = 0 \<and>
              (length vch \<le> 1 \<or> vch ! (length vch - 2) AND 0x80 = 0) then None
      else set_vch vch)"

subsection \<open>Building scripts\<close>

definition AppendDataSize :: "CScript \<Rightarrow> u32 \<Rightarrow> CScript" where
  "AppendDataSize s sz =
     (if sz < ucast OP_PUSHDATA1 then s @ [ucast sz]
      else if sz \<le> 0xff then s @ [OP_PUSHDATA1] @ [ucast sz]
      else if sz \<le> 0xffff then s @ [OP_PUSHDATA2] @ WriteLE16 (ucast sz)
      else s @ [OP_PUSHDATA4] @ WriteLE32 sz)"

definition push_data :: "CScript \<Rightarrow> bytes \<Rightarrow> CScript" where
  "push_data s b = AppendDataSize s (of_nat (length b)) @ b"

definition push_num :: "CScript \<Rightarrow> int \<Rightarrow> CScript" where
  "push_num s n = push_data s (ScriptNum_serialize n)"

definition push_int64 :: "CScript \<Rightarrow> int \<Rightarrow> CScript" where
  "push_int64 s n =
     (if n = -1 \<or> (n \<ge> 1 \<and> n \<le> 16) then s @ [word_of_int (n + (uint OP_1 - 1))]
      else if n = 0 then s @ [OP_0]
      else push_data s (ScriptNum_serialize n))"

definition push_op :: "CScript \<Rightarrow> u8 \<Rightarrow> CScript" where
  "push_op s opcode = s @ [opcode]"

subsection \<open>Reading scripts\<close>

text \<open>The iterator is the rest of the script; the result is the opcode, the data and the advanced iterator.\<close>

definition GetScriptOp :: "bytes \<Rightarrow> (u8 \<times> bytes \<times> bytes) option" where
  "GetScriptOp pc =
     (case pc of [] \<Rightarrow> None
      | opcode # pc \<Rightarrow>
          if opcode \<le> OP_PUSHDATA4 then
            do { (nSize, pc) \<leftarrow>
                   (if opcode < OP_PUSHDATA1 then Some (ucast opcode :: u32, pc)
                    else if opcode = OP_PUSHDATA1 then (if length pc < 1 then None else Some (ucast (hd pc), tl pc))
                    else if opcode = OP_PUSHDATA2 then
                      (if length pc < 2 then None else Some (ucast (ReadLE16 pc), drop 2 pc))
                    else (if length pc < 4 then None else Some (ReadLE32 pc, drop 4 pc)));
                 if (of_nat (length pc) :: u32) < nSize then None
                 else Some (opcode, take (unat nSize) pc, drop (unat nSize) pc) }
          else Some (opcode, [], pc))"

definition CheckMinimalPush :: "bytes \<Rightarrow> u8 \<Rightarrow> bool option" where
  "CheckMinimalPush data opcode =
     (if \<not> opcode \<le> OP_PUSHDATA4 then None
      else if length data = 0 then Some (opcode = OP_0)
      else if length data = 1 \<and> data ! 0 \<ge> 1 \<and> data ! 0 \<le> 16 then Some False
      else if length data = 1 \<and> data ! 0 = 0x81 then Some False
      else if length data \<le> 75 then Some (unat opcode = length data)
      else if length data \<le> 255 then Some (opcode = OP_PUSHDATA1)
      else if length data \<le> 65535 then Some (opcode = OP_PUSHDATA2)
      else Some True)"

lemma GetScriptOp_shorter: "GetScriptOp pc = Some (opcode, data, pc') \<Longrightarrow> length pc' < length pc"
  by (auto simp: GetScriptOp_def Option.bind_eq_Some_conv split: list.splits if_splits)

function IsPushOnly :: "bytes \<Rightarrow> bool" where
  "IsPushOnly pc =
     (if pc = [] then True
      else case GetScriptOp pc of None \<Rightarrow> False
           | Some (opcode, _, pc') \<Rightarrow> if opcode > OP_16 then False else IsPushOnly pc')"
  by pat_completeness auto
termination
  by (relation "measure length") (auto dest: GetScriptOp_shorter)

declare IsPushOnly.simps [simp del]

section \<open>Script numbers have one minimal encoding\<close>

lemma high_bit_iff: "(b :: u8) AND 0x80 \<noteq> 0 \<longleftrightarrow> 128 \<le> unat b"
  by (rule varint_cont_iff)

lemma low_bits: "unat ((b :: u8) AND 0x7f) = unat b mod 128"
  by (rule varint_low7)

lemma abs_bytes_step:
  "unat (ucast ((w :: u64) AND 0xff) :: u8) = unat w mod 256" "unat (drop_bit 8 w) = unat w div 256"
proof -
  have "w AND 0xff = take_bit 8 w" by (simp add: take_bit_eq_mask mask_eq_exp_minus_1)
  then show "unat (ucast (w AND 0xff) :: u8) = unat w mod 256"
    by (simp add: unsigned_ucast_eq take_bit_eq_mod unat_mod)
  show "unat (drop_bit 8 w) = unat w div 256" by (simp add: drop_bit_eq_div unat_div)
qed

lemma abs_bytes_0 [simp]: "abs_bytes 0 = []"
  by (simp add: abs_bytes.simps)

lemma val_abs_bytes: "val_le (abs_bytes w) = unat w"
proof (induction w rule: abs_bytes.induct)
  case (1 w)
  then show ?case by (subst abs_bytes.simps) (simp add: abs_bytes_step del: drop_bit_eq_div)
qed

lemma last_abs_bytes: "w \<noteq> 0 \<Longrightarrow> abs_bytes w \<noteq> [] \<and> last (abs_bytes w) \<noteq> 0"
proof (induction w rule: abs_bytes.induct)
  case (1 w)
  show ?case
  proof (cases "drop_bit 8 w = 0")
    case True
    then have "unat w mod 256 \<noteq> 0" using abs_bytes_step(2)[of w] 1(2) by (auto simp: unat_eq_zero)
    then have "ucast (w AND 0xff) \<noteq> (0 :: u8)" using abs_bytes_step(1)[of w] by (metis unsigned_0)
    with True 1(2) show ?thesis by (simp add: abs_bytes.simps[of w])
  next
    case False
    with 1 show ?thesis by (simp add: abs_bytes.simps[of w])
  qed
qed

lemma abs_bytes_unique:
  "xs \<noteq> [] \<Longrightarrow> last xs \<noteq> 0 \<Longrightarrow> unat w = val_le xs \<Longrightarrow> abs_bytes w = xs"
proof (induction xs arbitrary: w)
  case (Cons x xs)
  have "val_le (x # xs) \<noteq> 0" using Cons.prems(1,2) last_in_set[of "x # xs"] by (metis val_le_eq_0_iff)
  then have "w \<noteq> 0" using Cons.prems(3) by auto
  have d: "unat (drop_bit 8 w) = val_le xs" using Cons.prems(3) val_le_Cons_div[of x xs] by (simp only: abs_bytes_step) simp
  have "unat (ucast (w AND 0xff) :: u8) = unat x" using Cons.prems(3) val_le_Cons_mod[of x xs] by (simp only: abs_bytes_step) simp
  then have "ucast (w AND 0xff) = x" by (simp only: word_unat_eq_iff)
  moreover have "abs_bytes (drop_bit 8 w) = xs"
  proof (cases "xs = []")
    case True
    with d have "drop_bit 8 w = 0" by (simp only: val_le.simps unat_eq_zero)
    with True show ?thesis by simp
  next
    case False
    with Cons.IH[OF False _ d] Cons.prems(2) show ?thesis by simp
  qed
  ultimately show ?case using \<open>w \<noteq> 0\<close> by (simp add: abs_bytes.simps[of w])
qed simp

text \<open>What \<open>set_vch\<close> computes: sign and magnitude.\<close>

definition script_magnitude :: "bytes \<Rightarrow> nat" where
  "script_magnitude vch = val_le (butlast vch @ [last vch AND 0x7f])"

lemma set_vch_fold:
  fixes vch :: bytes
  assumes "k \<le> length vch" "k \<le> 8"
  shows "foldl (\<lambda>result i. result OR push_bit (8 * i) (ucast (vch ! i))) (0 :: u64) [0..<k] = word_of_nat (val_le (take k vch))"
proof (rule bit_word_eqI)
  fix n assume n: "n < LENGTH(64)"
  have "bit (foldl (\<lambda>result i. result OR push_bit (8 * i) (ucast (vch ! i))) (0 :: u64) [0..<k]) n \<longleftrightarrow>
      (\<exists>i<k. 8 * i \<le> n \<and> bit (vch ! i) (n - 8 * i))" using assms
    by (induction k) (use n in \<open>auto simp: bit_or_iff bit_push_bit_iff bit_unsigned_iff less_Suc_eq\<close>)
  also have "\<dots> \<longleftrightarrow> n div 8 < k \<and> bit (vch ! (n div 8)) (n mod 8)"
  proof
    assume "\<exists>i<k. 8 * i \<le> n \<and> bit (vch ! i) (n - 8 * i)"
    then obtain i where i: "i < k" "8 * i \<le> n" "bit (vch ! i) (n - 8 * i)" by blast
    from bit_imp_le_length[OF i(3)] have "n - 8 * i < 8" by simp
    moreover obtain j where "n = 8 * i + j" using i(2) le_Suc_ex by blast
    ultimately have "i = n div 8" "n - 8 * i = n mod 8" by simp_all
    with i show "n div 8 < k \<and> bit (vch ! (n div 8)) (n mod 8)" by simp
  qed (auto intro!: exI[of _ "n div 8"] simp: minus_mult_div_eq_mod)
  also have "\<dots> \<longleftrightarrow> bit (word_of_nat (val_le (take k vch)) :: u64) n"
    using n assms(1) bit_val_le[of "take k vch" n] by (auto simp: bit_of_nat_iff)
  finally show "bit (foldl (\<lambda>result i. result OR push_bit (8 * i) (ucast (vch ! i))) (0 :: u64) [0..<k]) n =
    bit (word_of_nat (val_le (take k vch)) :: u64) n" .
qed

lemma sint_word_of_nat: "v < 2 ^ 63 \<Longrightarrow> sint (word_of_nat v :: u64) = int v"
  by (simp add: sint_uint unsigned_of_nat signed_take_bit_int_eq_self take_bit_nat_eq_self)

lemma magnitude_less: "script_magnitude vch < 2 ^ (8 * (length vch - 1) + 7)"
proof -
  let ?L = "2 ^ (8 * (length vch - 1)) :: nat"
  have "val_le (butlast vch) < ?L" using val_le_less[of "butlast vch"] by simp
  moreover have "?L * (unat (last vch AND 0x7f) + 1) \<le> ?L * 128" by (intro mult_le_mono2) (simp add: low_bits)
  ultimately have "val_le (butlast vch) + ?L * unat (last vch AND 0x7f) < ?L * 128"
    by (simp only: distrib_left)
  then show ?thesis by (simp add: script_magnitude_def val_le_append power_add)
qed

lemma clear_top_bit:
  assumes "m < 2 ^ k" "k < 64"
  shows "(word_of_nat (m + 2 ^ k) :: u64) AND NOT (push_bit k 1) = word_of_nat m"
proof -
  have b: "\<not> bit (word_of_nat m :: u64) k" using assms bit_imp_ge_exp[of m k] by (auto simp: bit_of_nat_iff)
  have "(word_of_nat (m + 2 ^ k) :: u64) = word_of_nat m + push_bit k 1" by (simp add: push_bit_eq_mult)
  also have "\<dots> = word_of_nat m OR push_bit k 1"
    using b by (intro disjunctive_add) (auto simp: bit_push_bit_iff bit_exp_iff)
  finally show ?thesis using b by (intro bit_word_eqI) (auto simp: bit_and_iff bit_or_iff bit_not_iff bit_push_bit_iff bit_exp_iff)
qed

lemma clear_sign:
  assumes "vch \<noteq> []" "length vch \<le> 8" "128 \<le> unat (last vch)"
  shows "(word_of_nat (val_le vch) :: u64) AND NOT (push_bit (8 * (length vch - 1)) 0x80) = word_of_nat (script_magnitude vch)"
proof -
  let ?k = "8 * (length vch - 1) + 7"
  have "unat (last vch) = unat (last vch AND 0x7f) + 128" using assms(3) unsigned_less[of "last vch", where ?'a = nat]
    unfolding low_bits by (simp add: mod_if[of "unat (last vch)"] le_mod_geq)
  then have "val_le (butlast vch @ [last vch]) = script_magnitude vch + 2 ^ ?k"
    by (simp add: script_magnitude_def val_le_append power_add add_mult_distrib2)
  moreover have "?k < 64" using assms(1,2) by (cases vch) simp_all
  moreover have "push_bit (8 * (length vch - 1)) 0x80 = (push_bit ?k 1 :: u64)" by (simp add: push_bit_eq_mult power_add)
  ultimately show ?thesis using clear_top_bit[OF magnitude_less, of vch] assms(1) by simp
qed

lemma set_vch_eq:
  assumes "vch \<noteq> []" "length vch \<le> 8"
  shows "set_vch vch = Some (if 128 \<le> unat (last vch) then - int (script_magnitude vch) else int (script_magnitude vch))"
proof -
  have "2 ^ (8 * (length vch - 1) + 7) \<le> (2 ^ 63 :: nat)" using assms by (intro power_increasing) simp_all
  then have m: "script_magnitude vch < 2 ^ 63" using magnitude_less[of vch] by (rule order.strict_trans2[rotated])
  have "val_le vch = script_magnitude vch" if "\<not> 128 \<le> unat (last vch)"
  proof -
    have "unat (last vch AND 0x7f) = unat (last vch)" using that by (simp add: low_bits)
    then have "last vch AND 0x7f = last vch" by (simp only: word_unat_eq_iff)
    then show ?thesis using assms(1) by (simp add: script_magnitude_def)
  qed
  then show ?thesis using assms m clear_sign[OF assms]
    by (simp add: set_vch_def set_vch_fold high_bit_iff sint_word_of_nat Let_def)
qed

definition minimal_num :: "bytes \<Rightarrow> bool" where
  "minimal_num vch \<longleftrightarrow> vch = [] \<or> last vch AND 0x7f \<noteq> 0 \<or> (length vch > 1 \<and> 128 \<le> unat (vch ! (length vch - 2)))"

lemma CScriptNum_minimal:
  "CScriptNum vch True k = (if length vch \<le> k \<and> minimal_num vch then set_vch vch else None)"
  using high_bit_iff[of "vch ! (length vch - 2)"] by (auto simp: CScriptNum_def minimal_num_def)

lemma sign_byte:
  "unat (b :: u8) < 128 \<Longrightarrow> b AND 0x7f = b" "128 \<le> unat b \<Longrightarrow> (b AND 0x7f) OR 0x80 = b"
  "unat b < 128 \<Longrightarrow> (b OR 0x80) AND 0x7f = b" "128 \<le> unat (b OR 0x80)"
proof -
  have n: "n < 8 \<Longrightarrow> n = 0 \<or> n = 1 \<or> n = 2 \<or> n = 3 \<or> n = 4 \<or> n = 5 \<or> n = 6 \<or> n = (7 :: nat)" for n by linarith
  have h: "bit c 7 \<longleftrightarrow> 128 \<le> unat c" for c :: u8
  proof -
    have "unat c div 128 = (if 128 \<le> unat c then 1 else 0)"
      using unsigned_less[of c, where ?'a = nat] by (auto intro: div_nat_eqI)
    moreover have "bit c 7 \<longleftrightarrow> odd (unat c div 128)" using bit_unsigned_iff[of c 7, where ?'a = nat] by (simp add: bit_iff_odd)
    ultimately show ?thesis by simp
  qed
  show "unat b < 128 \<Longrightarrow> b AND 0x7f = b" "128 \<le> unat b \<Longrightarrow> (b AND 0x7f) OR 0x80 = b" "unat b < 128 \<Longrightarrow> (b OR 0x80) AND 0x7f = b"
    by (intro bit_word_eqI; use h[of b] in \<open>auto simp: bit_and_iff bit_or_iff dest!: n\<close>)+
  show "128 \<le> unat (b OR 0x80)" by (simp add: h[symmetric] bit_or_iff)
qed

lemma unat_absvalue:
  assumes "- (2 ^ 63) \<le> n" "n < 2 ^ 63"
  shows "unat (if n < 0 then NOT (word_of_int n) + 1 else word_of_int n :: u64) = nat \<bar>n\<bar>"
proof -
  have u: "unat (word_of_int m :: u64) = nat m" if "0 \<le> m" "m \<le> 2 ^ 63" for m
    using that by (simp add: unsigned_of_int take_bit_int_eq_self)
  have "NOT (word_of_int n) + 1 = (word_of_int (- n) :: u64)" by (simp add: not_eq_complement)
  then have "unat (NOT (word_of_int n) + 1 :: u64) = nat (- n)" if "n < 0" using that u[of "- n"] assms(1) by (simp only:)
  then show ?thesis using u[of n] assms by auto
qed

lemma serialize_set_vch:
  assumes "set_vch vch = Some n" "length vch \<le> 8" "minimal_num vch"
  shows "ScriptNum_serialize n = vch"
proof (cases "vch = []")
  case True
  with assms show ?thesis by (simp add: set_vch_def ScriptNum_serialize_def)
next
  case False
  have n: "n = (if 128 \<le> unat (last vch) then - int (script_magnitude vch) else int (script_magnitude vch))"
    using assms set_vch_eq[OF False assms(2)] by simp
  have "2 ^ (8 * (length vch - 1) + 7) \<le> (2 ^ 63 :: nat)" using False assms(2) by (intro power_increasing) (cases vch, simp_all)
  then have r: "- (2 ^ 63) \<le> n" "n < 2 ^ 63" using magnitude_less[of vch] unfolding n by auto
  define L where "L = (if last vch AND 0x7f = 0 then butlast vch else butlast vch @ [last vch AND 0x7f])"
  have L: "L \<noteq> []" "last L \<noteq> 0" "val_le L = script_magnitude vch"
    using False assms(3) by (auto simp: L_def script_magnitude_def minimal_num_def last_conv_nth nth_butlast numeral_2_eq_2 val_le_append
      simp flip: length_greater_0_conv)
  have "script_magnitude vch \<noteq> 0" using L last_in_set[of L] by (metis val_le_eq_0_iff)
  then have n0: "n \<noteq> 0" "n < 0 \<longleftrightarrow> 128 \<le> unat (last vch)" unfolding n by auto
  have a: "abs_bytes (if n < 0 then NOT (word_of_int n) + 1 else word_of_int n) = L"
    by (intro abs_bytes_unique L) (simp only: unat_absvalue[OF r] L(3), simp add: n)
  show ?thesis
  proof (cases "last vch AND 0x7f = 0")
    case True
    then have "128 \<le> unat (last L)" "L = butlast vch" using assms(3) False
      by (auto simp: L_def minimal_num_def last_conv_nth nth_butlast numeral_2_eq_2 simp flip: length_greater_0_conv)
    moreover have "last vch = (if n < 0 then 0x80 else 0)" using True sign_byte(1,2)[of "last vch"] n0 by auto
    ultimately show ?thesis using False n0 a by (simp add: ScriptNum_serialize_def Let_def high_bit_iff append_butlast_last_id)
  next
    case F: False
    then have "\<not> 128 \<le> unat (last L)" by (simp add: L_def low_bits)
    then show ?thesis using False n0 a F sign_byte(1,2)[of "last vch"] 
      by (auto simp: ScriptNum_serialize_def Let_def high_bit_iff L_def)
  qed
qed

lemma set_vch_serialize:
  assumes "- (2 ^ 63) \<le> n" "n < 2 ^ 63"
  shows "minimal_num (ScriptNum_serialize n)"
    and "length (ScriptNum_serialize n) \<le> 8 \<Longrightarrow> set_vch (ScriptNum_serialize n) = Some n"
proof -
  define r where "r = abs_bytes (if n < 0 then NOT (word_of_int n) + 1 else word_of_int n)"
  define vch where "vch = ScriptNum_serialize n"
  have r: "r \<noteq> [] \<and> last r \<noteq> 0" "val_le r = nat \<bar>n\<bar>" if "n \<noteq> 0"
    using that last_abs_bytes[of "if n < 0 then NOT (word_of_int n) + 1 else word_of_int n"] unat_absvalue[OF assms]
    unfolding r_def val_abs_bytes by (auto simp flip: unat_eq_zero)
  have s: "vch = (if 128 \<le> unat (last r) then r @ [if n < 0 then 0x80 else 0]
      else if n < 0 then butlast r @ [last r OR 0x80] else r)" if "n \<noteq> 0"
    using that by (simp add: vch_def r_def ScriptNum_serialize_def Let_def high_bit_iff)
  have m: "vch \<noteq> []" "script_magnitude vch = nat \<bar>n\<bar>" "128 \<le> unat (last vch) \<longleftrightarrow> n < 0" if "n \<noteq> 0"
    using r[OF that] sign_byte(1,3,4)[of "last r"] val_le_append[of "butlast r" "[last r]"] unfolding s[OF that]
    by (auto simp: script_magnitude_def val_le_append not_le)
  have "minimal_num vch"
  proof (cases "n = 0")
    case False
    with r sign_byte(1,3)[of "last r"] show ?thesis unfolding s[OF False]
      by (auto simp: minimal_num_def nth_append last_conv_nth numeral_2_eq_2 not_le)
  qed (simp add: vch_def ScriptNum_serialize_def minimal_num_def)
  then show "minimal_num (ScriptNum_serialize n)" by (simp add: vch_def)
  show "set_vch (ScriptNum_serialize n) = Some n" if "length (ScriptNum_serialize n) \<le> 8"
  proof (cases "n = 0")
    case False
    with m[OF False] set_vch_eq[of vch] that show ?thesis by (auto simp: vch_def)
  qed (simp add: ScriptNum_serialize_def set_vch_def)
qed

lemma CScriptNum_canonical:
  assumes "- (2 ^ 63) \<le> n" "n < 2 ^ 63" "k \<le> 8"
  shows "CScriptNum vch True k = Some n \<longleftrightarrow> vch = ScriptNum_serialize n \<and> length vch \<le> k"
proof
  assume "CScriptNum vch True k = Some n"
  then have "set_vch vch = Some n" "length vch \<le> k" "minimal_num vch" by (auto simp: CScriptNum_minimal split: if_splits)
  then show "vch = ScriptNum_serialize n \<and> length vch \<le> k" using serialize_set_vch[of vch n] assms(3) by simp
next
  assume v: "vch = ScriptNum_serialize n \<and> length vch \<le> k"
  then have "length (ScriptNum_serialize n) \<le> k" by metis
  with v set_vch_serialize[OF assms(1,2)] assms(3) show "CScriptNum vch True k = Some n" by (simp add: CScriptNum_minimal)
qed

section \<open>Pushes\<close>

lemma ReadLE16_WriteLE16: "ReadLE16 (WriteLE16 x @ rest) = x"
proof (rule bit_word_eqI)
  fix n assume "n < LENGTH(16)"
  then show "bit (ReadLE16 (WriteLE16 x @ rest)) n = bit x n"
    by (cases "n < 8") (auto simp: ReadLE16_def WriteLE16_def bit_or_iff bit_push_bit_iff bit_ucast_iff bit_drop_bit_eq)
qed

lemma WriteLE16_ReadLE16: "WriteLE16 (ReadLE16 (a # b # rest)) = [a, b]"
proof -
  have "bit (ReadLE16 (a # b # rest)) n \<longleftrightarrow> n < 16 \<and> (if n < 8 then bit a n else bit b (n - 8))" for n
    using bit_imp_le_length[of a n] bit_imp_le_length[of b "n - 8"]
    by (auto simp: ReadLE16_def bit_or_iff bit_push_bit_iff bit_ucast_iff)
  then have "ucast (ReadLE16 (a # b # rest)) = a" "ucast (drop_bit 8 (ReadLE16 (a # b # rest))) = b"
    by (intro bit_word_eqI; simp add: bit_ucast_iff bit_drop_bit_eq)+
  then show ?thesis by (simp only: WriteLE16_def)
qed

definition push_opcode :: "nat \<Rightarrow> u8" where
  "push_opcode n = (if n < 76 then of_nat n else if n \<le> 255 then OP_PUSHDATA1 else if n \<le> 65535 then OP_PUSHDATA2 else OP_PUSHDATA4)"

definition small_number :: "bytes \<Rightarrow> bool" where
  "small_number data \<longleftrightarrow> length data = 1 \<and> (1 \<le> data ! 0 \<and> data ! 0 \<le> 16 \<or> data ! 0 = 0x81)"

lemma unat_small: "n < 2 ^ LENGTH('a) \<Longrightarrow> unat (of_nat n :: 'a::len word) = n"
  by (simp add: unsigned_of_nat take_bit_nat_eq_self)

lemma ucast_small: "n < 2 ^ LENGTH('a) \<Longrightarrow> ucast (of_nat n :: 'a::len word) = (of_nat n :: 'b::len word)"
  by (simp add: unsigned_of_nat take_bit_nat_eq_self)

lemma data_fits:
  assumes "length pc < 2 ^ 32"
  shows "(of_nat (length pc) :: u32) < nSize \<longleftrightarrow> length pc < unat nSize"
  using assms by (simp add: word_less_nat_alt unat_small)

lemma push_data_cases:
  assumes "length data < 2 ^ 32"
  shows "push_data [] data = push_opcode (length data) #
    (if length data < 76 then [] else if length data \<le> 255 then [of_nat (length data)]
     else if length data \<le> 65535 then WriteLE16 (of_nat (length data)) else WriteLE32 (of_nat (length data))) @ data"
  using assms by (simp add: push_data_def AppendDataSize_def push_opcode_def word_less_nat_alt word_le_nat_alt opcode_defs
    unat_small ucast_small)

lemma GetScriptOp_push:
  assumes "length data + length rest < 2 ^ 32"
  shows "GetScriptOp (push_data [] data @ rest) = Some (push_opcode (length data), data, rest)"
proof -
  have l: "length data < 2 ^ 32" using assms by simp
  have f: "\<not> (of_nat (length data + length rest) :: u32) < of_nat (length data)"
    using data_fits[of "data @ rest" "of_nat (length data)"] assms unat_small[where ?'a = 32, of "length data"] by simp
  note d = GetScriptOp_def push_data_cases[OF l] push_opcode_def opcode_defs word_less_nat_alt[where ?'a = 8] word_le_nat_alt
    unat_small ucast_small
  consider "length data < 76" | "76 \<le> length data" "length data \<le> 255" | "255 < length data" "length data \<le> 65535" | "65535 < length data"
    by linarith
  then show ?thesis
  proof cases
    case 1
    then show ?thesis using f l by (simp add: d)
  next
    case 2
    then show ?thesis using f l by (simp add: d)
  next
    case 3
    have "ReadLE16 (WriteLE16 (of_nat (length data)) @ data @ rest) = of_nat (length data)" by (rule ReadLE16_WriteLE16)
    with 3 show ?thesis using f l by (simp add: d WriteLE16_def)
  next
    case 4
    have "ReadLE32 (WriteLE32 (of_nat (length data)) @ data @ rest) = of_nat (length data)" by (rule ReadLE32_WriteLE32)
    with 4 show ?thesis using f l by (simp add: d WriteLE32_def)
  qed
qed

lemma CheckMinimalPush_iff:
  "CheckMinimalPush data opcode = Some True \<longleftrightarrow> opcode \<le> OP_PUSHDATA4 \<and> \<not> small_number data \<and>
     (length data \<le> 65535 \<longrightarrow> opcode = push_opcode (length data))"
proof -
  have "unat opcode = n \<longleftrightarrow> opcode = of_nat n" if "n \<le> 75" for n
    using that unat_small[where ?'a = 8, of n] by (auto simp: word_unat_eq_iff)
  then show ?thesis
    by (auto simp: CheckMinimalPush_def push_opcode_def small_number_def OP_0_def)
qed

definition push_hdr :: "u8 \<Rightarrow> nat" where
  "push_hdr opcode = (if opcode < OP_PUSHDATA1 then 0 else if opcode = OP_PUSHDATA1 then 1 else if opcode = OP_PUSHDATA2 then 2 else 4)"

definition push_size :: "u8 \<Rightarrow> bytes \<Rightarrow> nat" where
  "push_size opcode pc = (if opcode < OP_PUSHDATA1 then unat opcode else if opcode = OP_PUSHDATA1 then unat (hd pc)
    else if opcode = OP_PUSHDATA2 then unat (ReadLE16 pc) else unat (ReadLE32 pc))"

lemma GetScriptOp_parts:
  assumes "GetScriptOp s = Some (opcode, data, rest)" "opcode \<le> OP_PUSHDATA4" "length s < 2 ^ 32"
  obtains pc where "s = opcode # pc" "push_hdr opcode \<le> length pc" "take (push_hdr opcode) pc @ data @ rest = pc"
    "length data = push_size opcode pc"
proof -
  obtain pc where s: "s = opcode # pc" using assms(1)
    by (auto simp: GetScriptOp_def Option.bind_eq_Some_conv split: list.splits if_splits)
  let ?h = "push_hdr opcode" and ?n = "push_size opcode pc"
  have pc: "?h \<le> length pc" "data = take ?n (drop ?h pc)" "rest = drop ?n (drop ?h pc)" "?n \<le> length (drop ?h pc)"
    using assms data_fits[of pc] data_fits[of "tl pc"] data_fits[of "drop 2 pc"] data_fits[of "drop 4 pc"]
    by (auto simp: s GetScriptOp_def push_hdr_def push_size_def drop_Suc unat_ucast_up Suc_le_eq split: if_splits)
  have "length data = ?n" using pc(2,4) by simp
  moreover have "take ?h pc @ data @ rest = pc" unfolding pc(2,3) by (simp only: append_take_drop_id)
  ultimately show thesis using that[OF s pc(1)] by blast
qed

lemma push_hdr_bytes:
  assumes "opcode = push_opcode n" "push_size opcode pc = n" "push_hdr opcode \<le> length pc"
  shows "take (push_hdr opcode) pc = (if n < 76 then [] else if n \<le> 255 then [of_nat n]
     else if n \<le> 65535 then WriteLE16 (of_nat n) else WriteLE32 (of_nat n))"
proof -
  consider "n < 76" | "76 \<le> n" "n \<le> 255" | "255 < n" "n \<le> 65535" | "65535 < n" by linarith
  then show ?thesis
  proof cases
    case 1
    then show ?thesis using assms(1) unat_small[where ?'a = 8, of n]
      by (simp add: push_hdr_def push_opcode_def word_less_nat_alt opcode_defs)
  next
    case 2
    then have "push_hdr opcode = 1" "unat (hd pc) = n" using assms(1,2) by (simp_all add: push_hdr_def push_size_def push_opcode_def)
    then show ?thesis using 2 assms(3) by (cases pc) auto
  next
    case 3
    then have "push_hdr opcode = 2" "unat (ReadLE16 pc) = n" using assms(1,2) by (simp_all add: push_hdr_def push_size_def push_opcode_def opcode_defs)
    then show ?thesis using 3 assms(3) WriteLE16_ReadLE16[of "hd pc" "hd (tl pc)" "tl (tl pc)"]
      by (cases pc; cases "tl pc") auto
  next
    case 4
    then have "push_hdr opcode = 4" "unat (ReadLE32 pc) = n" using assms(1,2) by (simp_all add: push_hdr_def push_size_def push_opcode_def opcode_defs)
    then show ?thesis using 4 assms(3) WriteLE32_ReadLE32[of "take 4 pc" "drop 4 pc"] by auto
  qed
qed

lemma GetScriptOp_sound:
  assumes "GetScriptOp s = Some (opcode, data, rest)" "opcode \<le> OP_PUSHDATA4" "length s < 2 ^ 32"
    "length data \<le> 65535 \<longrightarrow> opcode = push_opcode (length data)"
  shows "s = push_data [] data @ rest"
proof -
  from GetScriptOp_parts[OF assms(1-3)] obtain pc where pc: "s = opcode # pc" "push_hdr opcode \<le> length pc"
    "take (push_hdr opcode) pc @ data @ rest = pc" "length data = push_size opcode pc" .
  have l: "length data < 2 ^ 32" using assms(3) pc(1) arg_cong[OF pc(3), of length] by simp
  have "opcode = push_opcode (length data)"
  proof (cases "length data \<le> 65535")
    case False
    then have "\<not> opcode < OP_PUSHDATA1" "opcode \<noteq> OP_PUSHDATA1" "opcode \<noteq> OP_PUSHDATA2"
      using unsigned_less[of opcode, where ?'a = nat] unsigned_less[of "hd pc", where ?'a = nat]
        unsigned_less[of "ReadLE16 pc", where ?'a = nat] by (auto simp: pc(4) push_size_def split: if_splits)
    then have "opcode = OP_PUSHDATA4" using assms(2) by (simp add: opcode_defs word_less_nat_alt word_le_nat_alt word_unat_eq_iff)
    with False show ?thesis by (simp add: push_opcode_def)
  qed (use assms(4) in simp)
  then show ?thesis unfolding pc(1) using pc(3) push_data_cases[OF l] push_hdr_bytes[OF _ pc(4)[symmetric] pc(2)] by simp
qed

lemma minimal_push_iff:
  assumes "length s < 2 ^ 32"
  shows "GetScriptOp s = Some (opcode, data, rest) \<and> CheckMinimalPush data opcode = Some True \<longleftrightarrow>
    s = push_data [] data @ rest \<and> opcode = push_opcode (length data) \<and> \<not> small_number data"
proof
  assume a: "GetScriptOp s = Some (opcode, data, rest) \<and> CheckMinimalPush data opcode = Some True"
  then have "s = push_data [] data @ rest" "\<not> small_number data"
    using GetScriptOp_sound[OF _ _ assms, of opcode data rest] by (simp_all add: CheckMinimalPush_iff)
  moreover from this assms have "length data + length rest < 2 ^ 32" by (simp add: push_data_def)
  ultimately show "s = push_data [] data @ rest \<and> opcode = push_opcode (length data) \<and> \<not> small_number data"
    using a GetScriptOp_push[of data rest] by simp
next
  assume a: "s = push_data [] data @ rest \<and> opcode = push_opcode (length data) \<and> \<not> small_number data"
  with assms have "length data + length rest < 2 ^ 32" by (simp add: push_data_def)
  moreover have "push_opcode (length data) \<le> OP_PUSHDATA4" using unat_small[where ?'a = 8, of "length data"]
    by (auto simp: push_opcode_def opcode_defs word_le_nat_alt)
  ultimately show "GetScriptOp s = Some (opcode, data, rest) \<and> CheckMinimalPush data opcode = Some True"
    using a GetScriptOp_push[of data rest] by (simp add: CheckMinimalPush_iff)
qed

lemma IsPushOnly_push:
  assumes "length data + length rest < 2 ^ 32"
  shows "IsPushOnly (push_data [] data @ rest) = IsPushOnly rest"
proof -
  have "push_opcode (length data) \<le> OP_16" using unat_small[where ?'a = 8, of "length data"]
    by (auto simp: push_opcode_def opcode_defs word_le_nat_alt)
  moreover have "push_data [] data \<noteq> []" using assms by (simp add: push_data_cases)
  ultimately show ?thesis using GetScriptOp_push[OF assms] by (subst IsPushOnly.simps) (simp add: leD)
qed

lemma push_data_append: "push_data s data = s @ push_data [] data"
  by (simp add: push_data_def AppendDataSize_def)

lemma foldl_push_data: "foldl push_data s items = s @ concat (map (push_data []) items)"
proof (induction items arbitrary: s)
  case (Cons d items)
  then show ?case using push_data_append[of s d] by simp
qed simp

lemma IsPushOnly_pushes: "length (foldl push_data [] items) < 2 ^ 32 \<Longrightarrow> IsPushOnly (foldl push_data [] items)"
  unfolding foldl_push_data
proof (induction items)
  case (Cons d items)
  have "length d \<le> length (push_data [] d)" by (simp add: push_data_def)
  with Cons.prems have "length d + length (concat (map (push_data []) items)) < 2 ^ 32" by simp
  from IsPushOnly_push[OF this] Cons show ?case by simp
qed (simp add: IsPushOnly.simps)

end
