(* ===== verification/Tx_Checks.thy ===== *)
theory Tx_Checks
  imports Script Consensus_Params
begin

text \<open>
  Checks of a transaction on its own (\<open>consensus/tx_check.cpp\<close>, \<open>IsFinalTx\<close> and \<open>GetLegacySigOpCount\<close> of
  \<open>consensus/tx_verify.cpp\<close>, \<open>CScript::GetSigOpCount\<close>) and the block subsidy (\<open>GetBlockSubsidy\<close> of
  \<open>validation.cpp\<close>).  The lemmas say exactly which transactions pass, bound the signature operations by
  the size of the scripts, and bound the money the subsidies create.
\<close>

section \<open>Model\<close>

definition WITNESS_SCALE_FACTOR :: nat where "WITNESS_SCALE_FACTOR = 4"
definition MAX_BLOCK_WEIGHT :: nat where "MAX_BLOCK_WEIGHT = 4000000"
definition MAX_BLOCK_SIGOPS_COST :: int where "MAX_BLOCK_SIGOPS_COST = 80000"
definition LOCKTIME_THRESHOLD :: int where "LOCKTIME_THRESHOLD = 500000000"

datatype TxValidationResult =
    TX_RESULT_UNSET | TX_CONSENSUS | TX_INPUTS_NOT_STANDARD | TX_NOT_STANDARD | TX_MISSING_INPUTS | TX_PREMATURE_SPEND
  | TX_WITNESS_MUTATED | TX_WITNESS_STRIPPED | TX_CONFLICT | TX_MEMPOOL_POLICY | TX_NO_MEMPOOL | TX_RECONSIDERABLE
  | TX_UNKNOWN

type_synonym tx_rejection = "TxValidationResult \<times> string"

subsection \<open>CheckTransaction\<close>

fun check_outs :: "CAmount \<Rightarrow> CTxOut list \<Rightarrow> tx_rejection + unit" where
  "check_outs nValueOut [] = Inr ()"
| "check_outs nValueOut (txout # outs) =
     (if nValue txout < 0 then Inl (TX_CONSENSUS, ''bad-txns-vout-negative'')
      else if nValue txout > MAX_MONEY then Inl (TX_CONSENSUS, ''bad-txns-vout-toolarge'')
      else if \<not> MoneyRange (nValueOut + nValue txout) then Inl (TX_CONSENSUS, ''bad-txns-txouttotal-toolarge'')
      else check_outs (nValueOut + nValue txout) outs)"

fun check_duplicates :: "COutPoint list \<Rightarrow> CTxIn list \<Rightarrow> tx_rejection + unit" where
  "check_duplicates vInOutPoints [] = Inr ()"
| "check_duplicates vInOutPoints (txin # ins) =
     (if prevout txin \<in> set vInOutPoints then Inl (TX_CONSENSUS, ''bad-txns-inputs-duplicate'')
      else check_duplicates (prevout txin # vInOutPoints) ins)"

definition CheckTransaction :: "CTransaction \<Rightarrow> tx_rejection + unit" where
  "CheckTransaction tx =
     (if vin tx = [] then Inl (TX_CONSENSUS, ''bad-txns-vin-empty'')
      else if vout tx = [] then Inl (TX_CONSENSUS, ''bad-txns-vout-empty'')
      else if length (SerializeTransaction False tx) * WITNESS_SCALE_FACTOR > MAX_BLOCK_WEIGHT
      then Inl (TX_CONSENSUS, ''bad-txns-oversize'')
      else case check_outs 0 (vout tx) of Inl e \<Rightarrow> Inl e | Inr _ \<Rightarrow>
           case check_duplicates [] (vin tx) of Inl e \<Rightarrow> Inl e | Inr _ \<Rightarrow>
           if IsCoinBase tx
           then (if length (scriptSig (vin tx ! 0)) < 2 \<or> length (scriptSig (vin tx ! 0)) > 100
                 then Inl (TX_CONSENSUS, ''bad-cb-length'') else Inr ())
           else (if list_ex (\<lambda>txin. COutPoint_IsNull (prevout txin)) (vin tx)
                 then Inl (TX_CONSENSUS, ''bad-txns-prevout-null'') else Inr ()))"

subsection \<open>Lock times\<close>

definition IsFinalTx :: "CTransaction \<Rightarrow> int \<Rightarrow> int \<Rightarrow> bool" where
  "IsFinalTx tx nBlockHeight nBlockTime =
     (if nLockTime tx = 0 then True
      else if uint (nLockTime tx) < (if uint (nLockTime tx) < LOCKTIME_THRESHOLD then nBlockHeight else nBlockTime) then True
      else list_all (\<lambda>txin. nSequence txin = SEQUENCE_FINAL) (vin tx))"

subsection \<open>Signature operations\<close>

definition OP_CHECKSIGVERIFY :: u8 where "OP_CHECKSIGVERIFY = 0xad"
definition OP_CHECKMULTISIG :: u8 where "OP_CHECKMULTISIG = 0xae"
definition OP_CHECKMULTISIGVERIFY :: u8 where "OP_CHECKMULTISIGVERIFY = 0xaf"
definition OP_INVALIDOPCODE :: u8 where "OP_INVALIDOPCODE = 0xff"
definition MAX_PUBKEYS_PER_MULTISIG :: u32 where "MAX_PUBKEYS_PER_MULTISIG = 20"

definition DecodeOP_N :: "u8 \<Rightarrow> u32 option" where
  "DecodeOP_N opcode =
     (if opcode = OP_0 then Some 0
      else if opcode \<ge> OP_1 \<and> opcode \<le> OP_16 then Some (ucast opcode - (ucast OP_1 - 1)) else None)"

text \<open>One instruction of the loop in \<open>GetSigOpCount\<close>; the count is an \<open>unsigned int\<close>.\<close>

definition sigop_step :: "bool \<Rightarrow> u8 \<Rightarrow> u8 \<Rightarrow> u32 \<Rightarrow> u32 option" where
  "sigop_step fAccurate lastOpcode opcode n =
     (if opcode = OP_CHECKSIG \<or> opcode = OP_CHECKSIGVERIFY then Some (n + 1)
      else if opcode = OP_CHECKMULTISIG \<or> opcode = OP_CHECKMULTISIGVERIFY
      then (if fAccurate \<and> lastOpcode \<ge> OP_1 \<and> lastOpcode \<le> OP_16
            then do { k \<leftarrow> DecodeOP_N lastOpcode; Some (n + k) }
            else Some (n + MAX_PUBKEYS_PER_MULTISIG))
      else Some n)"

function sigop_loop :: "bool \<Rightarrow> u8 \<Rightarrow> u32 \<Rightarrow> bytes \<Rightarrow> u32 option" where
  "sigop_loop fAccurate lastOpcode n pc =
     (if pc = [] then Some n
      else case GetScriptOp pc of None \<Rightarrow> Some n
           | Some (opcode, _, pc') \<Rightarrow>
               do { n \<leftarrow> sigop_step fAccurate lastOpcode opcode n; sigop_loop fAccurate opcode n pc' })"
  by pat_completeness auto
termination
  by (relation "measure (\<lambda>(fAccurate, lastOpcode, n, pc). length pc)") (auto dest: GetScriptOp_shorter)

declare sigop_loop.simps [simp del]

definition GetSigOpCount :: "CScript \<Rightarrow> bool \<Rightarrow> u32 option" where
  "GetSigOpCount s fAccurate = sigop_loop fAccurate OP_INVALIDOPCODE 0 s"

fun sum_sigops :: "u32 \<Rightarrow> CScript list \<Rightarrow> u32 option" where
  "sum_sigops nSigOps [] = Some nSigOps"
| "sum_sigops nSigOps (s # ss) = do { k \<leftarrow> GetSigOpCount s False; sum_sigops (nSigOps + k) ss }"

definition GetLegacySigOpCount :: "CTransaction \<Rightarrow> u32 option" where
  "GetLegacySigOpCount tx = sum_sigops 0 (map scriptSig (vin tx) @ map scriptPubKey (vout tx))"

subsection \<open>Subsidy\<close>

text \<open>Integer division of the height truncates; dividing by zero is undefined.\<close>

definition GetBlockSubsidy :: "int \<Rightarrow> Params \<Rightarrow> CAmount option" where
  "GetBlockSubsidy height params =
     (if nSubsidyHalvingInterval params = 0 then None
      else let halvings = height sdiv nSubsidyHalvingInterval params in
           if halvings \<ge> 64 then Some 0
           else if halvings < 0 then None
           else Some (drop_bit (nat halvings) (50 * COIN)))"

section \<open>Which transactions pass\<close>

definition tx_valid :: "CTransaction \<Rightarrow> bool" where
  "tx_valid tx \<longleftrightarrow> vin tx \<noteq> [] \<and> vout tx \<noteq> [] \<and> 4 * length (SerializeTransaction False tx) \<le> 4000000 \<and>
     (\<forall>o1 \<in> set (vout tx). MoneyRange (nValue o1)) \<and> sum_list (map nValue (vout tx)) \<le> MAX_MONEY \<and>
     distinct (map prevout (vin tx)) \<and>
     (if IsCoinBase tx then length (scriptSig (vin tx ! 0)) \<in> {2..100}
      else \<forall>i \<in> set (vin tx). \<not> COutPoint_IsNull (prevout i))"

lemma check_outs_iff:
  "MoneyRange v \<Longrightarrow> check_outs v outs = Inr () \<longleftrightarrow>
    (\<forall>o1 \<in> set outs. MoneyRange (nValue o1)) \<and> v + sum_list (map nValue outs) \<le> MAX_MONEY"
proof (induction outs arbitrary: v)
  case (Cons o1 outs)
  have "0 \<le> sum_list (map nValue outs)" if "\<forall>o1 \<in> set outs. MoneyRange (nValue o1)"
    using that by (intro sum_list_nonneg) (auto simp: MoneyRange_def)
  with Cons show ?case by (auto simp: MoneyRange_def)
qed (simp add: MoneyRange_def)

lemma check_duplicates_iff:
  "check_duplicates seen ins = Inr () \<longleftrightarrow> distinct (map prevout ins) \<and> set seen \<inter> prevout ` set ins = {}"
  by (induction ins arbitrary: seen) auto

text \<open>Passing a chain of checks.\<close>

named_theorems check_passes

lemma case_passes [check_passes]: "(case r of Inl e \<Rightarrow> Inl e | Inr _ \<Rightarrow> s) = Inr u \<longleftrightarrow> r = Inr () \<and> s = Inr u"
  by (cases r) simp_all

lemma if_passes [check_passes]: "(if c then Inl e else r) = Inr u \<longleftrightarrow> \<not> c \<and> r = Inr u"
  by simp

lemma CheckTransaction_iff: "CheckTransaction tx = Inr () \<longleftrightarrow> tx_valid tx"
proof -
  have "MoneyRange 0" by (simp add: MoneyRange_def MAX_MONEY_def COIN_def)
  from check_outs_iff[OF this, of "vout tx"] check_duplicates_iff[of "[]" "vin tx"] show ?thesis
    unfolding CheckTransaction_def check_passes tx_valid_def
    by (simp add: check_passes WITNESS_SCALE_FACTOR_def MAX_BLOCK_WEIGHT_def list_ex_iff not_less not_le mult.commute)
qed

lemma check_outs_consensus: "check_outs v outs = Inl e \<Longrightarrow> fst e = TX_CONSENSUS"
  by (induction outs arbitrary: v) (auto split: if_splits)

lemma check_duplicates_consensus: "check_duplicates seen ins = Inl e \<Longrightarrow> fst e = TX_CONSENSUS"
  by (induction ins arbitrary: seen) (auto split: if_splits)

lemma CheckTransaction_consensus: "CheckTransaction tx = Inl e \<Longrightarrow> fst e = TX_CONSENSUS"
  by (auto simp: CheckTransaction_def split: if_splits sum.splits dest: check_outs_consensus check_duplicates_consensus)

lemma tx_valid_GetValueOut: "tx_valid tx \<Longrightarrow> GetValueOut tx = Some (sum_list (map nValue (vout tx)))"
  by (simp add: GetValueOut_iff tx_valid_def)

section \<open>Signature operations are bounded by the size of the script\<close>

lemma sigop_step_bound:
  "unat n + 20 < 2 ^ 32 \<Longrightarrow> \<exists>k. sigop_step False l opcode n = Some k \<and> unat k \<le> unat n + 20"
  by (auto simp: sigop_step_def MAX_PUBKEYS_PER_MULTISIG_def unat_word_ariths)

lemma sigop_loop_bound:
  "unat n + 20 * length pc < 2 ^ 32 \<Longrightarrow> \<exists>k. sigop_loop False l n pc = Some k \<and> unat k \<le> unat n + 20 * length pc"
proof (induction "length pc" arbitrary: l n pc rule: less_induct)
  case less
  show ?case
  proof (cases "GetScriptOp pc")
    case None
    then show ?thesis by (simp add: sigop_loop.simps[of _ _ _ pc])
  next
    case (Some r)
    then obtain opcode data pc' where r: "GetScriptOp pc = Some (opcode, data, pc')" by (cases r) auto
    from GetScriptOp_shorter[OF this] have l: "length pc' < length pc" .
    then have "unat n + 20 < 2 ^ 32" "pc \<noteq> []" using less.prems by auto
    then obtain k where k: "sigop_step False l opcode n = Some k" "unat k \<le> unat n + 20" using sigop_step_bound by blast
    then have "unat k + 20 * length pc' \<le> unat n + 20 * length pc" using l by simp
    moreover from this less.prems have "unat k + 20 * length pc' < 2 ^ 32" by simp
    ultimately show ?thesis using less.hyps[OF l, of k opcode] r k(1) \<open>pc \<noteq> []\<close>
      by (auto simp: sigop_loop.simps[of _ _ _ pc])
  qed
qed

lemma sum_sigops_bound:
  "unat n + 20 * sum_list (map length ss) < 2 ^ 32 \<Longrightarrow>
    \<exists>k. sum_sigops n ss = Some k \<and> unat k \<le> unat n + 20 * sum_list (map length ss)"
proof (induction ss arbitrary: n)
  case (Cons s ss)
  then obtain k where k: "GetSigOpCount s False = Some k" "unat k \<le> 20 * length s"
    using sigop_loop_bound[of 0 s OP_INVALIDOPCODE] by (auto simp: GetSigOpCount_def)
  then have "unat (n + k) = unat n + unat k" using Cons.prems by (simp add: unat_word_ariths)
  then show ?case using Cons.IH[of "n + k"] Cons.prems k by auto
qed simp

lemma length_Serialize_vector_ge:
  "(\<And>x. length (f x) \<le> length (ser x)) \<Longrightarrow> sum_list (map (\<lambda>x. length (f x)) xs) \<le> length (Serialize_vector ser xs)"
proof -
  assume f: "\<And>x. length (f x) \<le> length (ser x)"
  have "sum_list (map (\<lambda>x. length (f x)) xs) \<le> length (concat (map ser xs))"
    using f by (induction xs) (auto intro: add_mono)
  then show ?thesis by (simp add: Serialize_vector_def)
qed

lemma script_sizes:
  "sum_list (map length (map scriptSig (vin tx) @ map scriptPubKey (vout tx))) \<le> length (SerializeTransaction False tx)"
proof -
  have "sum_list (map (\<lambda>i. length (scriptSig i)) (vin tx)) \<le> length (Serialize_vector Serialize_CTxIn (vin tx))"
    by (rule length_Serialize_vector_ge) (simp add: Serialize_CTxIn_def Serialize_bytes_def)
  moreover have "sum_list (map (\<lambda>i. length (scriptPubKey i)) (vout tx)) \<le> length (Serialize_vector Serialize_CTxOut (vout tx))"
    by (rule length_Serialize_vector_ge) (simp add: Serialize_CTxOut_def Serialize_bytes_def)
  ultimately show ?thesis by (simp add: SerializeTransaction_def Let_def comp_def)
qed

lemma GetLegacySigOpCount_bound:
  assumes "length (SerializeTransaction False tx) < 2 ^ 27"
  obtains k where "GetLegacySigOpCount tx = Some k" "unat k \<le> 20 * length (SerializeTransaction False tx)"
proof -
  have "20 * sum_list (map length (map scriptSig (vin tx) @ map scriptPubKey (vout tx))) \<le> 20 * length (SerializeTransaction False tx)"
    using script_sizes[of tx] by (rule mult_le_mono2)
  with assms sum_sigops_bound[of 0 "map scriptSig (vin tx) @ map scriptPubKey (vout tx)"] that show ?thesis
    unfolding GetLegacySigOpCount_def by fastforce
qed

section \<open>Money supply\<close>

definition subsidy_at :: "nat \<Rightarrow> int" where
  "subsidy_at k = 5000000000 div 2 ^ k"

lemma GetBlockSubsidy_eq:
  assumes "nSubsidyHalvingInterval params = int I" "0 < I"
  shows "GetBlockSubsidy (int h) params = Some (subsidy_at (h div I))"
proof -
  have "int h sdiv int I = int (h div I)" by (simp add: signed_divide_int_def zdiv_int sgn_if)
  moreover have "subsidy_at k = 0" if "64 \<le> k" for k
  proof -
    have "(5000000000 :: int) < 2 ^ 64" by simp
    also have "\<dots> \<le> 2 ^ k" using that by (intro power_increasing) simp_all
    finally show ?thesis by (simp add: subsidy_at_def)
  qed
  ultimately show ?thesis using assms by (simp add: GetBlockSubsidy_def Let_def subsidy_at_def drop_bit_eq_div COIN_def)
qed

lemma subsidy_at_0: "33 \<le> k \<Longrightarrow> subsidy_at k = 0"
proof -
  assume "33 \<le> k"
  have "(5000000000 :: int) < 2 ^ 33" by simp
  also have "\<dots> \<le> 2 ^ k" using \<open>33 \<le> k\<close> by (intro power_increasing) simp_all
  finally show "subsidy_at k = 0" by (simp add: subsidy_at_def)
qed

lemma subsidy_eras: "(\<Sum>k<33. subsidy_at k) = 9999999989"
proof -
  have "(\<Sum>k<33. subsidy_at k) = sum_list (map subsidy_at [0..<33])"
    by (simp only: interv_sum_list_conv_sum_set_nat atLeastLessThan_upt[symmetric] lessThan_atLeast0)
  then show ?thesis by (simp add: upt_rec subsidy_at_def)
qed

lemma subsidy_total:
  assumes "0 < I"
  shows "(\<Sum>h<33 * I. subsidy_at (h div I)) = 9999999989 * int I"
proof -
  have "(\<Sum>h = k * I..<k * I + I. subsidy_at (h div I)) = int I * subsidy_at k" for k
  proof -
    have "h div I = k" if "h \<in> {k * I..<k * I + I}" for h
      using that by (intro div_nat_eqI) (auto simp: algebra_simps)
    then show ?thesis by simp
  qed
  then have "(\<Sum>h<33 * I. subsidy_at (h div I)) = (\<Sum>k<33. int I * subsidy_at k)"
    by (simp add: sum.nat_group[symmetric])
  then show ?thesis by (simp add: sum_distrib_left[symmetric] subsidy_eras)
qed

lemma subsidy_sum:
  assumes "0 < I"
  shows "(\<Sum>h<n. subsidy_at (h div I)) \<le> 9999999989 * int I"
    and "33 * I \<le> n \<Longrightarrow> (\<Sum>h<n. subsidy_at (h div I)) = 9999999989 * int I"
proof -
  have z: "subsidy_at (h div I) = 0" if "h \<in> {..<n} - {..<33 * I}" for h
  proof (rule subsidy_at_0)
    have "33 * I div I \<le> h div I" using that by (intro div_le_mono) auto
    then show "33 \<le> h div I" using assms by simp
  qed
  show "(\<Sum>h<n. subsidy_at (h div I)) = 9999999989 * int I" if "33 * I \<le> n"
    using sum.mono_neutral_right[of "{..<n}" "{..<33 * I}" "\<lambda>h. subsidy_at (h div I)"] z that subsidy_total[OF assms] by auto
  show "(\<Sum>h<n. subsidy_at (h div I)) \<le> 9999999989 * int I"
  proof -
    have "(\<Sum>h<n. subsidy_at (h div I)) = (\<Sum>h<min n (33 * I). subsidy_at (h div I))"
      using z by (intro sum.mono_neutral_right) auto
    also have "\<dots> \<le> (\<Sum>h<33 * I. subsidy_at (h div I))"
      by (intro sum_mono2) (auto simp: subsidy_at_def pos_imp_zdiv_nonneg_iff)
    finally show ?thesis using subsidy_total[OF assms] by simp
  qed
qed

end
