(* ===== verification/Sha256.thy ===== *)
theory Sha256
  imports Serialize
begin

text \<open>
  SHA-256 (\<open>crypto/sha256.cpp\<close>, the portable implementation in the namespace \<open>sha256\<close> and the class \<open>CSHA256\<close>) and the double
  hash of \<open>HashWriter\<close> (\<open>hash.h\<close>).  The unrolled calls of \<open>Round\<close> rotate the names of the eight registers and
  of the sixteen schedule words; here they are folds over the round constants, with the registers and the
  words rotated instead of their names.
\<close>

section \<open>Model\<close>

unbundle bit_operations_syntax

definition Ch :: "u32 \<Rightarrow> u32 \<Rightarrow> u32 \<Rightarrow> u32" where
  "Ch x y z = z XOR (x AND (y XOR z))"

definition Maj :: "u32 \<Rightarrow> u32 \<Rightarrow> u32 \<Rightarrow> u32" where
  "Maj x y z = (x AND y) OR (z AND (x OR y))"

definition Sigma0 :: "u32 \<Rightarrow> u32" where
  "Sigma0 x = (drop_bit 2 x OR push_bit 30 x) XOR (drop_bit 13 x OR push_bit 19 x) XOR (drop_bit 22 x OR push_bit 10 x)"

definition Sigma1 :: "u32 \<Rightarrow> u32" where
  "Sigma1 x = (drop_bit 6 x OR push_bit 26 x) XOR (drop_bit 11 x OR push_bit 21 x) XOR (drop_bit 25 x OR push_bit 7 x)"

definition sigma0 :: "u32 \<Rightarrow> u32" where
  "sigma0 x = (drop_bit 7 x OR push_bit 25 x) XOR (drop_bit 18 x OR push_bit 14 x) XOR drop_bit 3 x"

definition sigma1 :: "u32 \<Rightarrow> u32" where
  "sigma1 x = (drop_bit 17 x OR push_bit 15 x) XOR (drop_bit 19 x OR push_bit 13 x) XOR drop_bit 10 x"

type_synonym regs = "u32 \<times> u32 \<times> u32 \<times> u32 \<times> u32 \<times> u32 \<times> u32 \<times> u32"

text \<open>One round; the registers come out rotated by one, as the next call names them.\<close>

fun Round :: "regs \<Rightarrow> u32 \<Rightarrow> regs" where
  "Round (a, b, c, d, e, f, g, h) k =
     (let t1 = h + Sigma1 e + Ch e f g + k;
          t2 = Sigma0 a + Maj a b c in
      (t1 + t2, a, b, c, d + t1, e, f, g))"

definition sha256_init :: "u32 list" where
  "sha256_init = [0x6a09e667, 0xbb67ae85, 0x3c6ef372, 0xa54ff53a, 0x510e527f, 0x9b05688c, 0x1f83d9ab, 0x5be0cd19]"

definition round_constants :: "u32 list" where
  "round_constants =
    [0x428a2f98, 0x71374491, 0xb5c0fbcf, 0xe9b5dba5, 0x3956c25b, 0x59f111f1, 0x923f82a4, 0xab1c5ed5,
     0xd807aa98, 0x12835b01, 0x243185be, 0x550c7dc3, 0x72be5d74, 0x80deb1fe, 0x9bdc06a7, 0xc19bf174,
     0xe49b69c1, 0xefbe4786, 0x0fc19dc6, 0x240ca1cc, 0x2de92c6f, 0x4a7484aa, 0x5cb0a9dc, 0x76f988da,
     0x983e5152, 0xa831c66d, 0xb00327c8, 0xbf597fc7, 0xc6e00bf3, 0xd5a79147, 0x06ca6351, 0x14292967,
     0x27b70a85, 0x2e1b2138, 0x4d2c6dfc, 0x53380d13, 0x650a7354, 0x766a0abb, 0x81c2c92e, 0x92722c85,
     0xa2bfe8a1, 0xa81a664b, 0xc24b8b70, 0xc76c51a3, 0xd192e819, 0xd6990624, 0xf40e3585, 0x106aa070,
     0x19a4c116, 0x1e376c08, 0x2748774c, 0x34b0bcb5, 0x391c0cb3, 0x4ed8aa4a, 0x5b9cca4f, 0x682e6ff3,
     0x748f82ee, 0x78a5636f, 0x84c87814, 0x8cc70208, 0x90befffa, 0xa4506ceb, 0xbef9a3f7, 0xc67178f2]"

text \<open>
  The next word from the last sixteen, \<open>w0 += sigma1(w14) + w9 + sigma0(w1)\<close>, and the rounds that extend
  the schedule.
\<close>

definition schedule :: "u32 list \<Rightarrow> u32" where
  "schedule w = w ! 0 + (sigma1 (w ! 14) + w ! 9 + sigma0 (w ! 1))"

fun expand_rounds :: "u32 list \<Rightarrow> u32 list \<Rightarrow> regs \<Rightarrow> regs" where
  "expand_rounds [] w r = r"
| "expand_rounds (k # ks) w r = (let wn = schedule w in expand_rounds ks (tl w @ [wn]) (Round r (k + wn)))"

text \<open>Big-endian words: the 16 of a chunk, and writing them.\<close>

definition ReadBE32 :: "bytes \<Rightarrow> u32" where
  "ReadBE32 p = push_bit 24 (ucast (p ! 0)) OR push_bit 16 (ucast (p ! 1)) OR push_bit 8 (ucast (p ! 2)) OR ucast (p ! 3)"

definition WriteBE32 :: "u32 \<Rightarrow> bytes" where
  "WriteBE32 x = [ucast (drop_bit 24 x), ucast (drop_bit 16 x), ucast (drop_bit 8 x), ucast x]"

definition WriteBE64 :: "u64 \<Rightarrow> bytes" where
  "WriteBE64 x = map (\<lambda>i. ucast (drop_bit (8 * (7 - i)) x)) [0..<8]"

text \<open>The registers start as the eight words of the state and are added to them at the end.\<close>

definition regs_of :: "u32 list \<Rightarrow> regs" where
  "regs_of s = (s ! 0, s ! 1, s ! 2, s ! 3, s ! 4, s ! 5, s ! 6, s ! 7)"

definition add_regs :: "u32 list \<Rightarrow> regs \<Rightarrow> u32 list" where
  "add_regs s r = (case r of (a, b, c, d, e, f, g, h) \<Rightarrow>
     [s ! 0 + a, s ! 1 + b, s ! 2 + c, s ! 3 + d, s ! 4 + e, s ! 5 + f, s ! 6 + g, s ! 7 + h])"

definition Transform1 :: "u32 list \<Rightarrow> bytes \<Rightarrow> u32 list" where
  "Transform1 s chunk =
     (let w = map (\<lambda>i. ReadBE32 (drop (4 * i) chunk)) [0..<16];
          r = foldl Round (regs_of s) (map2 (+) (take 16 round_constants) w) in
      add_regs s (expand_rounds (drop 16 round_constants) w r))"

fun Transform :: "u32 list \<Rightarrow> bytes \<Rightarrow> nat \<Rightarrow> u32 list" where
  "Transform s chunk 0 = s"
| "Transform s chunk (Suc blocks) = Transform (Transform1 s (take 64 chunk)) (drop 64 chunk) blocks"

subsection \<open>The double hash of 64 bytes\<close>

text \<open>
  \<open>TransformD64\<close>, the unrolled double hash of one 64-byte input.  The first transform is that of \<open>Transform\<close> from the initial
  state.  In the second, which processes the padding, the round constants and schedule words are
  added up in advance.  In the third, the words \<open>w8\<close> to \<open>w15\<close> are the padding of a 32-byte message and
  the rounds that use them are simplified.
\<close>

definition d64_second :: "u32 list" where
  "d64_second =
    [0xc28a2f98, 0x71374491, 0xb5c0fbcf, 0xe9b5dba5, 0x3956c25b, 0x59f111f1, 0x923f82a4, 0xab1c5ed5,
     0xd807aa98, 0x12835b01, 0x243185be, 0x550c7dc3, 0x72be5d74, 0x80deb1fe, 0x9bdc06a7, 0xc19bf374,
     0x649b69c1, 0xf0fe4786, 0x0fe1edc6, 0x240cf254, 0x4fe9346f, 0x6cc984be, 0x61b9411e, 0x16f988fa,
     0xf2c65152, 0xa88e5a6d, 0xb019fc65, 0xb9d99ec7, 0x9a1231c3, 0xe70eeaa0, 0xfdb1232b, 0xc7353eb0,
     0x3069bad5, 0xcb976d5f, 0x5a0f118f, 0xdc1eeefd, 0x0a35b689, 0xde0b7a04, 0x58f4ca9d, 0xe15d5b16,
     0x007f3e86, 0x37088980, 0xa507ea32, 0x6fab9537, 0x17406110, 0x0d8cd6f1, 0xcdaa3b6d, 0xc0bbbe37,
     0x83613bda, 0xdb48a363, 0x0b02e931, 0x6fd15ca7, 0x521afaca, 0x31338431, 0x6ed41a95, 0x6d437890,
     0xc39c91f2, 0x9eccabbd, 0xb5c9a0e6, 0x532fb63c, 0xd2c741c6, 0x07237ea3, 0xa4954b68, 0x4c191d76]"

definition d64_third :: "u32 list" where
  "d64_third = [0x5807aa98, 0x12835b01, 0x243185be, 0x550c7dc3, 0x72be5d74, 0x80deb1fe, 0x9bdc06a7, 0xc19bf274]"

text \<open>The sixteen words of lines 376 to 391 of the third transform.\<close>

definition d64_words :: "u32 list \<Rightarrow> u32 list" where
  "d64_words w =
     (let w0 = w ! 0 + sigma0 (w ! 1);
          w1 = w ! 1 + (0xa00000 + sigma0 (w ! 2));
          w2 = w ! 2 + (sigma1 w0 + sigma0 (w ! 3));
          w3 = w ! 3 + (sigma1 w1 + sigma0 (w ! 4));
          w4 = w ! 4 + (sigma1 w2 + sigma0 (w ! 5));
          w5 = w ! 5 + (sigma1 w3 + sigma0 (w ! 6));
          w6 = w ! 6 + (sigma1 w4 + 0x100 + sigma0 (w ! 7));
          w7 = w ! 7 + (sigma1 w5 + w0 + 0x11002000);
          w8 = 0x80000000 + sigma1 w6 + w1;
          w9 = sigma1 w7 + w2;
          w10 = sigma1 w8 + w3;
          w11 = sigma1 w9 + w4;
          w12 = sigma1 w10 + w5;
          w13 = sigma1 w11 + w6;
          w14 = sigma1 w12 + w7 + 0x400022;
          w15 = 0x100 + sigma1 w13 + w8 + sigma0 w0 in
      [w0, w1, w2, w3, w4, w5, w6, w7, w8, w9, w10, w11, w12, w13, w14, w15])"

definition TransformD64 :: "bytes \<Rightarrow> bytes" where
  "TransformD64 inp =
     (let t = Transform1 sha256_init inp;
          w = add_regs t (foldl Round (regs_of t) d64_second);
          r = foldl Round (regs_of sha256_init) (map2 (+) (take 8 round_constants) w @ d64_third);
          w' = d64_words w;
          r = foldl Round r (map2 (+) (take 16 (drop 16 round_constants)) w');
          r = expand_rounds (drop 32 round_constants) w' r in
      concat (map WriteBE32 (add_regs sha256_init r)))"

text \<open>
  \<open>SHA256D64\<close> hashes consecutive 64-byte inputs.  The routines for two, four and eight inputs at once, where the processor has
  them, are arguments.
\<close>

function d64_loop :: "nat \<Rightarrow> (bytes \<Rightarrow> bytes) \<Rightarrow> bytes \<Rightarrow> nat \<Rightarrow> bytes \<Rightarrow> bytes \<times> bytes \<times> nat" where
  "d64_loop n f inp blocks out =
     (if 0 < n \<and> n \<le> blocks then d64_loop n f (drop (64 * n) inp) (blocks - n) (out @ f (take (64 * n) inp))
      else (out, inp, blocks))"
  by pat_completeness auto
termination
  by (relation "measure (\<lambda>(n, f, inp, blocks, out). blocks)") auto

definition d64_way :: "nat \<Rightarrow> (bytes \<Rightarrow> bytes) option \<Rightarrow> bytes \<times> bytes \<times> nat \<Rightarrow> bytes \<times> bytes \<times> nat" where
  "d64_way n f st = (case st of (out, inp, blocks) \<Rightarrow> (case f of None \<Rightarrow> st | Some f \<Rightarrow> d64_loop n f inp blocks out))"

definition SHA256D64 :: "(bytes \<Rightarrow> bytes) option \<Rightarrow> (bytes \<Rightarrow> bytes) option \<Rightarrow> (bytes \<Rightarrow> bytes) option \<Rightarrow> bytes \<Rightarrow> nat \<Rightarrow> bytes" where
  "SHA256D64 way8 way4 way2 inp blocks =
     fst (d64_way 1 (Some TransformD64) (d64_way 2 way2 (d64_way 4 way4 (d64_way 8 way8 ([], inp, blocks)))))"

subsection \<open>The hasher\<close>

record CSHA256 =
  sha_s :: "u32 list"
  sha_buf :: bytes
  sha_bytes :: u64

text \<open>The constructor leaves the buffer uninitialised: \<open>junk\<close> is what the memory holds.\<close>

definition CSHA256_new :: "bytes \<Rightarrow> CSHA256" where
  "CSHA256_new junk = \<lparr>sha_s = sha256_init, sha_buf = junk, sha_bytes = 0\<rparr>"

definition CSHA256_Reset :: "CSHA256 \<Rightarrow> CSHA256" where
  "CSHA256_Reset c = c\<lparr>sha_bytes := 0, sha_s := sha256_init\<rparr>"

definition memcpy :: "bytes \<Rightarrow> nat \<Rightarrow> bytes \<Rightarrow> bytes" where
  "memcpy dst off src = take off dst @ src @ drop (off + length src) dst"

definition CSHA256_Write :: "CSHA256 \<Rightarrow> bytes \<Rightarrow> CSHA256" where
  "CSHA256_Write c data =
     (let bufsize = unat (sha_bytes c) mod 64;
          (c, data, bufsize) =
            (if bufsize \<noteq> 0 \<and> bufsize + length data \<ge> 64 then
               let buf = memcpy (sha_buf c) bufsize (take (64 - bufsize) data) in
               (c\<lparr>sha_buf := buf, sha_bytes := sha_bytes c + of_nat (64 - bufsize), sha_s := Transform (sha_s c) buf 1\<rparr>,
                drop (64 - bufsize) data, 0)
             else (c, data, bufsize));
          (c, data) =
            (if length data \<ge> 64 then
               let blocks = length data div 64 in
               (c\<lparr>sha_s := Transform (sha_s c) data blocks, sha_bytes := sha_bytes c + of_nat (64 * blocks)\<rparr>,
                drop (64 * blocks) data)
             else (c, data)) in
      if length data > 0 then
        c\<lparr>sha_buf := memcpy (sha_buf c) bufsize data, sha_bytes := sha_bytes c + of_nat (length data)\<rparr>
      else c)"

definition CSHA256_Finalize :: "CSHA256 \<Rightarrow> bytes \<times> CSHA256" where
  "CSHA256_Finalize c =
     (let pad = 0x80 # replicate 63 0;
          sizedesc = WriteBE64 (push_bit 3 (sha_bytes c));
          c = CSHA256_Write c (take (1 + (119 - unat (sha_bytes c) mod 64) mod 64) pad);
          c = CSHA256_Write c sizedesc in
      (concat (map WriteBE32 (sha_s c)), c))"

text \<open>\<open>HashWriter\<close>: every \<open>write\<close> goes to the hasher; \<open>GetHash\<close> hashes the hash.\<close>

definition HashWriter_GetHash :: "CSHA256 \<Rightarrow> bytes" where
  "HashWriter_GetHash ctx =
     (let (result, ctx) = CSHA256_Finalize ctx in
      fst (CSHA256_Finalize (CSHA256_Write (CSHA256_Reset ctx) result)))"

section \<open>Hashing in pieces\<close>

text \<open>The reference: pad the whole message and transform its blocks from left to right.\<close>

definition sha256_padding :: "nat \<Rightarrow> bytes" where
  "sha256_padding n = 0x80 # replicate ((119 - n mod 64) mod 64) 0 @ WriteBE64 (push_bit 3 (of_nat n))"

definition sha256 :: "bytes \<Rightarrow> bytes" where
  "sha256 msg =
     (let m = msg @ sha256_padding (length msg) in concat (map WriteBE32 (Transform sha256_init m (length m div 64))))"

lemma Transform_append:
  "length xs = 64 * a \<Longrightarrow> Transform s (xs @ ys) (a + b) = Transform (Transform s xs a) ys b"
  by (induction a arbitrary: s xs) simp_all

lemma Transform_take: "64 * a \<le> length xs \<Longrightarrow> Transform s (xs @ ys) a = Transform s xs a"
  by (induction a arbitrary: s xs) simp_all

definition sha_inv :: "CSHA256 \<Rightarrow> bytes \<Rightarrow> bool" where
  "sha_inv c msg \<longleftrightarrow> sha_bytes c = of_nat (length msg) \<and> length (sha_buf c) = 64 \<and>
     sha_s c = Transform sha256_init msg (length msg div 64) \<and>
     take (length msg mod 64) (sha_buf c) = drop (length msg div 64 * 64) msg"

lemma sha_inv_new: "length junk = 64 \<Longrightarrow> sha_inv (CSHA256_new junk) []"
  by (simp add: sha_inv_def CSHA256_new_def)

lemma unat_bytes_mod: "unat (of_nat n :: u64) mod 64 = n mod 64"
proof -
  have "n mod 2 ^ 64 mod 64 = n mod (64::nat)" by (rule mod_mod_cancel) simp
  then show ?thesis by (simp add: unat_of_nat)
qed

text \<open>Positions within a block of 64 bytes.\<close>

lemma block_split: "(n::nat) = 64 * (n div 64) + n mod 64"
  by simp

lemma block_same:
  assumes "(n::nat) mod 64 + k < 64"
  shows "(n + k) div 64 = n div 64" "(n + k) mod 64 = n mod 64 + k"
proof -
  have e: "n + k = 64 * (n div 64) + (n mod 64 + k)" by simp
  show "(n + k) div 64 = n div 64" unfolding e using assms by (subst div_mult_self4) simp_all
  show "(n + k) mod 64 = n mod 64 + k" unfolding e using assms by (subst mod_mult_self4) simp_all
qed

lemma block_next:
  assumes "(n::nat) mod 64 + k = 64"
  shows "(n + k) div 64 = n div 64 + 1" "(n + k) mod 64 = 0"
proof -
  have "n + k = 64 * (n div 64) + (n mod 64 + k)" by simp
  then have e: "n + k = 64 * (n div 64 + 1)" using assms by simp
  show "(n + k) div 64 = n div 64 + 1" "(n + k) mod 64 = 0" unfolding e by simp_all
qed

text \<open>The three stages of \<open>Write\<close>: completing the buffer, whole blocks, the rest.\<close>

lemma sha_inv_rest:
  assumes "sha_inv c msg" "length msg mod 64 + length d < 64"
  shows "sha_inv (c\<lparr>sha_buf := memcpy (sha_buf c) (length msg mod 64) d, sha_bytes := sha_bytes c + of_nat (length d)\<rparr>) (msg @ d)"
proof -
  have "64 * (length msg div 64) \<le> length msg" by simp
  then show ?thesis using assms block_same[OF assms(2)] by (simp add: sha_inv_def memcpy_def Transform_take minus_div_mult_eq_mod)
qed

lemma sha_inv_blocks:
  assumes "sha_inv c msg" "length msg mod 64 = 0" "length d = 64 * k"
  shows "sha_inv (c\<lparr>sha_s := Transform (sha_s c) d k, sha_bytes := sha_bytes c + of_nat (64 * k)\<rparr>) (msg @ d)"
proof -
  have l: "length msg = 64 * (length msg div 64)" using block_split[of "length msg"] assms(2) by simp
  have "(length msg + 64 * k) div 64 = length msg div 64 + k" "(length msg + 64 * k) mod 64 = 0" using assms(2) by simp_all
  moreover have "length msg div 64 * 64 + k * 64 = length msg + length d" using l assms(3) by simp
  ultimately show ?thesis using assms Transform_append[OF l, of sha256_init d k] l
    by (simp add: sha_inv_def add.commute)
qed

lemma sha_inv_fill:
  assumes "sha_inv c msg" "length msg mod 64 + length d = 64"
  defines "buf \<equiv> memcpy (sha_buf c) (length msg mod 64) d"
  shows "sha_inv (c\<lparr>sha_buf := buf, sha_bytes := sha_bytes c + of_nat (length d), sha_s := Transform (sha_s c) buf 1\<rparr>) (msg @ d)"
proof -
  define q xs ys where "q = length msg div 64" and "xs = take (64 * q) msg" and "ys = drop (64 * q) msg"
  have xs: "xs @ ys = msg" "length xs = 64 * q" by (simp_all add: xs_def ys_def q_def)
  have buf: "buf = ys @ d" using assms by (simp add: sha_inv_def buf_def memcpy_def ys_def q_def mult.commute)
  have "Transform sha256_init (xs @ ys) q = Transform sha256_init xs q" by (rule Transform_take) (simp add: xs(2))
  then have s: "sha_s c = Transform sha256_init xs q" using assms(1) xs(1) by (simp add: sha_inv_def q_def)
  have "Transform sha256_init (xs @ ys @ d) (q + 1) = Transform (sha_s c) buf 1"
    unfolding s buf by (rule Transform_append[OF xs(2)])
  then have t: "Transform sha256_init (msg @ d) (q + 1) = Transform (sha_s c) buf 1" by (simp only: xs(1) append_assoc flip: xs(1))
  have "length (sha_buf c) = 64" using assms(1) by (simp add: sha_inv_def)
  then have "length buf = 64" using assms(2) by (simp add: buf_def memcpy_def)
  moreover have "length msg + length d = 64 * q + (length msg mod 64 + length d)" by (simp add: q_def)
  then have "q * 64 + 64 = length msg + length d" using assms(2) by simp
  ultimately show ?thesis using assms(1) block_next[OF assms(2)] t by (simp add: sha_inv_def flip: q_def)
qed

text \<open>\<open>Write\<close> in its three stages.\<close>

definition sha_tail :: "CSHA256 \<Rightarrow> bytes \<Rightarrow> nat \<Rightarrow> CSHA256" where
  "sha_tail c data bufsize =
     (if length data > 0 then c\<lparr>sha_buf := memcpy (sha_buf c) bufsize data, sha_bytes := sha_bytes c + of_nat (length data)\<rparr> else c)"

lemma sha_inv_tail:
  assumes "sha_inv c msg" "length msg mod 64 + length d < 64"
  shows "sha_inv (sha_tail c d (length msg mod 64)) (msg @ d)"
  using sha_inv_rest[OF assms] assms(1) by (simp add: sha_tail_def)

definition sha_middle :: "CSHA256 \<Rightarrow> bytes \<Rightarrow> nat \<Rightarrow> CSHA256" where
  "sha_middle c data bufsize =
     (if length data \<ge> 64 then
        let blocks = length data div 64 in
        sha_tail (c\<lparr>sha_s := Transform (sha_s c) data blocks, sha_bytes := sha_bytes c + of_nat (64 * blocks)\<rparr>)
          (drop (64 * blocks) data) bufsize
      else sha_tail c data bufsize)"

lemma sha_inv_middle:
  assumes "sha_inv c msg" "length msg mod 64 = 0 \<or> length msg mod 64 + length d < 64"
  shows "sha_inv (sha_middle c d (length msg mod 64)) (msg @ d)"
proof (cases "length d \<ge> 64")
  case True
  then have m: "length msg mod 64 = 0" using assms(2) by linarith
  define k xs ys where "k = length d div 64" and "xs = take (64 * k) d" and "ys = drop (64 * k) d"
  have d: "xs @ ys = d" "length xs = 64 * k" by (simp_all add: xs_def ys_def k_def)
  have ys: "length ys < 64" by (simp add: ys_def k_def minus_mult_div_eq_mod)
  have "Transform (sha_s c) (xs @ ys) k = Transform (sha_s c) xs k" by (rule Transform_take) (simp add: d(2))
  then have t: "Transform (sha_s c) d k = Transform (sha_s c) xs k" by (simp only: d(1))
  have "length (msg @ xs) mod 64 = 0" using m d(2) by simp
  then have "sha_inv (sha_tail (c\<lparr>sha_s := Transform (sha_s c) d k, sha_bytes := sha_bytes c + of_nat (64 * k)\<rparr>) ys 0)
    (msg @ (xs @ ys))"
    using sha_inv_tail[OF sha_inv_blocks[OF assms(1) m d(2)], of ys] ys t by simp
  then have "sha_inv (sha_tail (c\<lparr>sha_s := Transform (sha_s c) d k, sha_bytes := sha_bytes c + of_nat (64 * k)\<rparr>) ys 0) (msg @ d)"
    by (simp only: d(1))
  then show ?thesis using True by (simp add: sha_middle_def m flip: k_def ys_def)
next
  case False
  then show ?thesis using sha_inv_tail[OF assms(1), of d] assms(2) by (auto simp: sha_middle_def)
qed

lemma CSHA256_Write_stages:
  "CSHA256_Write c d =
     (let bufsize = unat (sha_bytes c) mod 64; k = 64 - bufsize; buf = memcpy (sha_buf c) bufsize (take k d) in
      if bufsize \<noteq> 0 \<and> bufsize + length d \<ge> 64
      then sha_middle (c\<lparr>sha_buf := buf, sha_bytes := sha_bytes c + of_nat k, sha_s := Transform (sha_s c) buf 1\<rparr>) (drop k d) 0
      else sha_middle c d bufsize)"
  unfolding CSHA256_Write_def sha_middle_def sha_tail_def Let_def
  by (simp only: if_distrib[of "case_prod _"] prod.case split: if_split)

lemma sha_inv_Write:
  assumes "sha_inv c msg"
  shows "sha_inv (CSHA256_Write c d) (msg @ d)"
proof -
  define b where "b = length msg mod 64"
  have bs: "unat (sha_bytes c) mod 64 = b" using assms unat_bytes_mod by (simp add: sha_inv_def b_def)
  have "b < 64" by (simp add: b_def)
  show ?thesis
  proof (cases "b \<noteq> 0 \<and> b + length d \<ge> 64")
    case True
    define xs ys where "xs = take (64 - b) d" and "ys = drop (64 - b) d"
    have d: "xs @ ys = d" "length xs = 64 - b" using True by (auto simp: xs_def ys_def)
    then have l: "length msg mod 64 + length xs = 64" using \<open>b < 64\<close> by (simp add: b_def)
    have "length (msg @ xs) mod 64 = 0" using block_next(2)[OF l] by simp
    with sha_inv_middle[OF sha_inv_fill[OF assms l], of ys]
    have "sha_inv (sha_middle (c\<lparr>sha_buf := memcpy (sha_buf c) b xs, sha_bytes := sha_bytes c + of_nat (64 - b),
        sha_s := Transform (sha_s c) (memcpy (sha_buf c) b xs) 1\<rparr>) ys 0) (msg @ (xs @ ys))"
      by (simp only: d(2) append_assoc simp_thms flip: b_def)
    then show ?thesis using True by (simp only: d(1) CSHA256_Write_stages Let_def bs simp_thms if_True flip: xs_def ys_def)
  next
    case False
    then have "length msg mod 64 = 0 \<or> length msg mod 64 + length d < 64" by (auto simp: b_def)
    from sha_inv_middle[OF assms this] False show ?thesis
      by (simp only: CSHA256_Write_stages Let_def bs if_False flip: b_def)
  qed
qed

lemma sha_inv_writes: "sha_inv c msg \<Longrightarrow> sha_inv (foldl CSHA256_Write c ds) (msg @ concat ds)"
proof (induction ds arbitrary: c msg)
  case (Cons d ds)
  from Cons.IH[OF sha_inv_Write[OF Cons.prems, of d]] show ?case by simp
qed simp

text \<open>The padding fills the last block: 9 to 72 bytes.\<close>

lemma length_WriteBE64 [simp]: "length (WriteBE64 x) = 8"
  by (simp add: WriteBE64_def)

lemma padding_fills: "(r::nat) < 64 \<Longrightarrow> (r + (1 + (119 - r) mod 64 + 8)) mod 64 = 0"
proof (cases "r \<le> 55")
  case True
  then have "119 - r = 64 + (55 - r)" by simp
  moreover have "(64 + (55 - r)) mod 64 = 55 - r" unfolding mod_add_self1 by simp
  ultimately show ?thesis using True by simp
next
  case False
  assume "r < 64"
  with False have "(119 - r) mod 64 = 119 - r" "r + (1 + (119 - r) + 8) = 128" by simp_all
  then show ?thesis by simp
qed

lemma padded_length: "length (msg @ sha256_padding (length msg)) mod 64 = 0"
proof -
  let ?n = "length msg"
  have "length (msg @ sha256_padding ?n) = ?n + (1 + (119 - ?n mod 64) mod 64 + 8)" by (simp add: sha256_padding_def)
  also have "\<dots> mod 64 = (?n mod 64 + (1 + (119 - ?n mod 64) mod 64 + 8)) mod 64" by (simp only: mod_add_left_eq)
  also have "\<dots> = 0" by (rule padding_fills) simp
  finally show ?thesis .
qed

lemma sha_inv_Finalize:
  assumes "sha_inv c msg"
  shows "fst (CSHA256_Finalize c) = sha256 msg" "length (sha_buf (snd (CSHA256_Finalize c))) = 64"
proof -
  define k where "k = (119 - length msg mod 64) mod 64"
  have k: "unat (sha_bytes c) mod 64 = length msg mod 64" using assms unat_bytes_mod by (simp add: sha_inv_def)
  have "k < 64" by (simp add: k_def)
  then have "k \<le> 63" by simp
  then have p: "take (1 + k) (0x80 # replicate 63 0) = (0x80 :: u8) # replicate k 0" by (simp add: min_def)
  have sz: "push_bit 3 (sha_bytes c) = push_bit 3 (of_nat (length msg))" using assms by (simp add: sha_inv_def)
  define c2 where "c2 = CSHA256_Write (CSHA256_Write c (0x80 # replicate k 0)) (WriteBE64 (push_bit 3 (of_nat (length msg))))"
  have pad: "sha256_padding (length msg) = 0x80 # replicate k 0 @ WriteBE64 (push_bit 3 (of_nat (length msg)))"
    by (simp add: sha256_padding_def k_def)
  have "sha_inv c2 ((msg @ 0x80 # replicate k 0) @ WriteBE64 (push_bit 3 (of_nat (length msg))))"
    unfolding c2_def by (intro sha_inv_Write assms)
  then have inv: "sha_inv c2 (msg @ sha256_padding (length msg))" by (simp add: pad)
  have "CSHA256_Finalize c = (concat (map WriteBE32 (sha_s c2)), c2)"
    by (simp only: CSHA256_Finalize_def Let_def k p sz c2_def flip: k_def)
  with inv show "fst (CSHA256_Finalize c) = sha256 msg" "length (sha_buf (snd (CSHA256_Finalize c))) = 64"
    by (simp_all add: sha_inv_def sha256_def Let_def)
qed

lemma sha_inv_Reset: "length (sha_buf c) = 64 \<Longrightarrow> sha_inv (CSHA256_Reset c) []"
  by (simp add: sha_inv_def CSHA256_Reset_def)

lemma HashWriter_GetHash_eq: "sha_inv c msg \<Longrightarrow> HashWriter_GetHash c = sha256 (sha256 msg)"
  using sha_inv_Finalize[of c msg] sha_inv_Write[OF sha_inv_Reset[of "snd (CSHA256_Finalize c)"], of "fst (CSHA256_Finalize c)"]
    sha_inv_Finalize(1)[of "CSHA256_Write (CSHA256_Reset (snd (CSHA256_Finalize c))) (fst (CSHA256_Finalize c))" "sha256 msg"]
  by (simp add: HashWriter_GetHash_def split_beta)

end
