(* ===== verification/Sha256_Eval.thy ===== *)
theory Sha256_Eval
  imports Sha256
begin

text \<open>
  SHA-256 on lists of bits, least significant bit first, and that it computes the hash of \<open>Sha256\<close>.  The operations on
  lists rewrite quickly, so that concrete hashes, such as that of the genesis block, can be evaluated
  by \<open>code_simp\<close>.
\<close>

section \<open>Words as lists of bits\<close>

unbundle bit_operations_syntax

type_synonym bits = "bool list"

definition of_bits :: "bits \<Rightarrow> 'a::len word" where
  "of_bits = horner_sum of_bool 2"

lemma of_bits_simps [simp]: "of_bits [] = 0" "of_bits (b # bs) = of_bool b + 2 * of_bits bs"
  by (simp_all add: of_bits_def)

lemma bit_of_bits: "bit (of_bits bs :: 'a::len word) n \<longleftrightarrow> n < LENGTH('a) \<and> n < length bs \<and> bs ! n"
  by (auto simp: of_bits_def bit_horner_sum_bit_word_iff)

text \<open>Literals.\<close>

fun num_bits :: "nat \<Rightarrow> num \<Rightarrow> bits" where
  "num_bits 0 k = []"
| "num_bits (Suc n) num.One = True # replicate n False"
| "num_bits (Suc n) (num.Bit0 k) = False # num_bits n k"
| "num_bits (Suc n) (num.Bit1 k) = True # num_bits n k"

lemma of_bits_replicate [simp]: "of_bits (replicate n False) = 0"
  by (induction n) simp_all

lemma length_num_bits [simp]: "length (num_bits n k) = n"
  by (induction n k rule: num_bits.induct) simp_all

lemma of_bits_int: "of_bits bs = word_of_int (horner_sum of_bool 2 bs)"
  by (induction bs) simp_all

lemma num_bits_int: "horner_sum of_bool 2 (num_bits n k) = take_bit n (numeral k :: int)"
proof (induction n k rule: num_bits.induct)
  case (2 n)
  have "horner_sum of_bool 2 (replicate n False) = (0::int)" by (induction n) simp_all
  then show ?case by simp
qed (simp_all add: take_bit_Suc_bit0 take_bit_Suc_bit1)

lemma of_num_bits: "(numeral k :: 'a::len word) = of_bits (num_bits LENGTH('a) k)"
  by (simp add: of_bits_int num_bits_int)

text \<open>The bitwise functions.\<close>

fun bits_xor3 :: "bits \<Rightarrow> bits \<Rightarrow> bits \<Rightarrow> bits" where
  "bits_xor3 (x # xs) (y # ys) (z # zs) = (x = (y = z)) # bits_xor3 xs ys zs"
| "bits_xor3 _ _ _ = []"

fun bits_ch :: "bits \<Rightarrow> bits \<Rightarrow> bits \<Rightarrow> bits" where
  "bits_ch (x # xs) (y # ys) (z # zs) = (if x then y else z) # bits_ch xs ys zs"
| "bits_ch _ _ _ = []"

fun bits_maj :: "bits \<Rightarrow> bits \<Rightarrow> bits \<Rightarrow> bits" where
  "bits_maj (x # xs) (y # ys) (z # zs) = (if x then y \<or> z else y \<and> z) # bits_maj xs ys zs"
| "bits_maj _ _ _ = []"

fun bits_add :: "bool \<Rightarrow> bits \<Rightarrow> bits \<Rightarrow> bits" where
  "bits_add c (x # xs) (y # ys) = (x = (y = c)) # bits_add (if x then y \<or> c else y \<and> c) xs ys"
| "bits_add c _ _ = []"

definition bits_rot :: "nat \<Rightarrow> bits \<Rightarrow> bits" where
  "bits_rot n xs = drop n xs @ take n xs"

definition bits_shr :: "nat \<Rightarrow> bits \<Rightarrow> bits" where
  "bits_shr n xs = drop n xs @ replicate n False"

lemma length_bits_xor3 [simp]: "length (bits_xor3 xs ys zs) = min (length xs) (min (length ys) (length zs))"
  by (induction xs ys zs rule: bits_xor3.induct) simp_all

lemma length_bits_ch [simp]: "length (bits_ch xs ys zs) = min (length xs) (min (length ys) (length zs))"
  by (induction xs ys zs rule: bits_ch.induct) simp_all

lemma length_bits_maj [simp]: "length (bits_maj xs ys zs) = min (length xs) (min (length ys) (length zs))"
  by (induction xs ys zs rule: bits_maj.induct) simp_all

lemma length_bits_add [simp]: "length (bits_add c xs ys) = min (length xs) (length ys)"
  by (induction c xs ys rule: bits_add.induct) simp_all

lemma length_bits_rot [simp]: "length (bits_rot n xs) = length xs"
  by (simp add: bits_rot_def)

lemma length_bits_shr [simp]: "n \<le> length xs \<Longrightarrow> length (bits_shr n xs) = length xs"
  by (simp add: bits_shr_def)

lemma nth_bits_xor3: "i < length xs \<Longrightarrow> length ys = length xs \<Longrightarrow> length zs = length xs \<Longrightarrow>
    bits_xor3 xs ys zs ! i \<longleftrightarrow> (xs ! i = (ys ! i = zs ! i))"
  by (induction xs ys zs arbitrary: i rule: bits_xor3.induct) (auto simp: nth_Cons split: nat.split)

lemma nth_bits_ch: "i < length xs \<Longrightarrow> length ys = length xs \<Longrightarrow> length zs = length xs \<Longrightarrow>
    bits_ch xs ys zs ! i \<longleftrightarrow> (if xs ! i then ys ! i else zs ! i)"
  by (induction xs ys zs arbitrary: i rule: bits_ch.induct) (auto simp: nth_Cons split: nat.split)

lemma nth_bits_maj: "i < length xs \<Longrightarrow> length ys = length xs \<Longrightarrow> length zs = length xs \<Longrightarrow>
    bits_maj xs ys zs ! i \<longleftrightarrow> (if xs ! i then ys ! i \<or> zs ! i else ys ! i \<and> zs ! i)"
  by (induction xs ys zs arbitrary: i rule: bits_maj.induct) (auto simp: nth_Cons split: nat.split)

lemma of_bits_xor3:
  assumes "length xs = 32" "length ys = 32" "length zs = 32"
  shows "(of_bits xs XOR of_bits ys XOR of_bits zs :: u32) = of_bits (bits_xor3 xs ys zs)"
  using assms by (intro bit_word_eqI) (auto simp: bit_simps bit_of_bits nth_bits_xor3)

lemma of_bits_ch:
  assumes "length xs = 32" "length ys = 32" "length zs = 32"
  shows "Ch (of_bits xs) (of_bits ys) (of_bits zs) = of_bits (bits_ch xs ys zs)"
  using assms by (intro bit_word_eqI) (auto simp: Ch_def bit_simps bit_of_bits nth_bits_ch)

lemma of_bits_maj:
  assumes "length xs = 32" "length ys = 32" "length zs = 32"
  shows "Maj (of_bits xs) (of_bits ys) (of_bits zs) = of_bits (bits_maj xs ys zs)"
  using assms by (intro bit_word_eqI) (auto simp: Maj_def bit_simps bit_of_bits nth_bits_maj)

lemma of_bits_rot:
  assumes "length xs = 32" "n \<le> 32"
  shows "of_bits (bits_rot n xs) = (drop_bit n (of_bits xs) OR push_bit (32 - n) (of_bits xs) :: u32)"
  using assms by (intro bit_word_eqI) (auto simp: bit_simps bit_of_bits bits_rot_def nth_append min_def)

lemma of_bits_shr:
  assumes "length xs = 32" "n \<le> 32"
  shows "of_bits (bits_shr n xs) = (drop_bit n (of_bits xs) :: u32)"
  using assms by (intro bit_word_eqI) (auto simp: bit_simps bit_of_bits bits_shr_def nth_append)

lemma bits_add_carry:
  "length ys = length xs \<Longrightarrow> \<exists>k. of_bits xs + of_bits ys + of_bool c = of_bits (bits_add c xs ys) + 2 ^ length xs * (k :: 'a::len word)"
proof (induction c xs ys rule: bits_add.induct)
  case (1 c x xs y ys)
  let ?c = "if x then y \<or> c else y \<and> c"
  obtain k where "of_bits xs + of_bits ys + of_bool ?c = of_bits (bits_add ?c xs ys) + 2 ^ length xs * (k :: 'a word)"
    using 1 by auto
  then have "2 * (of_bits xs + of_bits ys + of_bool ?c) = 2 * (of_bits (bits_add ?c xs ys) + 2 ^ length xs * k)" by simp
  then have "of_bits (x # xs) + of_bits (y # ys) + of_bool c = of_bits (bits_add c (x # xs) (y # ys)) + 2 ^ length (x # xs) * k"
    by (cases x; cases y; cases c) (simp_all add: algebra_simps)
  then show ?case by blast
qed auto

lemma of_bits_add:
  assumes "length xs = 32" "length ys = 32"
  shows "(of_bits xs + of_bits ys :: u32) = of_bits (bits_add False xs ys)"
proof -
  obtain k where k: "of_bits xs + of_bits ys + of_bool False = of_bits (bits_add False xs ys) + 2 ^ length xs * (k :: u32)"
    using bits_add_carry[of ys xs False] assms by auto
  have "(2 :: u32) ^ length xs = 0" using assms(1) by simp
  with k show ?thesis by (simp only: mult_zero_left add_0_right of_bool_eq(1))
qed

section \<open>The compression function\<close>

definition bits_Sigma0 :: "bits \<Rightarrow> bits" where
  "bits_Sigma0 x = bits_xor3 (bits_rot 2 x) (bits_rot 13 x) (bits_rot 22 x)"

definition bits_Sigma1 :: "bits \<Rightarrow> bits" where
  "bits_Sigma1 x = bits_xor3 (bits_rot 6 x) (bits_rot 11 x) (bits_rot 25 x)"

definition bits_sigma0 :: "bits \<Rightarrow> bits" where
  "bits_sigma0 x = bits_xor3 (bits_rot 7 x) (bits_rot 18 x) (bits_shr 3 x)"

definition bits_sigma1 :: "bits \<Rightarrow> bits" where
  "bits_sigma1 x = bits_xor3 (bits_rot 17 x) (bits_rot 19 x) (bits_shr 10 x)"

lemmas bits_sigma_defs = bits_Sigma0_def bits_Sigma1_def bits_sigma0_def bits_sigma1_def

lemma length_bits_sigmas [simp]:
  assumes "length x = 32"
  shows "length (bits_Sigma0 x) = 32" "length (bits_Sigma1 x) = 32" "length (bits_sigma0 x) = 32" "length (bits_sigma1 x) = 32"
  using assms by (simp_all add: bits_sigma_defs)

lemma of_bits_sigmas:
  assumes "length x = 32"
  shows "Sigma0 (of_bits x) = of_bits (bits_Sigma0 x)" "Sigma1 (of_bits x) = of_bits (bits_Sigma1 x)"
    "sigma0 (of_bits x) = of_bits (bits_sigma0 x)" "sigma1 (of_bits x) = of_bits (bits_sigma1 x)"
  using assms
  by (simp_all add: Sigma0_def Sigma1_def sigma0_def sigma1_def bits_sigma_defs of_bits_rot of_bits_shr
      of_bits_xor3[symmetric])

abbreviation bits_plus :: "bits \<Rightarrow> bits \<Rightarrow> bits" where
  "bits_plus \<equiv> bits_add False"

type_synonym bit_regs = "bits \<times> bits \<times> bits \<times> bits \<times> bits \<times> bits \<times> bits \<times> bits"

fun bits_Round :: "bit_regs \<Rightarrow> bits \<Rightarrow> bit_regs" where
  "bits_Round (a, b, c, d, e, f, g, h) k =
     (let t1 = bits_plus (bits_plus (bits_plus h (bits_Sigma1 e)) (bits_ch e f g)) k;
          t2 = bits_plus (bits_Sigma0 a) (bits_maj a b c) in
      (bits_plus t1 t2, a, b, c, bits_plus d t1, e, f, g))"

fun of_bit_regs :: "bit_regs \<Rightarrow> regs" where
  "of_bit_regs (a, b, c, d, e, f, g, h) = (of_bits a, of_bits b, of_bits c, of_bits d, of_bits e, of_bits f, of_bits g, of_bits h)"

fun bit_regs_ok :: "bit_regs \<Rightarrow> bool" where
  "bit_regs_ok (a, b, c, d, e, f, g, h) \<longleftrightarrow> (\<forall>x \<in> {a, b, c, d, e, f, g, h}. length x = 32)"

lemma of_bits_Round:
  assumes "bit_regs_ok r" "length k = 32"
  shows "Round (of_bit_regs r) (of_bits k) = of_bit_regs (bits_Round r k)" "bit_regs_ok (bits_Round r k)"
proof -
  obtain a b c d e f g h where r: "r = (a, b, c, d, e, f, g, h)" by (cases r rule: bit_regs_ok.cases)
  have l: "length a = 32" "length b = 32" "length c = 32" "length d = 32" "length e = 32" "length f = 32" "length g = 32" "length h = 32"
    using assms(1) by (simp_all add: r)
  show "Round (of_bit_regs r) (of_bits k) = of_bit_regs (bits_Round r k)"
    by (simp add: r l assms(2) Let_def of_bits_sigmas of_bits_ch of_bits_maj of_bits_add)
  show "bit_regs_ok (bits_Round r k)" by (simp add: r l assms(2) Let_def)
qed

definition words_ok :: "bits list \<Rightarrow> bool" where
  "words_ok ws \<longleftrightarrow> (\<forall>w \<in> set ws. length w = 32)"

lemma of_bits_foldl_Round:
  assumes "bit_regs_ok r" "words_ok ks"
  shows "foldl Round (of_bit_regs r) (map of_bits ks) = of_bit_regs (foldl bits_Round r ks) \<and> bit_regs_ok (foldl bits_Round r ks)"
  using assms by (induction ks arbitrary: r) (auto simp: words_ok_def of_bits_Round)

definition bits_schedule :: "bits list \<Rightarrow> bits" where
  "bits_schedule w = bits_plus (w ! 0) (bits_plus (bits_plus (bits_sigma1 (w ! 14)) (w ! 9)) (bits_sigma0 (w ! 1)))"

lemma of_bits_schedule:
  assumes "words_ok w" "length w = 16"
  shows "schedule (map of_bits w) = of_bits (bits_schedule w)" "length (bits_schedule w) = 32"
proof -
  have "length (w ! i) = 32" if "i < 16" for i using assms that by (simp add: words_ok_def)
  then show "schedule (map of_bits w) = of_bits (bits_schedule w)" "length (bits_schedule w) = 32"
    using assms(2) by (simp_all add: schedule_def bits_schedule_def of_bits_sigmas of_bits_add)
qed

fun bits_expand_rounds :: "bits list \<Rightarrow> bits list \<Rightarrow> bit_regs \<Rightarrow> bit_regs" where
  "bits_expand_rounds [] w r = r"
| "bits_expand_rounds (k # ks) w r =
     (let wn = bits_schedule w in bits_expand_rounds ks (tl w @ [wn]) (bits_Round r (bits_plus k wn)))"

lemma of_bits_expand_rounds:
  assumes "words_ok ks" "words_ok w" "length w = 16" "bit_regs_ok r"
  shows "expand_rounds (map of_bits ks) (map of_bits w) (of_bit_regs r) = of_bit_regs (bits_expand_rounds ks w r) \<and>
    bit_regs_ok (bits_expand_rounds ks w r)"
  using assms
proof (induction ks arbitrary: w r)
  case (Cons k ks)
  let ?n = "bits_schedule w"
  have n: "schedule (map of_bits w) = of_bits ?n" "length ?n = 32" using Cons.prems by (simp_all add: of_bits_schedule)
  have w: "words_ok (tl w @ [?n])" "length (tl w @ [?n]) = 16" "tl (map of_bits w) @ [of_bits ?n] = map of_bits (tl w @ [?n])"
    using Cons.prems n by (cases w; auto simp: words_ok_def)+
  have k: "length (bits_plus k ?n) = 32" "of_bits k + of_bits ?n = (of_bits (bits_plus k ?n) :: u32)"
    using Cons.prems n by (simp_all add: words_ok_def of_bits_add)
  have r: "Round (of_bit_regs r) (of_bits (bits_plus k ?n)) = of_bit_regs (bits_Round r (bits_plus k ?n))" "bit_regs_ok (bits_Round r (bits_plus k ?n))"
    using of_bits_Round Cons.prems(4) k(1) by blast+
  have "words_ok ks" using Cons.prems(1) by (simp add: words_ok_def)
  from Cons.IH[OF this w(1,2) r(2)] show ?case
    by (simp only: list.map expand_rounds.simps bits_expand_rounds.simps Let_def n(1) k(2) r(1) w(3))
qed simp

text \<open>The bits of a word; on literals they are read off.\<close>

definition int_bits :: "nat \<Rightarrow> int \<Rightarrow> bits" where
  "int_bits n k = map (bit k) [0..<n]"

definition to_bits :: "'a::len word \<Rightarrow> bits" where
  "to_bits w = int_bits LENGTH('a) (uint w)"

lemma length_to_bits [simp]: "length (to_bits (w :: 'a::len word)) = LENGTH('a)"
  by (simp add: to_bits_def int_bits_def)

lemma of_to_bits [simp]: "of_bits (to_bits w) = w"
  by (intro bit_word_eqI) (simp add: bit_of_bits to_bits_def int_bits_def bit_uint_iff)

lemma int_bits_code [code]: "int_bits n 0 = replicate n False" "int_bits n (Int.Pos k) = num_bits n k"
proof -
  show "int_bits n 0 = replicate n False" by (intro nth_equalityI) (simp_all add: int_bits_def)
  have "bit (take_bit n (numeral k :: int)) i = (i < n \<and> num_bits n k ! i)" for i
    unfolding num_bits_int[symmetric] by (simp add: bit_horner_sum_bit_iff)
  then show "int_bits n (Int.Pos k) = num_bits n k"
    by (intro nth_equalityI) (auto simp: int_bits_def bit_take_bit_iff)
qed

definition bits_constants :: "bits list" where
  "bits_constants = map to_bits round_constants"

text \<open>Four bytes, most significant first, make a word.\<close>

fun bits_words :: "bits list \<Rightarrow> bits list" where
  "bits_words (a # b # c # d # bs) = (d @ c @ b @ a) # bits_words bs"
| "bits_words _ = []"

definition bits_bytes :: "bits \<Rightarrow> bits list" where
  "bits_bytes w = [drop 24 w, take 8 (drop 16 w), take 8 (drop 8 w), take 8 w]"


definition bits_regs_of :: "bits list \<Rightarrow> bit_regs" where
  "bits_regs_of s = (s ! 0, s ! 1, s ! 2, s ! 3, s ! 4, s ! 5, s ! 6, s ! 7)"

definition bits_add_regs :: "bits list \<Rightarrow> bit_regs \<Rightarrow> bits list" where
  "bits_add_regs s r = (case r of (a, b, c, d, e, f, g, h) \<Rightarrow>
     [bits_plus (s ! 0) a, bits_plus (s ! 1) b, bits_plus (s ! 2) c, bits_plus (s ! 3) d,
      bits_plus (s ! 4) e, bits_plus (s ! 5) f, bits_plus (s ! 6) g, bits_plus (s ! 7) h])"

definition bits_Transform1 :: "bits list \<Rightarrow> bits list \<Rightarrow> bits list \<Rightarrow> bits list" where
  "bits_Transform1 ks s w =
     (let r = foldl bits_Round (bits_regs_of s) (map2 bits_plus (take 16 ks) w) in
      bits_add_regs s (bits_expand_rounds (drop 16 ks) w r))"

primrec bits_Transform :: "nat \<Rightarrow> bits list \<Rightarrow> bits list \<Rightarrow> bits list \<Rightarrow> bits list" where
  "bits_Transform 0 ks s ws = s"
| "bits_Transform (Suc n) ks s ws = bits_Transform n ks (bits_Transform1 ks s (take 16 ws)) (drop 16 ws)"

definition bits_sha256 :: "bits list \<Rightarrow> bits list" where
  "bits_sha256 bs =
     concat (map bits_bytes (bits_Transform (length bs div 64) bits_constants (map to_bits sha256_init) (bits_words bs)))"

subsection \<open>Bytes and words\<close>

lemma of_bits_4:
  assumes "length a = 8" "length b = 8" "length c = 8" "length d = 8"
  shows "ReadBE32 (of_bits a # of_bits b # of_bits c # of_bits d # bs) = of_bits (d @ c @ b @ a)"
  using assms by (intro bit_word_eqI) (auto simp: ReadBE32_def bit_simps bit_of_bits nth_append)

lemma of_bits_bytes:
  assumes "length w = 32"
  shows "WriteBE32 (of_bits w) = map of_bits (bits_bytes w)"
proof -
  have "ucast (drop_bit k (of_bits w :: u32)) = (of_bits (take 8 (drop k w)) :: u8)" if "k \<le> 24" for k
    using assms that by (intro bit_word_eqI) (auto simp: bit_simps bit_of_bits nth_append)
  from this[of 24] this[of 16] this[of 8] this[of 0] show ?thesis using assms by (simp add: WriteBE32_def bits_bytes_def)
qed

lemma length_bits_words: "length (bits_words bs) = length bs div 4"
  by (induction bs rule: bits_words.induct) simp_all

lemma words_ok_bits_words: "\<forall>b \<in> set bs. length b = 8 \<Longrightarrow> words_ok (bits_words bs)"
  by (induction bs rule: bits_words.induct) (simp_all add: words_ok_def)

lemma bits_words_nth:
  "\<forall>b \<in> set bs. length b = 8 \<Longrightarrow> i < length bs div 4 \<Longrightarrow>
    ReadBE32 (drop (4 * i) (map of_bits bs)) = of_bits (bits_words bs ! i)"
proof (induction bs arbitrary: i rule: bits_words.induct)
  case (1 a b c d bs)
  have d: "drop (4 + n) (of_bits a # of_bits b # of_bits c # of_bits d # xs) = drop n xs" for n and xs :: bytes
    by (simp add: eval_nat_numeral)
  show ?case
  proof (cases i)
    case 0 then show ?thesis using "1.prems" by (simp add: of_bits_4)
  next
    case (Suc k) then show ?thesis using 1 d[of "4 * k"] by simp
  qed
qed simp_all

lemma bits_words_split: "bits_words (take (4 * n) bs) = take n (bits_words bs)" "bits_words (drop (4 * n) bs) = drop n (bits_words bs)"
proof (induction n arbitrary: bs)
  case (Suc n)
  case 1 show ?case by (cases bs rule: bits_words.cases) (simp_all add: Suc(1)[simplified] take_Cons')
  case 2 show ?case by (cases bs rule: bits_words.cases) (simp_all add: Suc(2)[simplified] drop_Cons')
qed simp_all

lemma bits_words_block: "bits_words (take 64 bs) = take 16 (bits_words bs)" "bits_words (drop 64 bs) = drop 16 (bits_words bs)"
  using bits_words_split[of 16 bs] by simp_all

subsection \<open>The hash\<close>

definition state_ok :: "bits list \<Rightarrow> bool" where
  "state_ok s \<longleftrightarrow> length s = 8 \<and> words_ok s"

lemma constants_ok: "words_ok bits_constants" "map of_bits bits_constants = round_constants" "length bits_constants = 64"
  by (simp_all add: bits_constants_def words_ok_def round_constants_def)

lemma of_bits_regs_of:
  assumes "state_ok s"
  shows "regs_of (map of_bits s) = of_bit_regs (bits_regs_of s)" "bit_regs_ok (bits_regs_of s)"
proof -
  have "length (s ! i) = 32" if "i < 8" for i using assms that by (simp add: state_ok_def words_ok_def)
  then show "regs_of (map of_bits s) = of_bit_regs (bits_regs_of s)" "bit_regs_ok (bits_regs_of s)"
    using assms by (simp_all add: regs_of_def bits_regs_of_def state_ok_def)
qed

lemma of_bits_add_regs:
  assumes "state_ok s" "bit_regs_ok r"
  shows "add_regs (map of_bits s) (of_bit_regs r) = map of_bits (bits_add_regs s r)" "state_ok (bits_add_regs s r)"
proof -
  obtain a b c d e f g h where r: "r = (a, b, c, d, e, f, g, h)" by (cases r rule: bit_regs_ok.cases)
  have "length (s ! i) = 32" if "i < 8" for i using assms that by (simp add: state_ok_def words_ok_def)
  then show "add_regs (map of_bits s) (of_bit_regs r) = map of_bits (bits_add_regs s r)" "state_ok (bits_add_regs s r)"
    using assms r by (simp_all add: add_regs_def bits_add_regs_def state_ok_def words_ok_def of_bits_add)
qed

lemma words_ok_map2: "words_ok xs \<Longrightarrow> words_ok ys \<Longrightarrow> words_ok (map2 bits_plus xs ys)"
proof (induction xs arbitrary: ys)
  case (Cons x xs)
  from Cons.IH[of "tl ys"] Cons.prems show ?case by (cases ys) (simp_all add: words_ok_def)
qed (simp add: words_ok_def)

lemma map2_of_bits_add:
  "words_ok xs \<Longrightarrow> words_ok ys \<Longrightarrow> map2 (+) (map of_bits xs) (map of_bits ys) = map (of_bits :: bits \<Rightarrow> u32) (map2 bits_plus xs ys)"
proof (induction xs arbitrary: ys)
  case (Cons x xs)
  then show ?case by (cases ys) (simp_all add: words_ok_def of_bits_add)
qed simp

lemma words_ok_take_drop: "words_ok ws \<Longrightarrow> words_ok (take n ws)" "words_ok ws \<Longrightarrow> words_ok (drop n ws)"
  by (auto simp: words_ok_def dest: in_set_takeD in_set_dropD)

lemma of_bits_Transform1:
  assumes s: "state_ok s" and bs: "length bs = 64" "\<forall>b \<in> set bs. length b = 8"
  shows "Transform1 (map of_bits s) (map of_bits bs) = map of_bits (bits_Transform1 bits_constants s (bits_words bs))"
    "state_ok (bits_Transform1 bits_constants s (bits_words bs))"
proof -
  let ?w = "bits_words bs" and ?k = bits_constants
  define ks where "ks = map2 bits_plus (take 16 ?k) ?w"
  have w: "map (\<lambda>i. ReadBE32 (drop (4 * i) (map of_bits bs))) [0..<16] = map of_bits ?w" "words_ok ?w" "length ?w = 16"
    using bits_words_nth[OF bs(2)] words_ok_bits_words[OF bs(2)] bs
    by (auto intro!: nth_equalityI simp: length_bits_words)
  have k: "take 16 round_constants = map of_bits (take 16 ?k)" "drop 16 round_constants = map of_bits (drop 16 ?k)"
    by (simp_all add: take_map drop_map flip: constants_ok(2))
  have ks: "map2 (+) (take 16 round_constants) (map of_bits ?w) = map of_bits ks" "words_ok ks"
    using map2_of_bits_add[OF words_ok_take_drop(1)[OF constants_ok(1)] w(2), of 16]
      words_ok_map2[OF words_ok_take_drop(1)[OF constants_ok(1)] w(2), of 16] by (simp_all only: k ks_def)
  have r: "foldl Round (regs_of (map of_bits s)) (map of_bits ks) = of_bit_regs (foldl bits_Round (bits_regs_of s) ks)"
    "bit_regs_ok (foldl bits_Round (bits_regs_of s) ks)"
    using of_bits_foldl_Round[OF of_bits_regs_of(2)[OF s] ks(2)] of_bits_regs_of(1)[OF s] by simp_all
  note e = of_bits_expand_rounds[OF words_ok_take_drop(2)[OF constants_ok(1)] w(2,3) r(2), of 16]
  show "Transform1 (map of_bits s) (map of_bits bs) = map of_bits (bits_Transform1 ?k s ?w)"
    "state_ok (bits_Transform1 ?k s ?w)"
    using of_bits_add_regs[OF s, of "bits_expand_rounds (drop 16 ?k) ?w (foldl bits_Round (bits_regs_of s) ks)"] e
    by (simp_all only: Transform1_def bits_Transform1_def Let_def w(1) ks(1) r(1) k(2) ks_def[symmetric])
qed

lemma of_bits_Transform:
  assumes "state_ok s" "length bs = 64 * n" "\<forall>b \<in> set bs. length b = 8"
  shows "Transform (map of_bits s) (map of_bits bs) n = map of_bits (bits_Transform n bits_constants s (bits_words bs)) \<and>
    state_ok (bits_Transform n bits_constants s (bits_words bs))"
  using assms
proof (induction n arbitrary: s bs)
  case (Suc n)
  have t: "length (take 64 bs) = 64" "\<forall>b \<in> set (take 64 bs). length b = 8" "length (drop 64 bs) = 64 * n" "\<forall>b \<in> set (drop 64 bs). length b = 8"
    using Suc.prems by (auto dest: in_set_takeD in_set_dropD)
  note w = bits_words_block(1)[symmetric]
  note t1 = of_bits_Transform1[OF Suc.prems(1) t(1,2)]
  show ?case using Suc.IH[OF t1(2) t(3,4)]
    by (simp only: Transform.simps bits_Transform.simps w take_map drop_map t1(1) bits_words_block(2))
qed simp

lemma init_ok: "state_ok (map to_bits sha256_init)" "map of_bits (map to_bits sha256_init) = sha256_init"
  by (simp_all add: state_ok_def words_ok_def sha256_init_def)

theorem sha256_bits [code]:
  "sha256 msg = map of_bits (bits_sha256 (map to_bits (msg @ sha256_padding (length msg))))"
proof -
  define m where "m = msg @ sha256_padding (length msg)"
  define bs where "bs = map to_bits m"
  have m: "map of_bits bs = m" by (simp add: bs_def o_def)
  have "length m mod 64 = 0" unfolding m_def by (rule padded_length)
  then have l: "length bs = 64 * (length m div 64)" by (simp add: bs_def) presburger
  have "\<forall>b \<in> set bs. length b = 8" by (auto simp: bs_def)
  with of_bits_Transform[OF init_ok(1) l]
  have t: "Transform sha256_init m (length m div 64) =
      map of_bits (bits_Transform (length m div 64) bits_constants (map to_bits sha256_init) (bits_words bs))"
    "state_ok (bits_Transform (length m div 64) bits_constants (map to_bits sha256_init) (bits_words bs))"
    unfolding m init_ok(2) by blast+
  have "concat (map WriteBE32 (map of_bits ws)) = map of_bits (concat (map bits_bytes ws))" if "words_ok ws" for ws
    using that by (induction ws) (simp_all add: words_ok_def of_bits_bytes)
  with t show ?thesis by (simp add: sha256_def bits_sha256_def Let_def state_ok_def bs_def flip: m_def)
qed

end
