(* ===== verification/Sha256_D64.thy ===== *)
theory Sha256_D64
  imports Sha256_Eval
begin

text \<open>
  The unrolled double hash of 64 bytes, \<open>TransformD64\<close>, computes SHA-256 twice: the constants it was given in advance are
  right, and its simplified rounds are those of the padding.
\<close>

section \<open>The schedule in advance\<close>

fun expansion :: "nat \<Rightarrow> u32 list \<Rightarrow> u32 list" where
  "expansion 0 w = []"
| "expansion (Suc n) w = (let wn = schedule w in wn # expansion n (tl w @ [wn]))"

lemma length_expansion [simp]: "length (expansion n w) = n"
  by (induction n arbitrary: w) (simp_all add: Let_def)

lemma expand_rounds_append:
  "w \<noteq> [] \<Longrightarrow> expand_rounds (xs @ ys) w r =
    expand_rounds ys (drop (length xs) (w @ expansion (length xs) w)) (foldl Round r (map2 (+) xs (expansion (length xs) w)))"
proof (induction xs arbitrary: w r)
  case (Cons k xs)
  obtain a v where w: "w = a # v" using Cons.prems by (cases w) auto
  have "v @ [schedule w] \<noteq> []" by simp
  from Cons.IH[OF this] show ?case by (simp add: w Let_def)
qed simp

lemma expand_rounds_expansion: "w \<noteq> [] \<Longrightarrow> expand_rounds ks w r = foldl Round r (map2 (+) ks (expansion (length ks) w))"
  using expand_rounds_append[of w ks "[]"] by simp

text \<open>The same on bits, to evaluate it.\<close>

fun bits_expansion :: "nat \<Rightarrow> bits list \<Rightarrow> bits list" where
  "bits_expansion 0 w = []"
| "bits_expansion (Suc n) w = (let wn = bits_schedule w in wn # bits_expansion n (tl w @ [wn]))"

lemma of_bits_expansion:
  assumes "words_ok w" "length w = 16"
  shows "expansion n (map of_bits w) = map of_bits (bits_expansion n w)"
  using assms
proof (induction n arbitrary: w)
  case (Suc n)
  let ?w = "tl w @ [bits_schedule w]"
  have s: "schedule (map of_bits w) = of_bits (bits_schedule w)" "length (bits_schedule w) = 32" using of_bits_schedule[OF Suc.prems] .
  have w: "words_ok ?w" "length ?w = 16" "tl (map of_bits w) @ [of_bits (bits_schedule w)] = map of_bits ?w"
    using Suc.prems s by (cases w; auto simp: words_ok_def)+
  show ?case by (simp only: expansion.simps bits_expansion.simps Let_def list.map s(1) w(3) Suc.IH[OF w(1,2)])
qed simp

definition padding_words :: "u32 list" where
  "padding_words = 0x80000000 # replicate 14 0 @ [0x200]"

lemma expansion_padding:
  "expansion 48 padding_words = map of_bits (bits_expansion 48 (map to_bits padding_words))"
  by (subst of_bits_expansion[symmetric]) (auto simp: words_ok_def padding_words_def)

lemma second_constants:
  "map2 (+) (take 16 round_constants) padding_words @ map2 (+) (drop 16 round_constants) (expansion 48 padding_words) = d64_second"
  unfolding expansion_padding by code_simp

lemma second_rounds:
  "expand_rounds (drop 16 round_constants) padding_words (foldl Round r (map2 (+) (take 16 round_constants) padding_words)) =
    foldl Round r d64_second"
proof -
  have "padding_words \<noteq> []" "length (drop 16 round_constants) = 48" by (simp_all add: padding_words_def round_constants_def)
  then show ?thesis by (simp add: expand_rounds_expansion flip: second_constants foldl_append)
qed

text \<open>The third transform: eight words of hash, eight of padding.\<close>

definition padding_tail :: "u32 list" where
  "padding_tail = [0x80000000, 0, 0, 0, 0, 0, 0, 0x100]"

lemma sigma_values:
  "sigma0 0 = 0" "sigma1 0 = 0" "sigma1 0x100 = 0xa00000" "sigma0 0x80000000 = 0x11002000" "sigma0 0x100 = 0x400022"
  by code_simp+

lemma let_eq: "a = b \<Longrightarrow> (\<And>x. f x = g x) \<Longrightarrow> Let a f = Let b g"
  by simp

lemma schedule_words:
  "schedule [w0, w1, w2, w3, w4, w5, w6, w7, w8, w9, w10, w11, w12, w13, w14, w15] = w0 + (sigma1 w14 + w9 + sigma0 w1)"
  by (simp add: schedule_def)

lemma Cons_let: "x # Let a f = Let a (\<lambda>y. x # f y)"
  by simp

lemma expansion_16:
  "expansion 16 ([w0, w1, w2, w3, w4, w5, w6, w7] @ padding_tail) = d64_words [w0, w1, w2, w3, w4, w5, w6, w7]"
  unfolding padding_tail_def d64_words_def
  by (simp only: eval_nat_numeral BitM.simps One_nat_def expansion.simps append.simps list.sel schedule_words Cons_let
      sigma_values nth_Cons_0 nth_Cons_Suc)
     ((rule let_eq, (simp add: ac_simps; fail))+, rule refl)

lemma list8: "length xs = 8 \<Longrightarrow> \<exists>a b c d e f g h. xs = [a, b, c, d, e, f, g, h]"
  by (auto simp: numeral_eq_Suc length_Suc_conv)

lemma third_rounds:
  assumes "length w = 8"
  shows "expand_rounds (drop 16 round_constants) (w @ padding_tail) (foldl Round r (map2 (+) (take 16 round_constants) (w @ padding_tail))) =
    expand_rounds (drop 32 round_constants) (d64_words w)
      (foldl Round (foldl Round r (map2 (+) (take 8 round_constants) w @ d64_third)) (map2 (+) (take 16 (drop 16 round_constants)) (d64_words w)))"
proof -
  have k: "drop 16 round_constants = take 16 (drop 16 round_constants) @ drop 32 round_constants"
    "length (take 16 (drop 16 round_constants)) = 16" by (simp_all add: round_constants_def)
  have e: "expansion 16 (w @ padding_tail) = d64_words w" using list8[OF assms] expansion_16 by auto
  have "take 16 round_constants = take 8 round_constants @ take 8 (drop 8 round_constants)" "length (take 8 round_constants) = 8"
    by (simp_all add: round_constants_def)
  moreover have "map2 (+) (take 8 (drop 8 round_constants)) padding_tail = d64_third" by code_simp
  ultimately have f: "map2 (+) (take 16 round_constants) (w @ padding_tail) = map2 (+) (take 8 round_constants) w @ d64_third"
    using assms by simp
  have n: "w @ padding_tail \<noteq> []" and "length (w @ padding_tail) = 16" using assms by (auto simp: padding_tail_def)
  then have d: "drop 16 ((w @ padding_tail) @ d64_words w) = d64_words w" by (simp only: drop_append drop_all) simp
  show ?thesis by (subst k(1)) (simp only: expand_rounds_append[OF n] k(2) e f d)
qed

section \<open>Twice SHA-256\<close>

lemma ReadBE32_WriteBE32: "ReadBE32 (WriteBE32 x @ bs) = x"
proof -
  define w where "w = to_bits x"
  have w: "length w = 32" "of_bits w = x" by (simp_all add: w_def)
  have "take 8 w @ take 8 (drop 8 w) @ take 8 (drop 16 w) @ drop 24 w = w"
    using append_take_drop_id[of 8 w] append_take_drop_id[of 8 "drop 8 w"] append_take_drop_id[of 8 "drop 16 w"] by simp
  then show ?thesis
    using of_bits_4[of "drop 24 w" "take 8 (drop 16 w)" "take 8 (drop 8 w)" "take 8 w" bs] of_bits_bytes[OF w(1)] w
    by (simp add: bits_bytes_def)
qed

lemma length_WriteBE32 [simp]: "length (WriteBE32 x) = 4"
  by (simp add: WriteBE32_def)

lemma ReadBE32_concat:
  "i < length ws \<Longrightarrow> ReadBE32 (drop (4 * i) (concat (map WriteBE32 ws) @ bs)) = ws ! i"
proof (induction ws arbitrary: i)
  case (Cons w ws)
  then show ?case by (cases i) (simp_all add: ReadBE32_WriteBE32)
qed simp

lemma length_concat_WriteBE32 [simp]: "length (concat (map WriteBE32 ws)) = 4 * length ws"
  by (induction ws) simp_all

lemma words_of_WriteBE32:
  "length ws = 16 \<Longrightarrow> map (\<lambda>i. ReadBE32 (drop (4 * i) (concat (map WriteBE32 ws)))) [0..<16] = ws"
  using ReadBE32_concat[of _ ws "[]"] by (intro nth_equalityI) simp_all

lemma padding_64: "sha256_padding 64 = concat (map WriteBE32 padding_words)"
  by code_simp

lemma padding_32: "sha256_padding 32 = concat (map WriteBE32 padding_tail)"
  by code_simp

lemma length_Transform1 [simp]: "length (Transform1 s c) = 8"
  by (simp add: Transform1_def add_regs_def Let_def split: prod.split)

lemma sha256_64:
  assumes "length inp = 64" "t = Transform1 sha256_init inp"
  shows "sha256 inp = concat (map WriteBE32 (add_regs t (foldl Round (regs_of t) d64_second)))"
proof -
  have w: "length padding_words = 16" by (simp add: padding_words_def)
  have "Transform sha256_init (inp @ sha256_padding 64) 2 = Transform1 t (sha256_padding 64)"
    using assms w by (simp add: numeral_2_eq_2 padding_64)
  also have "\<dots> = add_regs t (foldl Round (regs_of t) d64_second)"
    unfolding padding_64 by (simp only: Transform1_def Let_def words_of_WriteBE32[OF w] second_rounds)
  finally show ?thesis using assms w by (simp add: sha256_def padding_64)
qed

lemma sha256_32:
  assumes "length w = 8"
  shows "sha256 (concat (map WriteBE32 w)) = concat (map WriteBE32 (add_regs sha256_init
    (expand_rounds (drop 16 round_constants) (w @ padding_tail)
      (foldl Round (regs_of sha256_init) (map2 (+) (take 16 round_constants) (w @ padding_tail))))))"
proof -
  have l: "length padding_tail = 8" by (simp add: padding_tail_def)
  have "Transform1 sha256_init (concat (map WriteBE32 (w @ padding_tail))) = add_regs sha256_init
    (expand_rounds (drop 16 round_constants) (w @ padding_tail)
      (foldl Round (regs_of sha256_init) (map2 (+) (take 16 round_constants) (w @ padding_tail))))"
    using words_of_WriteBE32[of "w @ padding_tail"] assms l by (simp only: Transform1_def Let_def) simp
  moreover have "length (concat (map WriteBE32 w) @ sha256_padding 32) = 64" using assms l by (simp add: padding_32)
  ultimately show ?thesis using assms by (simp add: sha256_def padding_32 Let_def)
qed

lemma TransformD64_eq:
  assumes "length inp = 64"
  shows "TransformD64 inp = sha256 (sha256 inp)"
proof -
  define t where "t = Transform1 sha256_init inp"
  define w where "w = add_regs t (foldl Round (regs_of t) d64_second)"
  have "length w = 8" by (simp add: w_def add_regs_def split: prod.split)
  then show ?thesis
    using sha256_64[OF assms t_def] sha256_32[of w] third_rounds[of w]
    by (simp only: TransformD64_def Let_def flip: t_def w_def)
qed

section \<open>Many inputs\<close>

text \<open>The reference: each 64 bytes hashed on their own.\<close>

fun d64_each :: "nat \<Rightarrow> bytes \<Rightarrow> bytes" where
  "d64_each 0 inp = []"
| "d64_each (Suc n) inp = sha256 (sha256 (take 64 inp)) @ d64_each n (drop 64 inp)"

lemma d64_each_add: "d64_each (m + n) inp = d64_each m inp @ d64_each n (drop (64 * m) inp)"
proof (induction m arbitrary: inp)
  case (Suc m)
  show ?case by (simp add: Suc add.commute)
qed simp

declare d64_loop.simps [simp del]

lemma d64_each_take: "d64_each m (take (64 * m) inp) = d64_each m inp"
proof (induction m arbitrary: inp)
  case (Suc m)
  have "take 64 (take (64 * Suc m) inp) = take 64 inp" "drop 64 (take (64 * Suc m) inp) = take (64 * m) (drop 64 inp)"
    by (simp_all add: drop_take)
  then show ?case by (simp only: d64_each.simps Suc)
qed simp

definition way_ok :: "nat \<Rightarrow> (bytes \<Rightarrow> bytes) \<Rightarrow> bool" where
  "way_ok n f \<longleftrightarrow> (\<forall>inp. length inp = 64 * n \<longrightarrow> f inp = d64_each n inp)"

lemma d64_loop_ok:
  assumes "way_ok n f" "64 * blocks \<le> length inp"
  shows "\<exists>m \<le> blocks. d64_loop n f inp blocks out = (out @ d64_each m inp, drop (64 * m) inp, blocks - m) \<and> (n = 1 \<longrightarrow> m = blocks)"
  using assms
proof (induction n f inp blocks out rule: d64_loop.induct)
  case (1 n f inp blocks out)
  show ?case
  proof (cases "0 < n \<and> n \<le> blocks")
    case True
    then have "length (take (64 * n) inp) = 64 * n" using "1.prems"(2) by simp
    then have f: "f (take (64 * n) inp) = d64_each n inp" using "1.prems"(1) by (simp add: way_ok_def d64_each_take)
    have "64 * (blocks - n) \<le> length (drop (64 * n) inp)" using "1.prems"(2) by simp
    from "1.IH"[OF True "1.prems"(1) this] obtain m where m: "m \<le> blocks - n"
      "d64_loop n f (drop (64 * n) inp) (blocks - n) (out @ f (take (64 * n) inp)) =
        ((out @ f (take (64 * n) inp)) @ d64_each m (drop (64 * n) inp), drop (64 * m) (drop (64 * n) inp), blocks - n - m)"
      "n = 1 \<longrightarrow> m = blocks - n" by blast
    have "d64_loop n f inp blocks out = (out @ d64_each (n + m) inp, drop (64 * (n + m)) inp, blocks - (n + m))"
      using True m(2) f by (simp add: d64_loop.simps[of n f inp] d64_each_add add.commute[of "64 * m" "64 * n"])
    then show ?thesis using True m(1,3) by (intro exI[of _ "n + m"]) auto
  next
    case False
    then have "d64_loop n f inp blocks out = (out @ d64_each 0 inp, drop (64 * 0) inp, blocks - 0)" by (subst d64_loop.simps) auto
    then show ?thesis using False by (intro exI[of _ 0]) auto
  qed
qed

definition d64_done :: "bytes \<Rightarrow> nat \<Rightarrow> bytes \<times> bytes \<times> nat \<Rightarrow> bool" where
  "d64_done inp blocks st \<longleftrightarrow> (\<exists>m \<le> blocks. st = (d64_each m inp, drop (64 * m) inp, blocks - m))"

lemma d64_way_done:
  assumes "d64_done inp blocks st" "\<forall>f. way = Some f \<longrightarrow> way_ok n f" "64 * blocks \<le> length inp"
  shows "d64_done inp blocks (d64_way n way st)"
proof (cases way)
  case (Some f)
  obtain m where m: "m \<le> blocks" "st = (d64_each m inp, drop (64 * m) inp, blocks - m)" using assms(1) by (auto simp: d64_done_def)
  have "64 * (blocks - m) \<le> length (drop (64 * m) inp)" using assms(3) by simp
  with d64_loop_ok[of n f "blocks - m" "drop (64 * m) inp" "d64_each m inp"] assms(2) Some obtain k where k: "k \<le> blocks - m"
    "d64_loop n f (drop (64 * m) inp) (blocks - m) (d64_each m inp) =
      (d64_each m inp @ d64_each k (drop (64 * m) inp), drop (64 * k) (drop (64 * m) inp), blocks - m - k)" by blast
  then have "d64_way n way st = (d64_each (m + k) inp, drop (64 * (m + k)) inp, blocks - (m + k))"
    using Some m(2) by (simp add: d64_way_def d64_each_add add.commute[of "64 * k" "64 * m"])
  then show ?thesis using k(1) m(1) unfolding d64_done_def by (intro exI[of _ "m + k"]) auto
qed (use assms in \<open>simp add: d64_way_def split: prod.splits\<close>)

lemma SHA256D64_eq:
  assumes "\<forall>f. way8 = Some f \<longrightarrow> way_ok 8 f" "\<forall>f. way4 = Some f \<longrightarrow> way_ok 4 f" "\<forall>f. way2 = Some f \<longrightarrow> way_ok 2 f"
    "64 * blocks \<le> length inp"
  shows "SHA256D64 way8 way4 way2 inp blocks = d64_each blocks inp"
proof -
  define st where "st = d64_way 2 way2 (d64_way 4 way4 (d64_way 8 way8 ([], inp, blocks)))"
  have "d64_done inp blocks ([], inp, blocks)" unfolding d64_done_def by (intro exI[of _ 0]) simp
  then have "d64_done inp blocks st" unfolding st_def using assms by (intro d64_way_done) auto
  then obtain m where m: "m \<le> blocks" "st = (d64_each m inp, drop (64 * m) inp, blocks - m)" by (auto simp: d64_done_def)
  have "way_ok 1 TransformD64" by (simp add: way_ok_def TransformD64_eq)
  moreover have "64 * (blocks - m) \<le> length (drop (64 * m) inp)" using assms(4) by simp
  ultimately have "fst (d64_loop 1 TransformD64 (drop (64 * m) inp) (blocks - m) (d64_each m inp)) =
      d64_each m inp @ d64_each (blocks - m) (drop (64 * m) inp)"
    using d64_loop_ok[of 1 TransformD64 "blocks - m" "drop (64 * m) inp" "d64_each m inp"] by auto
  also have "\<dots> = d64_each blocks inp" using d64_each_add[of m "blocks - m" inp] m(1) by simp
  finally have "fst (d64_loop 1 TransformD64 (drop (64 * m) inp) (blocks - m) (d64_each m inp)) = d64_each blocks inp" .
  moreover have "d64_way 1 (Some TransformD64) st = d64_loop 1 TransformD64 (drop (64 * m) inp) (blocks - m) (d64_each m inp)"
    by (simp only: m(2) d64_way_def prod.case option.case)
  ultimately show ?thesis unfolding SHA256D64_def by (simp only: flip: st_def)
qed

lemma d64_each_concat: "d64_each n inp = concat (map (\<lambda>i. sha256 (sha256 (take 64 (drop (64 * i) inp)))) [0..<n])"
proof (induction n)
  case (Suc n)
  show ?case using d64_each_add[of n 1 inp] by (simp add: Suc)
qed simp

end
