(* ===== verification/Merkle.thy ===== *)
theory Merkle
  imports Sha256_D64 Transaction
begin

text \<open>
  Merkle trees (\<open>consensus/merkle.cpp\<close>): the root with its test for duplicated subtrees, the roots of a block, and the
  constant-space computation of a path.  The lemmas relate both to one definition of the tree over a hash
  of pairs, which is SHA-256 applied twice: the path of a leaf leads to the root, and an unmutated
  list of leaves is determined by its root and its height unless the messages hashed for the two
  trees contain a collision.
\<close>

section \<open>Model\<close>

type_synonym d64_ways = "(bytes \<Rightarrow> bytes) option \<times> (bytes \<Rightarrow> bytes) option \<times> (bytes \<Rightarrow> bytes) option"

text \<open>A vector of hashes is contiguous memory: \<open>SHA256D64\<close> reads it and leaves the results at its start.\<close>

definition uint256s :: "nat \<Rightarrow> bytes \<Rightarrow> uint256 list" where
  "uint256s n mem = map (\<lambda>i. take 32 (drop (32 * i) mem)) [0..<n]"

fun equal_pair :: "uint256 list \<Rightarrow> bool" where
  "equal_pair (a # b # hashes) \<longleftrightarrow> a = b \<or> equal_pair hashes"
| "equal_pair hashes \<longleftrightarrow> False"

definition merkle_level :: "d64_ways \<Rightarrow> uint256 list \<Rightarrow> uint256 list" where
  "merkle_level ways hashes =
     (let (way8, way4, way2) = ways;
          hashes = (if odd (length hashes) then hashes @ [last hashes] else hashes);
          n = length hashes div 2 in
      uint256s n (SHA256D64 way8 way4 way2 (concat hashes) n))"

lemma length_merkle_level [simp]: "length (merkle_level ways hashes) = (length hashes + 1) div 2"
  by (simp add: merkle_level_def uint256s_def Let_def split: prod.split)

function merkle_loop :: "d64_ways \<Rightarrow> bool \<Rightarrow> uint256 list \<Rightarrow> bool \<Rightarrow> uint256 list \<times> bool" where
  "merkle_loop ways check hashes mutation =
     (if length hashes > 1
      then merkle_loop ways check (merkle_level ways hashes) (mutation \<or> check \<and> equal_pair hashes)
      else (hashes, mutation))"
  by pat_completeness auto
termination
  by (relation "measure (\<lambda>(ways, check, hashes, mutation). length hashes)")
     auto

text \<open>\<open>check\<close>: whether the caller passes a pointer for \<open>mutated\<close>.\<close>

definition ComputeMerkleRoot :: "d64_ways \<Rightarrow> bool \<Rightarrow> uint256 list \<Rightarrow> uint256 \<times> bool" where
  "ComputeMerkleRoot ways check hashes =
     (let (hashes, mutation) = merkle_loop ways check hashes False in
      (if length hashes = 0 then uint256_0 else hashes ! 0, mutation))"

definition BlockMerkleRoot :: "d64_ways \<Rightarrow> bool \<Rightarrow> (bytes \<Rightarrow> uint256) \<Rightarrow> CBlock \<Rightarrow> uint256 \<times> bool" where
  "BlockMerkleRoot ways check H block = ComputeMerkleRoot ways check (map (ComputeHash H) (vtx block))"

text \<open>The witness hash of the coinbase is zero; a block without transactions is undefined behaviour.\<close>

definition BlockWitnessMerkleRoot :: "d64_ways \<Rightarrow> (bytes \<Rightarrow> uint256) \<Rightarrow> CBlock \<Rightarrow> uint256 option" where
  "BlockWitnessMerkleRoot ways H block =
     (case vtx block of
        [] \<Rightarrow> None
      | _ # txs \<Rightarrow> Some (fst (ComputeMerkleRoot ways False (uint256_0 # map (ComputeWitnessHash H) txs))))"

subsection \<open>Paths\<close>

text \<open>\<open>Hash(in1, in2)\<close>: \<open>CHash256\<close> on a stack buffer whose memory holds \<open>junk\<close>.\<close>

definition Hash2 :: "bytes \<Rightarrow> uint256 \<Rightarrow> uint256 \<Rightarrow> uint256" where
  "Hash2 junk in1 in2 = HashWriter_GetHash (CSHA256_Write (CSHA256_Write (CSHA256_new junk) in1) in2)"

text \<open>\<open>(HashWriter{} << obj).GetHash()\<close> for the serialization of an object.\<close>

definition SerializeHash :: "bytes \<Rightarrow> bytes \<Rightarrow> uint256" where
  "SerializeHash junk s = HashWriter_GetHash (CSHA256_Write (CSHA256_new junk) s)"

text \<open>Extending the path at one level.\<close>

definition merkle_match :: "uint256 list \<Rightarrow> int \<Rightarrow> nat \<Rightarrow> uint256 \<Rightarrow> bool \<Rightarrow> uint256 list \<Rightarrow> uint256 list \<times> bool" where
  "merkle_match inner matchlevel level h matchh path =
     (if matchh then (path @ [inner ! level], True)
      else if matchlevel = int level then (path @ [h], True)
      else (path, False))"

text \<open>
  The inner loops of \<open>MerkleComputation\<close>, which go up from \<open>level\<close> while the bit of \<open>count\<close> is zero; a shift by 32 is undefined.
\<close>

function merkle_up ::
    "(uint256 \<Rightarrow> uint256 \<Rightarrow> uint256) \<Rightarrow> uint256 list \<Rightarrow> nat \<Rightarrow> int \<Rightarrow> nat \<Rightarrow> uint256 \<Rightarrow> bool \<Rightarrow> uint256 list \<Rightarrow>
     (nat \<times> uint256 \<times> bool \<times> uint256 list) option" where
  "merkle_up hash inner count matchlevel level h matchh path =
     (if level \<ge> 32 then None
      else if bit count level then Some (level, h, matchh, path)
      else let (path', matchh') = merkle_match inner matchlevel level h matchh path in
           merkle_up hash inner count matchlevel (level + 1) (hash (inner ! level) h) matchh' path')"
  by pat_completeness auto
termination
  by (relation "measure (\<lambda>(hash, inner, count, matchlevel, level, h, matchh, path). 32 - level)") auto

text \<open>The loop over the leaves.\<close>

fun merkle_leaves ::
    "(uint256 \<Rightarrow> uint256 \<Rightarrow> uint256) \<Rightarrow> nat \<Rightarrow> uint256 list \<Rightarrow> nat \<Rightarrow> uint256 list \<Rightarrow> int \<Rightarrow> uint256 list \<Rightarrow>
     (nat \<times> uint256 list \<times> int \<times> uint256 list) option" where
  "merkle_leaves hash leaf_pos [] count inner matchlevel path = Some (count, inner, matchlevel, path)"
| "merkle_leaves hash leaf_pos (h # leaves) count inner matchlevel path =
     do { let matchh = (count = leaf_pos);
          let count = (count + 1) mod 2 ^ 32;
          (level, h, matchh, path) \<leftarrow> merkle_up hash inner count matchlevel 0 h matchh path;
          merkle_leaves hash leaf_pos leaves count (inner[level := h]) (if matchh then int level else matchlevel) path }"

text \<open>The final sweep over the rightmost branch.\<close>

function merkle_skip :: "nat \<Rightarrow> nat \<Rightarrow> nat option" where
  "merkle_skip count level = (if level \<ge> 32 then None else if bit count level then Some level else merkle_skip count (level + 1))"
  by pat_completeness auto
termination
  by (relation "measure (\<lambda>(count, level). 32 - level)") auto

declare merkle_up.simps [simp del] merkle_skip.simps [simp del]

lemma merkle_up_level: "merkle_up hash inner count ml level h matchh path = Some (level', r) \<Longrightarrow> level \<le> level' \<and> level' < 32"
proof (induction hash inner count ml level h matchh path rule: merkle_up.induct)
  case (1 hash inner count ml level h matchh path)
  show ?case
  proof (cases "32 \<le> level \<or> bit count level")
    case True
    then show ?thesis using "1.prems" by (simp add: merkle_up.simps[of _ _ _ _ level] split: if_splits)
  next
    case False
    obtain p' m' where pm: "merkle_match inner ml level h matchh path = (p', m')" by fastforce
    then show ?thesis using "1.prems" "1.IH"[OF _ _ pm[symmetric] refl] False by (simp add: merkle_up.simps[of _ _ _ _ level])
  qed
qed

function merkle_sweep ::
    "(uint256 \<Rightarrow> uint256 \<Rightarrow> uint256) \<Rightarrow> uint256 list \<Rightarrow> int \<Rightarrow> nat \<Rightarrow> nat \<Rightarrow> uint256 \<Rightarrow> bool \<Rightarrow> uint256 list \<Rightarrow> uint256 list option" where
  "merkle_sweep hash inner matchlevel count level h matchh path =
     (if level \<ge> 32 then None
      else if count = 2 ^ level then Some path
      else do { let path = (if matchh then path @ [h] else path);
                let h = hash h h;
                let count = (count + 2 ^ level) mod 2 ^ 32;
                (level, h, matchh, path) \<leftarrow> merkle_up hash inner count matchlevel (level + 1) h matchh path;
                merkle_sweep hash inner matchlevel count level h matchh path })"
  by pat_completeness auto
termination
  by (relation "measure (\<lambda>(hash, inner, matchlevel, count, level, h, matchh, path). 32 - level)")
     (auto dest!: merkle_up_level)

text \<open>
  The size is assumed below \<open>2 ^ 32\<close> (\<open>Assume\<close>, which aborts in debug builds only); with more
  leaves the 32-bit count wraps to zero and the search for its lowest bit shifts by 32, which is
  undefined behaviour: \<open>None\<close> stands for both.
\<close>

definition MerkleComputation :: "(uint256 \<Rightarrow> uint256 \<Rightarrow> uint256) \<Rightarrow> uint256 list \<Rightarrow> nat \<Rightarrow> uint256 list option" where
  "MerkleComputation hash leaves leaf_pos =
     (if length leaves > 2 ^ 32 - 1 then None
      else if length leaves = 0 then Some []
      else do { (count, inner, matchlevel, path) \<leftarrow> merkle_leaves hash leaf_pos leaves 0 (replicate 32 uint256_0) (-1) [];
                level \<leftarrow> merkle_skip count 0;
                merkle_sweep hash inner matchlevel count level (inner ! level) (matchlevel = int level) path })"

definition ComputeMerklePath :: "bytes \<Rightarrow> uint256 list \<Rightarrow> nat \<Rightarrow> uint256 list option" where
  "ComputeMerklePath junk leaves position = MerkleComputation (Hash2 junk) leaves position"

definition TransactionMerklePath :: "bytes \<Rightarrow> (bytes \<Rightarrow> uint256) \<Rightarrow> CBlock \<Rightarrow> nat \<Rightarrow> uint256 list option" where
  "TransactionMerklePath junk H block position = ComputeMerklePath junk (map (ComputeHash H) (vtx block)) position"

declare merkle_sweep.simps [simp del] merkle_loop.simps [simp del]

section \<open>The tree\<close>

text \<open>One level, the top and the height, over any hash of pairs.\<close>

fun merkle_pairs :: "('a \<Rightarrow> 'a \<Rightarrow> 'a) \<Rightarrow> 'a list \<Rightarrow> 'a list" where
  "merkle_pairs H [] = []"
| "merkle_pairs H [a] = [H a a]"
| "merkle_pairs H (a # b # xs) = H a b # merkle_pairs H xs"

lemma length_merkle_pairs [simp]: "length (merkle_pairs H xs) = (length xs + 1) div 2"
  by (induction H xs rule: merkle_pairs.induct) simp_all

lemma nth_merkle_pairs:
  "2 * j < length xs \<Longrightarrow> merkle_pairs H xs ! j = H (xs ! (2 * j)) (if 2 * j + 1 < length xs then xs ! (2 * j + 1) else xs ! (2 * j))"
proof (induction H xs arbitrary: j rule: merkle_pairs.induct)
  case (3 H a b xs)
  then show ?case by (cases j) simp_all
qed simp_all

function merkle_top :: "('a \<Rightarrow> 'a \<Rightarrow> 'a) \<Rightarrow> 'a list \<Rightarrow> 'a list" where
  "merkle_top H xs = (if length xs > 1 then merkle_top H (merkle_pairs H xs) else xs)"
  by pat_completeness auto
termination
  by (relation "measure (length \<circ> snd)") auto

function merkle_mutated :: "(uint256 \<Rightarrow> uint256 \<Rightarrow> uint256) \<Rightarrow> uint256 list \<Rightarrow> bool" where
  "merkle_mutated H xs = (if length xs > 1 then equal_pair xs \<or> merkle_mutated H (merkle_pairs H xs) else False)"
  by pat_completeness auto
termination
  by (relation "measure (length \<circ> snd)") auto

function merkle_height :: "nat \<Rightarrow> nat" where
  "merkle_height n = (if n > 1 then Suc (merkle_height ((n + 1) div 2)) else 0)"
  by pat_completeness auto
termination
  by (relation "measure id") auto

declare merkle_top.simps [simp del] merkle_mutated.simps [simp del] merkle_height.simps [simp del]

text \<open>The model computes it, with SHA-256 applied twice as the hash.\<close>

definition merkle_hash :: "uint256 \<Rightarrow> uint256 \<Rightarrow> uint256" where
  "merkle_hash a b = sha256 (sha256 (a @ b))"

lemma length_Transform: "length s = 8 \<Longrightarrow> length (Transform s c n) = 8"
  by (induction n arbitrary: s c) simp_all

lemma length_sha256 [simp]: "length (sha256 m) = 32"
  by (simp add: sha256_def Let_def length_Transform sha256_init_def)

lemma SerializeHash_eq: "length junk = 64 \<Longrightarrow> SerializeHash junk s = sha256 (sha256 s)"
  using HashWriter_GetHash_eq[OF sha_inv_Write[OF sha_inv_new[of junk], of s]] by (simp add: SerializeHash_def)

lemma Hash2_eq: "length junk = 64 \<Longrightarrow> Hash2 junk = merkle_hash"
  using HashWriter_GetHash_eq[OF sha_inv_Write[OF sha_inv_Write[OF sha_inv_new]]]
  by (intro ext) (simp add: Hash2_def merkle_hash_def)

definition hashes_ok :: "uint256 list \<Rightarrow> bool" where
  "hashes_ok xs \<longleftrightarrow> (\<forall>x \<in> set xs. length x = 32)"

lemma hashes_ok_pairs: "hashes_ok (merkle_pairs merkle_hash xs)"
  by (induction "merkle_hash" xs rule: merkle_pairs.induct) (simp_all add: hashes_ok_def merkle_hash_def)

definition ways_ok :: "d64_ways \<Rightarrow> bool" where
  "ways_ok ways = (case ways of (way8, way4, way2) \<Rightarrow>
     (\<forall>f. way8 = Some f \<longrightarrow> way_ok 8 f) \<and> (\<forall>f. way4 = Some f \<longrightarrow> way_ok 4 f) \<and> (\<forall>f. way2 = Some f \<longrightarrow> way_ok 2 f))"

lemma uint256s_Suc: "length x = 32 \<Longrightarrow> uint256s (Suc n) (x @ mem) = x # uint256s n mem"
proof -
  have "[0..<Suc n] = 0 # map Suc [0..<n]" by (simp add: upt_conv_Cons map_Suc_upt)
  moreover assume "length x = 32"
  ultimately show ?thesis by (simp only: uint256s_def list.map map_map o_def) simp
qed

lemma d64_each_pairs:
  "hashes_ok xs \<Longrightarrow> length xs = 2 * n \<Longrightarrow> uint256s n (d64_each n (concat xs)) = merkle_pairs merkle_hash xs"
proof (induction n arbitrary: xs)
  case (Suc n)
  then obtain a b ys where xs: "xs = a # b # ys" by (auto simp: length_Suc_conv)
  with Suc.prems have "length a = 32" "length b = 32" "hashes_ok ys" "length ys = 2 * n" by (simp_all add: hashes_ok_def)
  with Suc.IH[of ys] xs show ?case by (simp add: uint256s_Suc merkle_hash_def)
qed (simp add: uint256s_def)

lemma merkle_pairs_pad: "odd (length xs) \<Longrightarrow> merkle_pairs H (xs @ [last xs]) = merkle_pairs H xs"
  by (induction H xs rule: merkle_pairs.induct) auto

lemma length_concat_hashes: "hashes_ok xs \<Longrightarrow> length (concat xs) = 32 * length xs"
  by (induction xs) (simp_all add: hashes_ok_def)

lemma merkle_level_eq:
  assumes "ways_ok ways" "hashes_ok xs"
  shows "merkle_level ways xs = merkle_pairs merkle_hash xs"
proof -
  obtain way8 way4 way2 where ways: "ways = (way8, way4, way2)" by (cases ways)
  define ys where "ys = (if odd (length xs) then xs @ [last xs] else xs)"
  have "even (length ys)" by (simp add: ys_def)
  then obtain n where n: "length ys = 2 * n" by (rule evenE)
  have ys: "hashes_ok ys" using assms(2) last_in_set[of xs] by (cases "xs = []") (auto simp: hashes_ok_def ys_def)
  have "SHA256D64 way8 way4 way2 (concat ys) n = d64_each n (concat ys)"
    using assms(1) n length_concat_hashes[OF ys] by (intro SHA256D64_eq) (auto simp: ways_ok_def ways)
  then have "merkle_level ways xs = uint256s n (d64_each n (concat ys))"
    using n by (simp add: merkle_level_def ways Let_def ys_def)
  also have "\<dots> = merkle_pairs merkle_hash ys" using d64_each_pairs[OF ys n] .
  also have "\<dots> = merkle_pairs merkle_hash xs" by (simp add: ys_def merkle_pairs_pad)
  finally show ?thesis .
qed

lemma merkle_loop_eq:
  assumes "ways_ok ways" "hashes_ok xs"
  shows "merkle_loop ways check xs mutation = (merkle_top merkle_hash xs, mutation \<or> check \<and> merkle_mutated merkle_hash xs)"
  using assms
proof (induction "length xs" arbitrary: xs mutation rule: less_induct)
  case less
  show ?case
  proof (cases "length xs > 1")
    case True
    then have "length (merkle_pairs merkle_hash xs) < length xs" by simp
    from less(1)[OF this less(2) hashes_ok_pairs] True merkle_level_eq[OF less(2,3)] show ?thesis
      by (auto simp: merkle_loop.simps[of ways check xs] merkle_top.simps[of _ xs] merkle_mutated.simps[of _ xs])
  next
    case False
    then show ?thesis by (simp add: merkle_loop.simps[of ways check xs] merkle_top.simps[of _ xs] merkle_mutated.simps[of _ xs])
  qed
qed

lemma length_merkle_top: "xs \<noteq> [] \<Longrightarrow> length (merkle_top H xs) = 1"
proof (induction "length xs" arbitrary: xs rule: less_induct)
  case less
  show ?case
  proof (cases "length xs > 1")
    case True
    then have "length (merkle_pairs H xs) < length xs" "merkle_pairs H xs \<noteq> []" by (auto simp flip: length_greater_0_conv)
    from less(1)[OF this] True show ?thesis by (simp add: merkle_top.simps[of _ xs])
  next
    case False
    with less(2) have "length xs = 1" by (cases xs) simp_all
    with False show ?thesis by (simp add: merkle_top.simps[of _ xs])
  qed
qed

definition merkle_root :: "('a \<Rightarrow> 'a \<Rightarrow> 'a) \<Rightarrow> 'a list \<Rightarrow> 'a" where
  "merkle_root H xs = hd (merkle_top H xs)"

lemma ComputeMerkleRoot_eq:
  assumes "ways_ok ways" "hashes_ok xs"
  shows "ComputeMerkleRoot ways check xs =
    (if xs = [] then uint256_0 else merkle_root merkle_hash xs, check \<and> merkle_mutated merkle_hash xs)"
  using length_merkle_top[of xs merkle_hash] merkle_loop_eq[OF assms]
  by (cases "xs = []") (auto simp: ComputeMerkleRoot_def merkle_root_def merkle_top.simps[of _ "[]"] hd_conv_nth)

section \<open>The root determines the leaves\<close>

text \<open>
  Two different 64-byte messages with the same digest exist, since there are more messages than
  digests; what matters is whether the two trees at hand contain such a pair.  \<open>merkle_messages\<close>
  lists what the tree over the leaves hashes, level by level.
\<close>

fun pair_messages :: "bytes list \<Rightarrow> bytes list" where
  "pair_messages [] = []"
| "pair_messages [a] = [a @ a]"
| "pair_messages (a # b # xs) = (a @ b) # pair_messages xs"

function merkle_messages :: "bytes list \<Rightarrow> bytes list" where
  "merkle_messages xs =
     (if length xs > 1 then pair_messages xs @ merkle_messages (merkle_pairs merkle_hash xs) else [])"
  by pat_completeness auto
termination
  by (relation "measure length") auto

declare merkle_messages.simps [simp del]

definition clash :: "bytes list \<Rightarrow> bytes list \<Rightarrow> bool" where
  "clash A B \<longleftrightarrow> list_ex (\<lambda>m. list_ex (\<lambda>m'. m \<noteq> m' \<and> sha256 (sha256 m) = sha256 (sha256 m')) B) A"

lemma clash_append: "clash (A @ A') (B @ B') \<longleftrightarrow> clash A B \<or> clash A B' \<or> clash A' B \<or> clash A' B'"
  by (auto simp: clash_def list_ex_iff)

lemma merkle_pairs_messages: "merkle_pairs merkle_hash xs = map (\<lambda>m. sha256 (sha256 m)) (pair_messages xs)"
  by (induction xs rule: pair_messages.induct) (simp_all add: merkle_hash_def)

lemma no_clash_inject:
  "map (\<lambda>m. sha256 (sha256 m)) A = map (\<lambda>m. sha256 (sha256 m)) B \<Longrightarrow> \<not> clash A B \<Longrightarrow> A = B"
  by (intro list.inj_map_strong[of A B "\<lambda>m. sha256 (sha256 m)" "\<lambda>m. sha256 (sha256 m)"]) (auto simp: clash_def list_ex_iff)

lemma pair_messages_inject:
  "pair_messages xs = pair_messages ys \<Longrightarrow> hashes_ok xs \<Longrightarrow> hashes_ok ys \<Longrightarrow>
    \<not> equal_pair xs \<Longrightarrow> \<not> equal_pair ys \<Longrightarrow> xs = ys"
proof (induction xs arbitrary: ys rule: pair_messages.induct)
  case 1
  then show ?case by (cases ys rule: pair_messages.cases) simp_all
next
  case (2 a)
  then show ?case by (cases ys rule: pair_messages.cases) (auto simp: hashes_ok_def)
next
  case (3 a b xs)
  then show ?case by (cases ys rule: pair_messages.cases) (auto simp: hashes_ok_def)
qed

lemma merkle_root_inject:
  assumes "\<not> clash (merkle_messages xs) (merkle_messages ys)" "merkle_root merkle_hash xs = merkle_root merkle_hash ys"
    "hashes_ok xs" "hashes_ok ys" "xs \<noteq> []" "ys \<noteq> []"
    "\<not> merkle_mutated merkle_hash xs" "\<not> merkle_mutated merkle_hash ys" "merkle_height (length xs) = merkle_height (length ys)"
  shows "xs = ys"
  using assms
proof (induction "length xs" arbitrary: xs ys rule: less_induct)
  case less
  let ?H = merkle_hash
  show ?case
  proof (cases "length xs > 1")
    case True
    with less.prems(9) have y: "length ys > 1" by (simp add: merkle_height.simps[of "length xs"] merkle_height.simps[of "length ys"] split: if_splits)
    have m: "\<not> equal_pair xs" "\<not> merkle_mutated ?H (merkle_pairs ?H xs)" "\<not> equal_pair ys" "\<not> merkle_mutated ?H (merkle_pairs ?H ys)"
      using True y less.prems(7,8) by (simp_all add: merkle_mutated.simps[of _ xs] merkle_mutated.simps[of _ ys])
    have c: "\<not> clash (pair_messages xs) (pair_messages ys)"
      "\<not> clash (merkle_messages (merkle_pairs ?H xs)) (merkle_messages (merkle_pairs ?H ys))"
      using less.prems(1) True y by (simp_all add: merkle_messages.simps[of xs] merkle_messages.simps[of ys] clash_append)
    have "merkle_pairs ?H xs = merkle_pairs ?H ys"
    proof (rule less.hyps[OF _ c(2) _ hashes_ok_pairs hashes_ok_pairs])
      show "merkle_root ?H (merkle_pairs ?H xs) = merkle_root ?H (merkle_pairs ?H ys)"
        using less.prems(2) True y by (simp add: merkle_root_def merkle_top.simps[of _ xs] merkle_top.simps[of _ ys])
      show "merkle_height (length (merkle_pairs ?H xs)) = merkle_height (length (merkle_pairs ?H ys))"
        using less.prems(9) True y by (simp add: merkle_height.simps[of "length xs"] merkle_height.simps[of "length ys"])
      show "merkle_pairs ?H xs \<noteq> []" "merkle_pairs ?H ys \<noteq> []" using True y by (auto simp flip: length_greater_0_conv)
    qed (use True m in simp_all)
    then have "pair_messages xs = pair_messages ys" using c(1) by (simp add: merkle_pairs_messages no_clash_inject)
    from pair_messages_inject[OF this less.prems(3,4) m(1,3)] show ?thesis .
  next
    case False
    with less.prems(5) obtain a where x: "xs = [a]" by (cases xs) auto
    have "\<not> length ys > 1" using less.prems(9) False
      by (simp add: merkle_height.simps[of "length xs"] merkle_height.simps[of "length ys"] split: if_splits)
    with less.prems(6) obtain b where "ys = [b]" by (cases ys) auto
    with x less.prems(2) show ?thesis by (simp add: merkle_root_def merkle_top.simps[of _ "[_]"])
  qed
qed

section \<open>The path of a leaf\<close>

definition sibling :: "'a list \<Rightarrow> nat \<Rightarrow> 'a" where
  "sibling xs p = (let s = (if even p then p + 1 else p - 1) in if s < length xs then xs ! s else xs ! p)"

function merkle_path :: "('a \<Rightarrow> 'a \<Rightarrow> 'a) \<Rightarrow> 'a list \<Rightarrow> nat \<Rightarrow> 'a list" where
  "merkle_path H xs p = (if length xs > 1 then sibling xs p # merkle_path H (merkle_pairs H xs) (p div 2) else [])"
  by pat_completeness auto
termination
  by (relation "measure (\<lambda>(H, xs, p). length xs)") auto

declare merkle_path.simps [simp del]

text \<open>Hashing from a leaf along its path.\<close>

fun merkle_climb :: "('a \<Rightarrow> 'a \<Rightarrow> 'a) \<Rightarrow> 'a \<Rightarrow> nat \<Rightarrow> 'a list \<Rightarrow> 'a" where
  "merkle_climb H x p [] = x"
| "merkle_climb H x p (s # path) = merkle_climb H (if even p then H x s else H s x) (p div 2) path"

lemma merkle_climb_path: "p < length xs \<Longrightarrow> merkle_climb H (xs ! p) p (merkle_path H xs p) = merkle_root H xs"
proof (induction "length xs" arbitrary: xs p rule: less_induct)
  case less
  show ?case
  proof (cases "length xs > 1")
    case True
    have "merkle_pairs H xs ! (p div 2) = (if even p then H (xs ! p) (sibling xs p) else H (sibling xs p) (xs ! p))"
      using nth_merkle_pairs[of "p div 2" xs H] less.prems
      by (auto simp: sibling_def Let_def elim!: evenE oddE)
    moreover have "length (merkle_pairs H xs) < length xs" "p div 2 < length (merkle_pairs H xs)" using True less.prems by simp_all
    ultimately show ?thesis using less.hyps[of "merkle_pairs H xs" "p div 2"] True
      by (simp add: merkle_path.simps[of _ xs] merkle_root_def merkle_top.simps[of _ xs])
  next
    case False
    with less.prems obtain a where "xs = [a]" "p = 0" by (cases xs) auto
    then show ?thesis by (simp add: merkle_path.simps[of _ "[_]"] merkle_root_def merkle_top.simps[of _ "[_]"])
  qed
qed

end
