(* ===== verification/Block_Checks.thy ===== *)
theory Block_Checks
  imports Tx_Checks Merkle Header_Validation
begin

text \<open>
  Checks of a block's body (\<open>validation.cpp\<close>): \<open>CheckMerkleRoot\<close>, \<open>CheckWitnessMalleation\<close>, \<open>CheckBlock\<close>,
  \<open>IsBlockMutated\<close> and \<open>ContextualCheckBlock\<close>, with the flags of \<open>CBlock\<close> in which they remember a success.
  The lemmas say which blocks pass, that remembering never changes an answer, that two accepted blocks
  with the same Merkle root have the same transaction ids unless their trees contain a collision, and
  that a coinbase fits one height only.
\<close>

section \<open>Model\<close>

text \<open>
  The hash of a serialization and the ways of \<open>SHA256D64\<close> are arguments, as in the Merkle theory.
  \<open>signet\<close> stands for \<open>CheckSignetBlockSolution\<close>, which runs the script interpreter on the header and the transactions.
\<close>

definition CheckMerkleRoot :: "d64_ways \<Rightarrow> (bytes \<Rightarrow> uint256) \<Rightarrow> CBlock \<Rightarrow> (rejection + unit) \<times> CBlock" where
  "CheckMerkleRoot ways H block =
     (if m_checked_merkle_root block then (Inr (), block)
      else let (merkle_root, mutated) = BlockMerkleRoot ways True H block in
           if h_hashMerkleRoot block \<noteq> merkle_root then (Inl (BLOCK_MUTATED, ''bad-txnmrklroot''), block)
           else if mutated then (Inl (BLOCK_MUTATED, ''bad-txns-duplicate''), block)
           else (Inr (), block\<lparr>m_checked_merkle_root := True\<rparr>))"

subsection \<open>Witness commitment\<close>

definition NO_WITNESS_COMMITMENT :: int where "NO_WITNESS_COMMITMENT = -1"
definition MINIMUM_WITNESS_COMMITMENT :: nat where "MINIMUM_WITNESS_COMMITMENT = 38"
definition OP_RETURN :: u8 where "OP_RETURN = 0x6a"

definition is_witness_commitment :: "CScript \<Rightarrow> bool" where
  "is_witness_commitment s \<longleftrightarrow> length s \<ge> MINIMUM_WITNESS_COMMITMENT \<and> s ! 0 = OP_RETURN \<and> s ! 1 = 0x24 \<and>
     s ! 2 = 0xaa \<and> s ! 3 = 0x21 \<and> s ! 4 = 0xa9 \<and> s ! 5 = 0xed"

definition GetWitnessCommitmentIndex :: "CBlock \<Rightarrow> int" where
  "GetWitnessCommitmentIndex block =
     (case vtx block of [] \<Rightarrow> NO_WITNESS_COMMITMENT
      | tx # _ \<Rightarrow> foldl (\<lambda>commitpos i. if is_witness_commitment (scriptPubKey (vout tx ! i)) then int i else commitpos)
                    NO_WITNESS_COMMITMENT [0..<length (vout tx)])"

definition unexpected_witness :: "CBlock \<Rightarrow> rejection + unit" where
  "unexpected_witness block =
     (if list_ex HasWitness (vtx block) then Inl (BLOCK_MUTATED, ''unexpected-witness'') else Inr ())"

text \<open>The comparison with the commitment; \<open>CHash256\<close> over the witness root and the reserved value is \<open>Hash2\<close>.\<close>

definition witness_commitment_check ::
    "d64_ways \<Rightarrow> bytes \<Rightarrow> (bytes \<Rightarrow> uint256) \<Rightarrow> CBlock \<Rightarrow> int \<Rightarrow> (rejection + unit) option" where
  "witness_commitment_check ways junk H block commitpos =
     (case vtx block of [] \<Rightarrow> None
      | tx # _ \<Rightarrow>
        case vin tx of [] \<Rightarrow> None
        | txin # _ \<Rightarrow>
          let witness_stack = scriptWitness txin in
          if length witness_stack \<noteq> 1 \<or> length (witness_stack ! 0) \<noteq> 32
          then Some (Inl (BLOCK_MUTATED, ''bad-witness-nonce-size''))
          else do { hash_witness \<leftarrow> BlockWitnessMerkleRoot ways H block;
                    let hash_witness = Hash2 junk hash_witness (witness_stack ! 0);
                    if hash_witness \<noteq> take 32 (drop 6 (scriptPubKey (vout tx ! nat commitpos)))
                    then Some (Inl (BLOCK_MUTATED, ''bad-witness-merkle-match''))
                    else Some (Inr ()) })"

definition CheckWitnessMalleation ::
    "d64_ways \<Rightarrow> bytes \<Rightarrow> (bytes \<Rightarrow> uint256) \<Rightarrow> bool \<Rightarrow> CBlock \<Rightarrow> ((rejection + unit) \<times> CBlock) option" where
  "CheckWitnessMalleation ways junk H expect_witness_commitment block =
     (if expect_witness_commitment \<and> m_checked_witness_commitment block then Some (Inr (), block)
      else let commitpos = GetWitnessCommitmentIndex block in
           if expect_witness_commitment \<and> commitpos \<noteq> NO_WITNESS_COMMITMENT
           then do { r \<leftarrow> witness_commitment_check ways junk H block commitpos;
                     Some (r, case r of Inl _ \<Rightarrow> block | Inr _ \<Rightarrow> block\<lparr>m_checked_witness_commitment := True\<rparr>) }
           else Some (unexpected_witness block, block))"

subsection \<open>CheckBlock\<close>

fun check_txs :: "CTransaction list \<Rightarrow> (rejection + unit) option" where
  "check_txs [] = Some (Inr ())"
| "check_txs (tx # txs) =
     (case CheckTransaction tx of
        Inl (result, reason) \<Rightarrow> if result \<noteq> TX_CONSENSUS then None else Some (Inl (BLOCK_CONSENSUS, reason))
      | Inr _ \<Rightarrow> check_txs txs)"

fun block_sigops :: "u32 \<Rightarrow> CTransaction list \<Rightarrow> u32 option" where
  "block_sigops nSigOps [] = Some nSigOps"
| "block_sigops nSigOps (tx # txs) = do { k \<leftarrow> GetLegacySigOpCount tx; block_sigops (nSigOps + k) txs }"

definition check_body :: "CBlock \<Rightarrow> (rejection + unit) option" where
  "check_body block =
     (if vtx block = [] \<or> length (vtx block) * WITNESS_SCALE_FACTOR > MAX_BLOCK_WEIGHT \<or>
         length (Serialize_CBlock False block) * WITNESS_SCALE_FACTOR > MAX_BLOCK_WEIGHT
      then Some (Inl (BLOCK_CONSENSUS, ''bad-blk-length''))
      else if vtx block = [] \<or> \<not> IsCoinBase (vtx block ! 0) then Some (Inl (BLOCK_CONSENSUS, ''bad-cb-missing''))
      else if list_ex IsCoinBase (drop 1 (vtx block)) then Some (Inl (BLOCK_CONSENSUS, ''bad-cb-multiple''))
      else do { r \<leftarrow> check_txs (vtx block);
                case r of Inl e \<Rightarrow> Some (Inl e)
                | Inr _ \<Rightarrow>
                    do { nSigOps \<leftarrow> block_sigops 0 (vtx block);
                         if uint (nSigOps * of_nat WITNESS_SCALE_FACTOR) > MAX_BLOCK_SIGOPS_COST
                         then Some (Inl (BLOCK_CONSENSUS, ''bad-blk-sigops'')) else Some (Inr ()) } })"

definition CheckBlock ::
    "d64_ways \<Rightarrow> (bytes \<Rightarrow> uint256) \<Rightarrow> (CBlockHeader \<Rightarrow> CTransaction list \<Rightarrow> bool) \<Rightarrow> Params \<Rightarrow> bool \<Rightarrow> bool \<Rightarrow> CBlock \<Rightarrow>
      ((rejection + unit) \<times> CBlock) option" where
  "CheckBlock ways H signet params fCheckPOW fCheckMerkleRoot block =
     (if fChecked block then Some (Inr (), block)
      else if \<not> CheckBlockHeader (header_of block) then Some (Inl (BLOCK_RESULT_UNSET, ''''), block)
      else if signet_blocks params \<and> fCheckPOW \<and> \<not> signet (header_of block) (vtx block)
      then Some (Inl (BLOCK_CONSENSUS, ''bad-signet-blksig''), block)
      else case (if fCheckMerkleRoot then CheckMerkleRoot ways H block else (Inr (), block)) of
             (Inl e, block) \<Rightarrow> Some (Inl e, block)
           | (Inr _, block) \<Rightarrow>
               do { r \<leftarrow> check_body block;
                    case r of Inl e \<Rightarrow> Some (Inl e, block)
                    | Inr _ \<Rightarrow> Some (Inr (), if fCheckPOW \<and> fCheckMerkleRoot then block\<lparr>fChecked := True\<rparr> else block) })"

definition IsBlockMutated :: "d64_ways \<Rightarrow> bytes \<Rightarrow> (bytes \<Rightarrow> uint256) \<Rightarrow> bool \<Rightarrow> CBlock \<Rightarrow> (bool \<times> CBlock) option" where
  "IsBlockMutated ways junk H check_witness_root block =
     (case CheckMerkleRoot ways H block of
        (Inl _, block) \<Rightarrow> Some (True, block)
      | (Inr _, block) \<Rightarrow>
          if vtx block = [] \<or> \<not> IsCoinBase (vtx block ! 0)
          then Some (list_ex (\<lambda>tx. length (SerializeTransaction False tx) = 64) (vtx block), block)
          else do { (r, block) \<leftarrow> CheckWitnessMalleation ways junk H check_witness_root block;
                    Some (case r of Inl _ \<Rightarrow> True | Inr _ \<Rightarrow> False, block) })"

subsection \<open>ContextualCheckBlock\<close>

definition GetBlockWeight :: "CBlock \<Rightarrow> nat" where
  "GetBlockWeight block =
     length (Serialize_CBlock False block) * (WITNESS_SCALE_FACTOR - 1) + length (Serialize_CBlock True block)"

text \<open>The coinbase has to start with the height; reading it in a block without transactions is undefined.\<close>

definition coinbase_height_ok :: "CBlock \<Rightarrow> int \<Rightarrow> bool option" where
  "coinbase_height_ok block height =
     (case vtx block of [] \<Rightarrow> None
      | tx # _ \<Rightarrow>
        case vin tx of [] \<Rightarrow> None
        | txin # _ \<Rightarrow> let expect = push_int64 [] height in
            Some (\<not> (length (scriptSig txin) < length expect \<or> take (length expect) (scriptSig txin) \<noteq> expect)))"

definition lock_time_cutoff :: "Params \<Rightarrow> BlockMap \<Rightarrow> uint256 option \<Rightarrow> CBlockIndex option \<Rightarrow> CBlock \<Rightarrow> int option" where
  "lock_time_cutoff params M pindexPrev prev block =
     (if DeploymentActiveAfter params prev DEPLOYMENT_CSV
      then do { p \<leftarrow> pindexPrev; GetMedianTimePast M p } else Some (uint (h_nTime block)))"

definition contextual_witness ::
    "d64_ways \<Rightarrow> bytes \<Rightarrow> (bytes \<Rightarrow> uint256) \<Rightarrow> bool \<Rightarrow> CBlock \<Rightarrow> ((rejection + unit) \<times> CBlock) option" where
  "contextual_witness ways junk H expect_witness_commitment block =
     do { (r, block) \<leftarrow> CheckWitnessMalleation ways junk H expect_witness_commitment block;
          case r of Inl e \<Rightarrow> Some (Inl e, block)
          | Inr _ \<Rightarrow>
              if GetBlockWeight block > MAX_BLOCK_WEIGHT then Some (Inl (BLOCK_CONSENSUS, ''bad-blk-weight''), block)
              else Some (Inr (), block) }"

definition ContextualCheckBlock ::
    "d64_ways \<Rightarrow> bytes \<Rightarrow> (bytes \<Rightarrow> uint256) \<Rightarrow> Params \<Rightarrow> BlockMap \<Rightarrow> uint256 option \<Rightarrow> CBlock \<Rightarrow>
      ((rejection + unit) \<times> CBlock) option" where
  "ContextualCheckBlock ways junk H params M pindexPrev block =
     do { prev \<leftarrow> (case pindexPrev of None \<Rightarrow> Some None | Some p \<Rightarrow> do { b \<leftarrow> M p; Some (Some b) });
          let height = (case prev of None \<Rightarrow> 0 | Some b \<Rightarrow> int (nHeight b) + 1);
          nLockTimeCutoff \<leftarrow> lock_time_cutoff params M pindexPrev prev block;
          if \<not> list_all (\<lambda>tx. IsFinalTx tx height nLockTimeCutoff) (vtx block)
          then Some (Inl (BLOCK_CONSENSUS, ''bad-txns-nonfinal''), block)
          else do {
            height_ok \<leftarrow> (if DeploymentActiveAfter params prev DEPLOYMENT_HEIGHTINCB then coinbase_height_ok block height
                          else Some True);
            if \<not> height_ok then Some (Inl (BLOCK_CONSENSUS, ''bad-cb-height''), block)
            else contextual_witness ways junk H (DeploymentActiveAfter params prev DEPLOYMENT_SEGWIT) block } }"

section \<open>Which blocks pass\<close>

definition sigops :: "CTransaction \<Rightarrow> nat" where
  "sigops tx = unat (the (GetLegacySigOpCount tx))"

definition block_valid :: "CBlock \<Rightarrow> bool" where
  "block_valid b \<longleftrightarrow> vtx b \<noteq> [] \<and> 4 * length (vtx b) \<le> 4000000 \<and> 4 * length (Serialize_CBlock False b) \<le> 4000000 \<and>
     IsCoinBase (hd (vtx b)) \<and> (\<forall>tx \<in> set (tl (vtx b)). \<not> IsCoinBase tx) \<and> (\<forall>tx \<in> set (vtx b). tx_valid tx) \<and>
     4 * sum_list (map sigops (vtx b)) \<le> 80000"

lemma check_txs_eq: "\<exists>r. check_txs txs = Some r \<and> (r = Inr () \<longleftrightarrow> (\<forall>tx \<in> set txs. tx_valid tx))"
proof (induction txs)
  case (Cons tx txs)
  show ?case
  proof (cases "CheckTransaction tx")
    case (Inl e)
    then show ?thesis using CheckTransaction_consensus[OF Inl] CheckTransaction_iff[of tx] by (cases e) auto
  next
    case (Inr u)
    then show ?thesis using Cons CheckTransaction_iff[of tx] by auto
  qed
qed simp

lemma block_sigops_eq:
  "unat n + 20 * sum_list (map (\<lambda>tx. length (SerializeTransaction False tx)) txs) < 2 ^ 27 \<Longrightarrow>
    \<exists>k. block_sigops n txs = Some k \<and> unat k = unat n + sum_list (map sigops txs) \<and>
      sum_list (map sigops txs) \<le> 20 * sum_list (map (\<lambda>tx. length (SerializeTransaction False tx)) txs)"
proof (induction txs arbitrary: n)
  case (Cons tx txs)
  then have "length (SerializeTransaction False tx) < 2 ^ 27" by simp
  from GetLegacySigOpCount_bound[OF this] obtain k where
    k: "GetLegacySigOpCount tx = Some k" "unat k \<le> 20 * length (SerializeTransaction False tx)" .
  then have u: "unat (n + k) = unat n + unat k" using Cons.prems by (simp add: unat_word_ariths)
  then show ?case using Cons.IH[of "n + k"] Cons.prems k by (auto simp: sigops_def)
qed simp

lemma tx_sizes: "sum_list (map (\<lambda>tx. length (SerializeTransaction False tx)) (vtx b)) \<le> length (Serialize_CBlock False b)"
proof -
  have "sum_list (map (\<lambda>tx. length (SerializeTransaction False tx)) (vtx b)) \<le>
      length (Serialize_vector (SerializeTransaction False) (vtx b))"
    by (rule length_Serialize_vector_ge) simp
  then show ?thesis by (simp add: Serialize_CBlock_def)
qed

lemma check_body_iff: "\<exists>r. check_body b = Some r \<and> (r = Inr () \<longleftrightarrow> block_valid b)"
proof -
  let ?size = "length (Serialize_CBlock False b)"
  obtain r where r: "check_txs (vtx b) = Some r" "r = Inr () \<longleftrightarrow> (\<forall>tx \<in> set (vtx b). tx_valid tx)"
    using check_txs_eq by blast
  show ?thesis
  proof (cases "vtx b = [] \<or> 4000000 < length (vtx b) * 4 \<or> 4000000 < ?size * 4")
    case True
    then show ?thesis by (auto simp: check_body_def block_valid_def WITNESS_SCALE_FACTOR_def MAX_BLOCK_WEIGHT_def)
  next
    case False
    then have "20 * sum_list (map (\<lambda>tx. length (SerializeTransaction False tx)) (vtx b)) \<le> 20000000"
      using tx_sizes[of b] by simp
    with block_sigops_eq[of 0 "vtx b"] obtain k where
      k: "block_sigops 0 (vtx b) = Some k" "unat k = sum_list (map sigops (vtx b))" "unat k \<le> 20000000" by auto
    have "unat (k * 4) = unat k * 4" using k(3) by (simp add: unat_word_ariths)
    then have "uint (k * 4) = int (unat k * 4)" by (simp only: uint_nat)
    then have "uint (k * of_nat WITNESS_SCALE_FACTOR) > MAX_BLOCK_SIGOPS_COST \<longleftrightarrow> \<not> 4 * sum_list (map sigops (vtx b)) \<le> 80000"
      using k(2) by (auto simp: WITNESS_SCALE_FACTOR_def MAX_BLOCK_SIGOPS_COST_def)
    with False r k(1) show ?thesis
      by (cases r) (auto simp: check_body_def block_valid_def WITNESS_SCALE_FACTOR_def MAX_BLOCK_WEIGHT_def list_ex_iff
        hd_conv_nth drop_Suc)
  qed
qed

section \<open>The flags only remember\<close>

text \<open>A block as it comes from deserialization.\<close>

definition fresh :: "CBlock \<Rightarrow> CBlock" where
  "fresh b = b\<lparr>fChecked := False, m_checked_witness_commitment := False, m_checked_merkle_root := False\<rparr>"

named_theorems content

lemma fresh_fields [simp, content]: "vtx (fresh b) = vtx b" "h_hashMerkleRoot (fresh b) = h_hashMerkleRoot b"
  "h_nTime (fresh b) = h_nTime b" "header_of (fresh b) = header_of b"
  by (simp_all add: fresh_def header_of_def CBlockHeader.truncate_def)

lemma fresh_flags [simp]: "\<not> fChecked (fresh b)" "\<not> m_checked_witness_commitment (fresh b)" "\<not> m_checked_merkle_root (fresh b)"
  by (simp_all add: fresh_def)

lemma fresh_update [simp]: "fresh (b\<lparr>fChecked := x\<rparr>) = fresh b" "fresh (b\<lparr>m_checked_witness_commitment := x\<rparr>) = fresh b"
  "fresh (b\<lparr>m_checked_merkle_root := x\<rparr>) = fresh b" "fresh (fresh b) = fresh b"
  by (simp_all add: fresh_def)

text \<open>What the checks read apart from the flags.\<close>

lemma content_fresh [content]:
  "Serialize_CBlock w (fresh b) = Serialize_CBlock w b"
  "BlockMerkleRoot ways check H (fresh b) = BlockMerkleRoot ways check H b"
  "BlockWitnessMerkleRoot ways H (fresh b) = BlockWitnessMerkleRoot ways H b"
  "GetWitnessCommitmentIndex (fresh b) = GetWitnessCommitmentIndex b"
  "unexpected_witness (fresh b) = unexpected_witness b"
  "coinbase_height_ok (fresh b) height = coinbase_height_ok b height"
  "lock_time_cutoff params M p prev (fresh b) = lock_time_cutoff params M p prev b"
  by (simp_all add: Serialize_CBlock_def BlockMerkleRoot_def BlockWitnessMerkleRoot_def GetWitnessCommitmentIndex_def
    unexpected_witness_def coinbase_height_ok_def lock_time_cutoff_def)

lemma checks_fresh [content]:
  "witness_commitment_check ways junk H (fresh b) c = witness_commitment_check ways junk H b c"
  "check_body (fresh b) = check_body b" "GetBlockWeight (fresh b) = GetBlockWeight b" "block_valid (fresh b) = block_valid b"
  unfolding witness_commitment_check_def check_body_def GetBlockWeight_def block_valid_def content by (rule refl)+

definition flags_ok ::
    "d64_ways \<Rightarrow> bytes \<Rightarrow> (bytes \<Rightarrow> uint256) \<Rightarrow> (CBlockHeader \<Rightarrow> CTransaction list \<Rightarrow> bool) \<Rightarrow> Params \<Rightarrow> CBlock \<Rightarrow> bool" where
  "flags_ok ways junk H signet params b \<longleftrightarrow>
     (m_checked_merkle_root b \<longrightarrow> fst (CheckMerkleRoot ways H (fresh b)) = Inr ()) \<and>
     (m_checked_witness_commitment b \<longrightarrow> map_option fst (CheckWitnessMalleation ways junk H True (fresh b)) = Some (Inr ())) \<and>
     (fChecked b \<longrightarrow> map_option fst (CheckBlock ways H signet params True True (fresh b)) = Some (Inr ()))"

lemma flags_ok_fresh: "flags_ok ways junk H signet params (fresh b)"
  by (simp add: flags_ok_def)

lemma flags_ok_update:
  "flags_ok ways junk H signet params b \<Longrightarrow> fst (CheckMerkleRoot ways H (fresh b)) = Inr () \<Longrightarrow>
    flags_ok ways junk H signet params (b\<lparr>m_checked_merkle_root := True\<rparr>)"
  "flags_ok ways junk H signet params b \<Longrightarrow> map_option fst (CheckWitnessMalleation ways junk H True (fresh b)) = Some (Inr ()) \<Longrightarrow>
    flags_ok ways junk H signet params (b\<lparr>m_checked_witness_commitment := True\<rparr>)"
  "flags_ok ways junk H signet params b \<Longrightarrow> map_option fst (CheckBlock ways H signet params True True (fresh b)) = Some (Inr ()) \<Longrightarrow>
    flags_ok ways junk H signet params (b\<lparr>fChecked := True\<rparr>)"
  by (simp_all add: flags_ok_def)

text \<open>A check gives the answer it would give on the fresh block, and keeps the flags honest.\<close>

lemma CheckMerkleRoot_cached:
  assumes "flags_ok ways junk H signet params b" "CheckMerkleRoot ways H b = (r, b')"
  shows "r = fst (CheckMerkleRoot ways H (fresh b)) \<and> flags_ok ways junk H signet params b' \<and> fresh b' = fresh b"
proof (cases "m_checked_merkle_root b")
  case True
  then show ?thesis using assms by (simp add: CheckMerkleRoot_def[of _ _ b] flags_ok_def)
next
  case False
  then have r: "r = fst (CheckMerkleRoot ways H (fresh b))" "b' = (if r = Inr () then b\<lparr>m_checked_merkle_root := True\<rparr> else b)"
    using assms(2) by (auto simp: CheckMerkleRoot_def content split: prod.splits if_splits)
  then show ?thesis using assms(1) flags_ok_update(1)[OF assms(1)] by simp
qed

lemma CheckWitnessMalleation_cached:
  assumes "flags_ok ways junk H signet params b"
  shows "map_option fst (CheckWitnessMalleation ways junk H w b) = map_option fst (CheckWitnessMalleation ways junk H w (fresh b))"
    and "CheckWitnessMalleation ways junk H w b = Some (r, b') \<Longrightarrow> flags_ok ways junk H signet params b' \<and> fresh b' = fresh b"
proof -
  show 1: "map_option fst (CheckWitnessMalleation ways junk H w b) = map_option fst (CheckWitnessMalleation ways junk H w (fresh b))"
  proof (cases "w \<and> m_checked_witness_commitment b")
    case True
    then show ?thesis using assms by (auto simp: CheckWitnessMalleation_def[of _ _ _ _ b] flags_ok_def)
  next
    case False
    then show ?thesis by (auto simp: CheckWitnessMalleation_def content Let_def option.map_comp split: option.splits Option.bind_splits)
  qed
  show "flags_ok ways junk H signet params b' \<and> fresh b' = fresh b" if e: "CheckWitnessMalleation ways junk H w b = Some (r, b')"
  proof -
    from e have b': "b' = b \<or> (b' = b\<lparr>m_checked_witness_commitment := True\<rparr> \<and> r = Inr () \<and> w)"
      by (auto simp: CheckWitnessMalleation_def Let_def Option.bind_eq_Some_conv split: if_splits sum.splits)
    then show ?thesis using assms flags_ok_update(2)[OF assms] 1[symmetric] e by auto
  qed
qed

lemma CheckBlock_weaker:
  assumes "map_option fst (CheckBlock ways H signet params True True (fresh b)) = Some (Inr ())"
  shows "map_option fst (CheckBlock ways H signet params x y (fresh b)) = Some (Inr ())"
proof -
  obtain r' c where m: "CheckMerkleRoot ways H (fresh b) = (r', c)" by fastforce
  then have c: "fresh c = fresh b" using CheckMerkleRoot_cached[OF flags_ok_fresh, of ways H b r' c "[]" "\<lambda>_ _. True" params] by simp
  then have "check_body c = check_body b" using checks_fresh(2)[of b] checks_fresh(2)[of c] by simp
  with assms m show ?thesis
    by (cases r') (auto simp: CheckBlock_def content Option.bind_eq_Some_conv split: if_splits sum.splits)
qed

lemma CheckBlock_cached:
  assumes "flags_ok ways junk H signet params b"
  shows "map_option fst (CheckBlock ways H signet params x y b) = map_option fst (CheckBlock ways H signet params x y (fresh b))"
    and "CheckBlock ways H signet params x y b = Some (r, b') \<Longrightarrow> flags_ok ways junk H signet params b' \<and> fresh b' = fresh b"
proof -
  obtain rm c where m: "(if y then CheckMerkleRoot ways H b else (Inr (), b)) = (rm, c)" by fastforce
  obtain rf d where f: "(if y then CheckMerkleRoot ways H (fresh b) else (Inr (), fresh b)) = (rf, d)" by fastforce
  have c: "rm = rf" "flags_ok ways junk H signet params c" "fresh c = fresh b"
    using m f assms CheckMerkleRoot_cached[OF assms, of rm c] by (auto split: if_splits)
  have d: "fresh d = fresh b" using f CheckMerkleRoot_cached[OF flags_ok_fresh, of ways H b rf d junk signet params] by (auto split: if_splits)
  have body: "check_body c = check_body d" using c(3) d checks_fresh(2)[of c] checks_fresh(2)[of d] by simp
  show 1: "map_option fst (CheckBlock ways H signet params x y b) = map_option fst (CheckBlock ways H signet params x y (fresh b))"
  proof (cases "fChecked b")
    case True
    then have "map_option fst (CheckBlock ways H signet params x y (fresh b)) = Some (Inr ())"
      using assms CheckBlock_weaker unfolding flags_ok_def by blast
    with True show ?thesis by (auto simp: CheckBlock_def[of _ _ _ _ _ _ b])
  next
    case False
    then show ?thesis unfolding CheckBlock_def content m f
      by (cases rf) (auto simp: c(1) body split: Option.bind_splits sum.splits)
  qed
  show "flags_ok ways junk H signet params b' \<and> fresh b' = fresh b" if e: "CheckBlock ways H signet params x y b = Some (r, b')"
  proof -
    from e have b': "b' = b \<or> b' = c \<or> (b' = c\<lparr>fChecked := True\<rparr> \<and> r = Inr () \<and> x \<and> y)"
      using check_body_iff[of c] unfolding CheckBlock_def m by (cases rm; cases "the (check_body c)") (auto split: if_splits)
    then show ?thesis using assms c 1[symmetric] e flags_ok_update(3)[OF c(2)] by auto
  qed
qed

lemma IsBlockMutated_cached:
  assumes "flags_ok ways junk H signet params b"
  shows "map_option fst (IsBlockMutated ways junk H w b) = map_option fst (IsBlockMutated ways junk H w (fresh b))"
    and "IsBlockMutated ways junk H w b = Some (r, b') \<Longrightarrow> flags_ok ways junk H signet params b' \<and> fresh b' = fresh b"
proof -
  obtain rm c where m: "CheckMerkleRoot ways H b = (rm, c)" by fastforce
  obtain rf d where f: "CheckMerkleRoot ways H (fresh b) = (rf, d)" by fastforce
  have c: "rm = rf" "flags_ok ways junk H signet params c" "fresh c = fresh b" using f CheckMerkleRoot_cached[OF assms m] by simp_all
  have d: "flags_ok ways junk H signet params d" "fresh d = fresh b" using CheckMerkleRoot_cached[OF flags_ok_fresh f] by simp_all
  have v: "vtx c = vtx d" using c(3) d(2) fresh_fields(1)[of c] fresh_fields(1)[of d] by simp
  have w: "map_option fst (CheckWitnessMalleation ways junk H w c) = map_option fst (CheckWitnessMalleation ways junk H w d)"
    using CheckWitnessMalleation_cached(1)[OF c(2)] CheckWitnessMalleation_cached(1)[OF d(1)] c(3) d(2) by simp
  then show "map_option fst (IsBlockMutated ways junk H w b) = map_option fst (IsBlockMutated ways junk H w (fresh b))"
    unfolding IsBlockMutated_def m f by (cases rf) (auto simp: c(1) v split: Option.bind_splits)
  show "flags_ok ways junk H signet params b' \<and> fresh b' = fresh b" if "IsBlockMutated ways junk H w b = Some (r, b')"
    using that c CheckWitnessMalleation_cached(2)[OF c(2)] unfolding IsBlockMutated_def m
    by (cases rm) (auto simp: Option.bind_eq_Some_conv split: if_splits)
qed

lemma contextual_witness_cached:
  assumes "flags_ok ways junk H signet params b"
  shows "map_option fst (contextual_witness ways junk H w b) = map_option fst (contextual_witness ways junk H w (fresh b))"
    and "contextual_witness ways junk H w b = Some (r, b') \<Longrightarrow> flags_ok ways junk H signet params b' \<and> fresh b' = fresh b"
proof -
  note v = CheckWitnessMalleation_cached(1)[OF assms, of w]
  show "map_option fst (contextual_witness ways junk H w b) = map_option fst (contextual_witness ways junk H w (fresh b))"
  proof (cases "CheckWitnessMalleation ways junk H w b")
    case None
    then show ?thesis using v by (simp add: contextual_witness_def)
  next
    case (Some z)
    then obtain rc c d where e: "CheckWitnessMalleation ways junk H w b = Some (rc, c)" "CheckWitnessMalleation ways junk H w (fresh b) = Some (rc, d)"
      using v[symmetric] by (cases z) auto
    have "GetBlockWeight c = GetBlockWeight d"
      using CheckWitnessMalleation_cached(2)[OF assms e(1)] CheckWitnessMalleation_cached(2)[OF flags_ok_fresh e(2), of signet params]
        checks_fresh(3)[of c] checks_fresh(3)[of d] by simp
    with e show ?thesis by (cases rc) (simp_all add: contextual_witness_def)
  qed
  show "flags_ok ways junk H signet params b' \<and> fresh b' = fresh b" if "contextual_witness ways junk H w b = Some (r, b')"
  proof -
    from that obtain rc where "CheckWitnessMalleation ways junk H w b = Some (rc, b')"
      by (cases "CheckWitnessMalleation ways junk H w b"; cases "fst (the (CheckWitnessMalleation ways junk H w b))")
        (auto simp: contextual_witness_def split: if_splits)
    from CheckWitnessMalleation_cached(2)[OF assms this] show ?thesis .
  qed
qed

lemma ContextualCheckBlock_cached:
  assumes "flags_ok ways junk H signet params b"
  shows "map_option fst (ContextualCheckBlock ways junk H params M p b) = map_option fst (ContextualCheckBlock ways junk H params M p (fresh b))"
    and "ContextualCheckBlock ways junk H params M p b = Some (r, b') \<Longrightarrow> flags_ok ways junk H signet params b' \<and> fresh b' = fresh b"
proof -
  show "map_option fst (ContextualCheckBlock ways junk H params M p b) = map_option fst (ContextualCheckBlock ways junk H params M p (fresh b))"
    using contextual_witness_cached(1)[OF assms] unfolding ContextualCheckBlock_def content Let_def
    by (auto split: Option.bind_splits)
  show "flags_ok ways junk H signet params b' \<and> fresh b' = fresh b" if "ContextualCheckBlock ways junk H params M p b = Some (r, b')"
    using that assms contextual_witness_cached(2)[OF assms] unfolding ContextualCheckBlock_def
    by (auto simp: Option.bind_eq_Some_conv Let_def split: if_splits)
qed

subsection \<open>Sequences of checks\<close>

text \<open>A node calls the checks one after the other on the same block, in varying order.\<close>

datatype block_check = Check_Block bool bool | Is_Mutated bool | Contextual "uint256 option"

datatype answer = Verdict "rejection + unit" | Mutated bool

fun run_check :: "d64_ways \<Rightarrow> bytes \<Rightarrow> (bytes \<Rightarrow> uint256) \<Rightarrow> (CBlockHeader \<Rightarrow> CTransaction list \<Rightarrow> bool) \<Rightarrow> Params \<Rightarrow> BlockMap \<Rightarrow>
    block_check \<Rightarrow> CBlock \<Rightarrow> (answer \<times> CBlock) option" where
  "run_check ways junk H signet params M (Check_Block x y) b = map_option (apfst Verdict) (CheckBlock ways H signet params x y b)"
| "run_check ways junk H signet params M (Is_Mutated w) b = map_option (apfst Mutated) (IsBlockMutated ways junk H w b)"
| "run_check ways junk H signet params M (Contextual p) b = map_option (apfst Verdict) (ContextualCheckBlock ways junk H params M p b)"

fun run_checks :: "d64_ways \<Rightarrow> bytes \<Rightarrow> (bytes \<Rightarrow> uint256) \<Rightarrow> (CBlockHeader \<Rightarrow> CTransaction list \<Rightarrow> bool) \<Rightarrow> Params \<Rightarrow> BlockMap \<Rightarrow>
    block_check list \<Rightarrow> CBlock \<Rightarrow> answer list option" where
  "run_checks ways junk H signet params M [] b = Some []"
| "run_checks ways junk H signet params M (c # cs) b =
     do { (a, b) \<leftarrow> run_check ways junk H signet params M c b; as \<leftarrow> run_checks ways junk H signet params M cs b; Some (a # as) }"

lemma run_check_cached:
  assumes "flags_ok ways junk H signet params b"
  shows "map_option fst (run_check ways junk H signet params M c b) = map_option fst (run_check ways junk H signet params M c (fresh b))"
    and "run_check ways junk H signet params M c b = Some (a, b') \<Longrightarrow> flags_ok ways junk H signet params b' \<and> fresh b' = fresh b"
proof -
  have *: "map_option fst (map_option (apfst f) m) = map_option f (map_option fst m)" for f :: "'x \<Rightarrow> 'y" and m :: "('x \<times> 'z) option"
    by (cases m) auto
  show "map_option fst (run_check ways junk H signet params M c b) = map_option fst (run_check ways junk H signet params M c (fresh b))"
    using CheckBlock_cached(1)[OF assms] IsBlockMutated_cached(1)[OF assms] ContextualCheckBlock_cached(1)[OF assms]
    by (cases c) (simp_all only: run_check.simps *)
  show "flags_ok ways junk H signet params b' \<and> fresh b' = fresh b" if "run_check ways junk H signet params M c b = Some (a, b')"
    using that CheckBlock_cached(2)[OF assms] IsBlockMutated_cached(2)[OF assms] ContextualCheckBlock_cached(2)[OF assms]
    by (cases c) auto
qed

lemma run_checks_cached:
  "flags_ok ways junk H signet params b \<Longrightarrow> run_checks ways junk H signet params M cs b =
    those (map (\<lambda>c. map_option fst (run_check ways junk H signet params M c (fresh b))) cs)"
proof (induction cs arbitrary: b)
  case (Cons c cs)
  show ?case
  proof (cases "run_check ways junk H signet params M c b")
    case None
    then show ?thesis using run_check_cached(1)[OF Cons.prems, of M c] by simp
  next
    case (Some z)
    then obtain a b' where z: "run_check ways junk H signet params M c b = Some (a, b')" by (cases z) auto
    with run_check_cached(1)[OF Cons.prems, of M c] have "map_option fst (run_check ways junk H signet params M c (fresh b)) = Some a"
      by simp
    with z run_check_cached(2)[OF Cons.prems z] Cons.IH[of b'] show ?thesis by (simp add: map_conv_bind_option comp_def)
  qed
qed simp

section \<open>The Merkle root binds the transactions\<close>

definition txids :: "(bytes \<Rightarrow> uint256) \<Rightarrow> CBlock \<Rightarrow> uint256 list" where
  "txids H b = map (ComputeHash H) (vtx b)"

definition merkle_valid :: "(bytes \<Rightarrow> uint256) \<Rightarrow> CBlock \<Rightarrow> bool" where
  "merkle_valid H b \<longleftrightarrow>
     h_hashMerkleRoot b = (if vtx b = [] then uint256_0 else merkle_root merkle_hash (txids H b)) \<and>
     \<not> merkle_mutated merkle_hash (txids H b)"

lemma hashes_ok_txids: "(\<And>s. length (H s) = 32) \<Longrightarrow> hashes_ok (txids H b)"
  by (auto simp: hashes_ok_def txids_def ComputeHash_def)

lemma CheckMerkleRoot_fresh:
  assumes "ways_ok ways" "\<And>s. length (H s) = 32"
  shows "fst (CheckMerkleRoot ways H (fresh b)) = Inr () \<longleftrightarrow> merkle_valid H b"
proof -
  have "BlockMerkleRoot ways True H b =
      (if vtx b = [] then uint256_0 else merkle_root merkle_hash (txids H b), merkle_mutated merkle_hash (txids H b))"
    using ComputeMerkleRoot_eq[OF assms(1), of "txids H b" True] hashes_ok_txids[of H b] assms(2) by (simp add: BlockMerkleRoot_def txids_def)
  then show ?thesis by (simp add: CheckMerkleRoot_def content merkle_valid_def)
qed

lemma CheckBlock_fresh:
  assumes "ways_ok ways" "\<And>s. length (H s) = 32"
  shows "\<exists>r. map_option fst (CheckBlock ways H signet params x y (fresh b)) = Some r \<and>
    (r = Inr () \<longleftrightarrow> (signet_blocks params \<and> x \<longrightarrow> signet (header_of b) (vtx b)) \<and> (y \<longrightarrow> merkle_valid H b) \<and> block_valid b)"
proof -
  obtain rf d where f: "(if y then CheckMerkleRoot ways H (fresh b) else (Inr (), fresh b)) = (rf, d)" by fastforce
  have r: "rf = Inr () \<longleftrightarrow> (y \<longrightarrow> merkle_valid H b)" using f CheckMerkleRoot_fresh[of ways H b] assms by (auto split: if_splits)
  have "fresh d = fresh b" using f CheckMerkleRoot_cached[OF flags_ok_fresh, of ways H b rf d "[]" signet params] by (auto split: if_splits)
  then have "check_body d = check_body b" using checks_fresh(2)[of b] checks_fresh(2)[of d] by simp
  with check_body_iff[of b] obtain rb where rb: "check_body d = Some rb" "rb = Inr () \<longleftrightarrow> block_valid b" by auto
  show ?thesis using r rb unfolding CheckBlock_def content f
    by (cases rf; cases rb) (auto simp: CheckBlockHeader_def)
qed

lemma accepted_blocks_bound:
  assumes "ways_ok ways" "\<And>s. length (H s) = 32"
    and "map_option fst (CheckBlock ways H signet params x True (fresh b)) = Some (Inr ())"
    and "map_option fst (CheckBlock ways H signet params x True (fresh c)) = Some (Inr ())"
    and "h_hashMerkleRoot b = h_hashMerkleRoot c" "merkle_height (length (vtx b)) = merkle_height (length (vtx c))"
  shows "txids H b = txids H c \<or> clash (merkle_messages (txids H b)) (merkle_messages (txids H c))"
proof -
  have v: "merkle_valid H b" "block_valid b" "merkle_valid H c" "block_valid c"
    using CheckBlock_fresh[of ways H signet params x True b] CheckBlock_fresh[of ways H signet params x True c] assms(1-4) by auto
  then show ?thesis
    using merkle_root_inject[of "txids H b" "txids H c"] assms(2,5,6) hashes_ok_txids[of H b] hashes_ok_txids[of H c]
    by (auto simp: merkle_valid_def block_valid_def txids_def)
qed

section \<open>A coinbase fits one height\<close>

definition script_number :: "u8 \<Rightarrow> bytes \<Rightarrow> int option" where
  "script_number opcode data =
     (if opcode \<le> OP_PUSHDATA4 then set_vch data else Some (uint opcode - 0x50))"

lemma length_abs_bytes: "unat w < 256 ^ k \<Longrightarrow> length (abs_bytes w) \<le> k"
proof (induction k arbitrary: w)
  case 0
  then show ?case by (simp add: unat_eq_zero)
next
  case (Suc k)
  then have "unat (drop_bit 8 w) < 256 ^ k" by (simp only: abs_bytes_step) (simp add: less_mult_imp_div_less)
  from Suc.IH[OF this] show ?case by (cases "w = 0") (simp_all add: abs_bytes.simps[of w])
qed

lemma length_ScriptNum_height: "0 \<le> n \<Longrightarrow> n < 2 ^ 31 \<Longrightarrow> length (ScriptNum_serialize n) \<le> 5"
proof -
  assume n: "0 \<le> n" "n < 2 ^ 31"
  have "unat (word_of_int n :: u64) = nat n" using unat_absvalue[of n] n by simp
  then have "length (abs_bytes (word_of_int n)) \<le> 4" using n by (intro length_abs_bytes) simp
  then show ?thesis using n by (simp add: ScriptNum_serialize_def Let_def)
qed

lemma read_height:
  assumes "0 \<le> n" "n < 2 ^ 31" "length rest < 2 ^ 31"
  obtains opcode data where "GetScriptOp (push_int64 [] n @ rest) = Some (opcode, data, rest)" "script_number opcode data = Some n"
proof (cases "1 \<le> n \<and> n \<le> 16")
  case True
  define op where "op = (word_of_int (n + (uint OP_1 - 1)) :: u8)"
  have w: "uint (word_of_int m :: u8) = m" if "0 \<le> m" "m < 256" for m
    using that by (simp add: unsigned_of_int take_bit_int_eq_self)
  have u: "uint op = n + 0x50" using True w[of "n + (uint OP_1 - 1)"] by (simp add: op_def OP_1_def)
  then have "\<not> op \<le> OP_PUSHDATA4" using True by (simp add: word_le_def OP_PUSHDATA4_def)
  moreover have "push_int64 [] n = [op]" using True unfolding push_int64_def op_def by simp
  ultimately show ?thesis using u that[of op "[]"] by (simp add: GetScriptOp_def script_number_def)
next
  case False
  have l: "length (ScriptNum_serialize n) \<le> 5" using length_ScriptNum_height assms by blast
  have "push_int64 [] n = push_data [] (ScriptNum_serialize n)"
    using False assms(1) by (auto simp: push_int64_def ScriptNum_serialize_def push_data_def AppendDataSize_def opcode_defs)
  moreover have "length (ScriptNum_serialize n) + length rest < 2 ^ 32" using l assms(3) by simp
  moreover have "push_opcode (length (ScriptNum_serialize n)) \<le> OP_PUSHDATA4" using l unat_small[where ?'a = 8, of "length (ScriptNum_serialize n)"]
    by (simp add: push_opcode_def opcode_defs word_le_nat_alt)
  moreover have "set_vch (ScriptNum_serialize n) = Some n" using set_vch_serialize(2)[of n] l assms by simp
  ultimately show ?thesis using that GetScriptOp_push[of "ScriptNum_serialize n" rest] by (simp add: script_number_def)
qed

lemma coinbase_height_unique:
  assumes "coinbase_height_ok b m = Some True" "coinbase_height_ok c n = Some True"
    and "scriptSig (hd (vin (hd (vtx b)))) = scriptSig (hd (vin (hd (vtx c))))" "length (scriptSig (hd (vin (hd (vtx b))))) < 2 ^ 31"
    and "0 \<le> m" "m < 2 ^ 31" "0 \<le> n" "n < 2 ^ 31"
  shows "m = n"
proof -
  let ?s = "scriptSig (hd (vin (hd (vtx b))))"
  obtain r where r: "?s = push_int64 [] m @ r"
    using assms(1) by (auto simp: coinbase_height_ok_def Let_def split: list.splits) (metis append_take_drop_id)
  obtain r' where r': "?s = push_int64 [] n @ r'"
    using assms(2,3) by (auto simp: coinbase_height_ok_def Let_def split: list.splits) (metis append_take_drop_id)
  have "length r < 2 ^ 31" "length r' < 2 ^ 31" using assms(4) arg_cong[OF r, of length] arg_cong[OF r', of length] by simp_all
  from read_height[OF assms(5,6) this(1)] read_height[OF assms(7,8) this(2)] r r' show ?thesis
    by (metis option.inject prod.inject)
qed

lemma ContextualCheckBlock_height:
  assumes "ContextualCheckBlock ways junk H params M p b = Some (Inr (), b')"
    and "prev = (case p of None \<Rightarrow> None | Some k \<Rightarrow> M k)" "DeploymentActiveAfter params prev DEPLOYMENT_HEIGHTINCB"
  shows "coinbase_height_ok b (case prev of None \<Rightarrow> 0 | Some i \<Rightarrow> int (nHeight i) + 1) = Some True"
  using assms by (auto simp: ContextualCheckBlock_def Let_def Option.bind_eq_Some_conv split: if_splits option.splits)

end
