(* ===== verification/Genesis.thy ===== *)
theory Genesis
  imports Block_Checks Chain_Params
begin

text \<open>
  The genesis blocks (\<open>kernel/chainparams.cpp\<close>): \<open>CreateGenesisBlock\<close> and the blocks the five networks
  build with it.  The constructors of the main network and of testnet4 assert the hash and the Merkle
  root; the lemmas evaluate both blocks byte by byte through the models of the script builder, the
  serialization, the hasher and the Merkle tree, and show that no assertion fails.
\<close>

section \<open>Model\<close>

definition genesis_tx :: "string \<Rightarrow> CScript \<Rightarrow> CAmount \<Rightarrow> CTransaction" where
  "genesis_tx pszTimestamp genesisOutputScript genesisReward =
     \<lparr>vin = [\<lparr>prevout = COutPoint_null,
              scriptSig = push_data (push_num (push_int64 [] 486604799) 4) (map of_char pszTimestamp),
              nSequence = SEQUENCE_FINAL, scriptWitness = []\<rparr>],
      vout = [\<lparr>nValue = genesisReward, scriptPubKey = genesisOutputScript\<rparr>],
      tx_version = 1, nLockTime = 0\<rparr>"

definition CreateGenesisBlock :: "d64_ways \<Rightarrow> bytes \<Rightarrow> string \<Rightarrow> CScript \<Rightarrow> u32 \<Rightarrow> u32 \<Rightarrow> u32 \<Rightarrow> int \<Rightarrow> CAmount \<Rightarrow> CBlock" where
  "CreateGenesisBlock ways junk pszTimestamp genesisOutputScript nTime0 nNonce0 nBits0 nVersion0 genesisReward =
     (let genesis = \<lparr>h_nVersion = nVersion0, h_hashPrevBlock = uint256_0, h_hashMerkleRoot = uint256_0, h_nTime = nTime0,
                     h_nBits = nBits0, h_nNonce = nNonce0,
                     vtx = [genesis_tx pszTimestamp genesisOutputScript genesisReward], fChecked = False,
                     m_checked_witness_commitment = False, m_checked_merkle_root = False\<rparr>
      in genesis\<lparr>h_hashMerkleRoot := fst (BlockMerkleRoot ways False (SerializeHash junk) genesis)\<rparr>)"

definition genesis_pubkey :: bytes where
  "genesis_pubkey =
    [0x04, 0x67, 0x8a, 0xfd, 0xb0, 0xfe, 0x55, 0x48, 0x27, 0x19, 0x67, 0xf1, 0xa6, 0x71, 0x30, 0xb7, 0x10, 0x5c,
     0xd6, 0xa8, 0x28, 0xe0, 0x39, 0x09, 0xa6, 0x79, 0x62, 0xe0, 0xea, 0x1f, 0x61, 0xde, 0xb6, 0x49, 0xf6,
     0xbc, 0x3f, 0x4c, 0xef, 0x38, 0xc4, 0xf3, 0x55, 0x04, 0xe5, 0x1e, 0xc1, 0x12, 0xde, 0x5c, 0x38, 0x4d,
     0xf7, 0xba, 0x0b, 0x8d, 0x57, 0x8a, 0x4c, 0x70, 0x2b, 0x6b, 0xf1, 0x1d, 0x5f]"

definition CreateGenesisBlock_default :: "d64_ways \<Rightarrow> bytes \<Rightarrow> u32 \<Rightarrow> u32 \<Rightarrow> u32 \<Rightarrow> int \<Rightarrow> CAmount \<Rightarrow> CBlock" where
  "CreateGenesisBlock_default ways junk =
     CreateGenesisBlock ways junk ''BTC3 Fork 2025 - A New Beginning for Bitcoin'' (push_op (push_data [] genesis_pubkey) OP_CHECKSIG)"

definition GenesisHash :: "bytes \<Rightarrow> CBlock \<Rightarrow> uint256" where
  "GenesisHash junk genesis = CBlockHeader_GetHash (SerializeHash junk) (header_of genesis)"

text \<open>The constructors, as far as they build the block and the consensus parameters; a failing assertion is \<open>None\<close>.\<close>

definition CMainParams :: "d64_ways \<Rightarrow> bytes \<Rightarrow> (Params \<times> CBlock) option" where
  "CMainParams ways junk =
     (let genesis = CreateGenesisBlock_default ways junk 1766971600 805306957 0x1f00ffff 1 (50 * COIN);
          hashGenesis = GenesisHash junk genesis
      in if hashGenesis = uint256_of 0x0d2c382326321b1004eb676d1a8ff1a93e92bb0da7be6043a058a6edb361b89e \<and>
            h_hashMerkleRoot genesis = uint256_of 0xd086f74285d50bb21873d47b675d88a5886c1535f7650b1803bb5ad3b0abbe67
         then Some (main_consensus hashGenesis, genesis) else None)"

definition CTestNet4Params :: "d64_ways \<Rightarrow> bytes \<Rightarrow> (Params \<times> CBlock) option" where
  "CTestNet4Params ways junk =
     (let genesis = CreateGenesisBlock ways junk
            ''03/May/2024 000000000000000000001ebd58c244970b3aa9d783bb001011fbe8ea8e98e00e''
            (push_op (push_data [] (replicate 33 0)) OP_CHECKSIG) 1714777860 393743547 0x1d00ffff 1 (50 * COIN);
          hashGenesis = GenesisHash junk genesis
      in if hashGenesis = uint256_of 0x00000000da84f2bafbbc53dee25a72ae507ff4914b867c565be350b0da8bf043 \<and>
            h_hashMerkleRoot genesis = uint256_of 0x7aa0a7ae1e223414cb807e40cd57e667b718e42aaf9306db9102fe28912b7b4e
         then Some (testnet4_consensus hashGenesis, genesis) else None)"

definition CTestNetParams_genesis :: "d64_ways \<Rightarrow> bytes \<Rightarrow> CBlock" where
  "CTestNetParams_genesis ways junk = CreateGenesisBlock_default ways junk 1296688602 414098458 0x1d00ffff 1 (50 * COIN)"

definition SigNetParams_genesis :: "d64_ways \<Rightarrow> bytes \<Rightarrow> CBlock" where
  "SigNetParams_genesis ways junk = CreateGenesisBlock_default ways junk 1598918400 52613770 0x1e0377ae 1 (50 * COIN)"

definition CRegTestParams_genesis :: "d64_ways \<Rightarrow> bytes \<Rightarrow> CBlock" where
  "CRegTestParams_genesis ways junk = CreateGenesisBlock_default ways junk 1296688602 2 0x207fffff 1 (50 * COIN)"

section \<open>The hashes\<close>

lemma genesis_merkle:
  assumes "length junk = 64"
  shows "h_hashMerkleRoot (CreateGenesisBlock ways junk t s nTime0 nNonce0 nBits0 nVersion0 r) =
    sha256 (sha256 (SerializeTransaction False (genesis_tx t s r)))"
  using assms by (simp add: CreateGenesisBlock_def BlockMerkleRoot_def ComputeMerkleRoot_def merkle_loop.simps ComputeHash_def
      SerializeHash_eq Let_def)

lemma uint256_of_val: "length xs = 32 \<Longrightarrow> val_le xs = n \<Longrightarrow> uint256_of n = xs"
  using words_of_nat_val_le[of xs 32] by (simp add: uint256_of_def)

lemma le_bytes_val:
  "length xs = LENGTH('a::len) div 8 \<Longrightarrow> unat (w :: 'a word) = val_le xs \<Longrightarrow> le_bytes w = xs"
  by (simp add: le_bytes_def words_of_nat_val_le)

lemma genesis_script: "ScriptNum_serialize 486604799 = [0xff, 0xff, 0x00, 0x1d]" "ScriptNum_serialize 4 = [4]"
proof -
  have "abs_bytes 486604799 = [0xff, 0xff, 0x00, 0x1d]" "abs_bytes 4 = [4]" by (rule abs_bytes_unique; simp)+
  then show "ScriptNum_serialize 486604799 = [0xff, 0xff, 0x00, 0x1d]" "ScriptNum_serialize 4 = [4]"
    by (simp_all add: ScriptNum_serialize_def)
qed

lemma genesis_fields:
  "ser_writedata32 0 = [0, 0, 0, 0]" "ser_writedata32 1 = [1, 0, 0, 0]" "ser_writedata32 0xffffffff = [0xff, 0xff, 0xff, 0xff]"
  "Serialize_int64 5000000000 = [0, 0xf2, 0x05, 0x2a, 1, 0, 0, 0]"
  unfolding ser_writedata32_def Serialize_int64_def ser_writedata64_def by (rule le_bytes_val; simp)+

lemma genesis_tx_layout:
  "SerializeTransaction False (genesis_tx t s (50 * COIN)) =
    [1, 0, 0, 0, 1] @ replicate 32 0 @ [0xff, 0xff, 0xff, 0xff] @
    Serialize_bytes (push_data [4, 0xff, 0xff, 0, 0x1d, 1, 4] (map of_char t)) @ [0xff, 0xff, 0xff, 0xff] @
    [1, 0, 0xf2, 0x05, 0x2a, 1, 0, 0, 0] @ Serialize_bytes s @ [0, 0, 0, 0]"
  by (simp add: SerializeTransaction_def genesis_tx_def Serialize_vector_def Serialize_CTxIn_def Serialize_CTxOut_def
    Serialize_COutPoint_def Serialize_uint256_def COutPoint_null_def NULL_INDEX_def SEQUENCE_FINAL_def COIN_def uint256_0_def
    push_num_def push_int64_def genesis_script genesis_fields push_data_def AppendDataSize_def opcode_defs WriteCompactSize_def ser_writedata8_def)

lemma replicate_zeros:
  "replicate 32 (0 :: u8) = [0x00, 0x00, 0x00, 0x00, 0x00, 0x00, 0x00, 0x00, 0x00, 0x00, 0x00, 0x00, 0x00, 0x00, 0x00, 0x00, 0x00, 0x00,
     0x00, 0x00, 0x00, 0x00, 0x00, 0x00, 0x00, 0x00, 0x00, 0x00, 0x00, 0x00, 0x00, 0x00]"
  "replicate 33 (0 :: u8) = [0x00, 0x00, 0x00, 0x00, 0x00, 0x00, 0x00, 0x00, 0x00, 0x00, 0x00, 0x00, 0x00, 0x00, 0x00, 0x00, 0x00, 0x00,
     0x00, 0x00, 0x00, 0x00, 0x00, 0x00, 0x00, 0x00, 0x00, 0x00, 0x00, 0x00, 0x00, 0x00, 0x00]"
  by (simp_all add: numeral_eq_Suc)

lemmas script_bytes = Serialize_bytes_def WriteCompactSize_def ser_writedata8_def push_data_def push_op_def AppendDataSize_def
  opcode_defs replicate_zeros

lemma default_tx_bytes:
  "SerializeTransaction False (genesis_tx ''BTC3 Fork 2025 - A New Beginning for Bitcoin''
     (push_op (push_data [] genesis_pubkey) OP_CHECKSIG) (50 * COIN)) =
   [0x01, 0x00, 0x00, 0x00, 0x01, 0x00, 0x00, 0x00, 0x00, 0x00, 0x00, 0x00, 0x00, 0x00, 0x00, 0x00, 0x00, 0x00,
     0x00, 0x00, 0x00, 0x00, 0x00, 0x00, 0x00, 0x00, 0x00, 0x00, 0x00, 0x00, 0x00, 0x00, 0x00, 0x00, 0x00,
     0x00, 0x00, 0xff, 0xff, 0xff, 0xff, 0x34, 0x04, 0xff, 0xff, 0x00, 0x1d, 0x01, 0x04, 0x2c, 0x42, 0x54,
     0x43, 0x33, 0x20, 0x46, 0x6f, 0x72, 0x6b, 0x20, 0x32, 0x30, 0x32, 0x35, 0x20, 0x2d, 0x20, 0x41, 0x20,
     0x4e, 0x65, 0x77, 0x20, 0x42, 0x65, 0x67, 0x69, 0x6e, 0x6e, 0x69, 0x6e, 0x67, 0x20, 0x66, 0x6f, 0x72,
     0x20, 0x42, 0x69, 0x74, 0x63, 0x6f, 0x69, 0x6e, 0xff, 0xff, 0xff, 0xff, 0x01, 0x00, 0xf2, 0x05, 0x2a,
     0x01, 0x00, 0x00, 0x00, 0x43, 0x41, 0x04, 0x67, 0x8a, 0xfd, 0xb0, 0xfe, 0x55, 0x48, 0x27, 0x19, 0x67,
     0xf1, 0xa6, 0x71, 0x30, 0xb7, 0x10, 0x5c, 0xd6, 0xa8, 0x28, 0xe0, 0x39, 0x09, 0xa6, 0x79, 0x62, 0xe0,
     0xea, 0x1f, 0x61, 0xde, 0xb6, 0x49, 0xf6, 0xbc, 0x3f, 0x4c, 0xef, 0x38, 0xc4, 0xf3, 0x55, 0x04, 0xe5,
     0x1e, 0xc1, 0x12, 0xde, 0x5c, 0x38, 0x4d, 0xf7, 0xba, 0x0b, 0x8d, 0x57, 0x8a, 0x4c, 0x70, 0x2b, 0x6b,
     0xf1, 0x1d, 0x5f, 0xac, 0x00, 0x00, 0x00, 0x00]"
  unfolding genesis_tx_layout by (simp add: script_bytes genesis_pubkey_def)

lemma testnet4_tx_bytes:
  "SerializeTransaction False (genesis_tx ''03/May/2024 000000000000000000001ebd58c244970b3aa9d783bb001011fbe8ea8e98e00e''
     (push_op (push_data [] (replicate 33 0)) OP_CHECKSIG) (50 * COIN)) =
   [0x01, 0x00, 0x00, 0x00, 0x01, 0x00, 0x00, 0x00, 0x00, 0x00, 0x00, 0x00, 0x00, 0x00, 0x00, 0x00, 0x00, 0x00,
     0x00, 0x00, 0x00, 0x00, 0x00, 0x00, 0x00, 0x00, 0x00, 0x00, 0x00, 0x00, 0x00, 0x00, 0x00, 0x00, 0x00,
     0x00, 0x00, 0xff, 0xff, 0xff, 0xff, 0x55, 0x04, 0xff, 0xff, 0x00, 0x1d, 0x01, 0x04, 0x4c, 0x4c, 0x30,
     0x33, 0x2f, 0x4d, 0x61, 0x79, 0x2f, 0x32, 0x30, 0x32, 0x34, 0x20, 0x30, 0x30, 0x30, 0x30, 0x30, 0x30,
     0x30, 0x30, 0x30, 0x30, 0x30, 0x30, 0x30, 0x30, 0x30, 0x30, 0x30, 0x30, 0x30, 0x30, 0x31, 0x65, 0x62,
     0x64, 0x35, 0x38, 0x63, 0x32, 0x34, 0x34, 0x39, 0x37, 0x30, 0x62, 0x33, 0x61, 0x61, 0x39, 0x64, 0x37,
     0x38, 0x33, 0x62, 0x62, 0x30, 0x30, 0x31, 0x30, 0x31, 0x31, 0x66, 0x62, 0x65, 0x38, 0x65, 0x61, 0x38,
     0x65, 0x39, 0x38, 0x65, 0x30, 0x30, 0x65, 0xff, 0xff, 0xff, 0xff, 0x01, 0x00, 0xf2, 0x05, 0x2a, 0x01,
     0x00, 0x00, 0x00, 0x23, 0x21, 0x00, 0x00, 0x00, 0x00, 0x00, 0x00, 0x00, 0x00, 0x00, 0x00, 0x00, 0x00,
     0x00, 0x00, 0x00, 0x00, 0x00, 0x00, 0x00, 0x00, 0x00, 0x00, 0x00, 0x00, 0x00, 0x00, 0x00, 0x00, 0x00,
     0x00, 0x00, 0x00, 0x00, 0xac, 0x00, 0x00, 0x00, 0x00]"
  unfolding genesis_tx_layout by (simp add: script_bytes)

lemma default_tx_hash:
  "sha256 (sha256 [0x01, 0x00, 0x00, 0x00, 0x01, 0x00, 0x00, 0x00, 0x00, 0x00, 0x00, 0x00, 0x00, 0x00, 0x00, 0x00, 0x00, 0x00,
     0x00, 0x00, 0x00, 0x00, 0x00, 0x00, 0x00, 0x00, 0x00, 0x00, 0x00, 0x00, 0x00, 0x00, 0x00, 0x00, 0x00,
     0x00, 0x00, 0xff, 0xff, 0xff, 0xff, 0x34, 0x04, 0xff, 0xff, 0x00, 0x1d, 0x01, 0x04, 0x2c, 0x42, 0x54,
     0x43, 0x33, 0x20, 0x46, 0x6f, 0x72, 0x6b, 0x20, 0x32, 0x30, 0x32, 0x35, 0x20, 0x2d, 0x20, 0x41, 0x20,
     0x4e, 0x65, 0x77, 0x20, 0x42, 0x65, 0x67, 0x69, 0x6e, 0x6e, 0x69, 0x6e, 0x67, 0x20, 0x66, 0x6f, 0x72,
     0x20, 0x42, 0x69, 0x74, 0x63, 0x6f, 0x69, 0x6e, 0xff, 0xff, 0xff, 0xff, 0x01, 0x00, 0xf2, 0x05, 0x2a,
     0x01, 0x00, 0x00, 0x00, 0x43, 0x41, 0x04, 0x67, 0x8a, 0xfd, 0xb0, 0xfe, 0x55, 0x48, 0x27, 0x19, 0x67,
     0xf1, 0xa6, 0x71, 0x30, 0xb7, 0x10, 0x5c, 0xd6, 0xa8, 0x28, 0xe0, 0x39, 0x09, 0xa6, 0x79, 0x62, 0xe0,
     0xea, 0x1f, 0x61, 0xde, 0xb6, 0x49, 0xf6, 0xbc, 0x3f, 0x4c, 0xef, 0x38, 0xc4, 0xf3, 0x55, 0x04, 0xe5,
     0x1e, 0xc1, 0x12, 0xde, 0x5c, 0x38, 0x4d, 0xf7, 0xba, 0x0b, 0x8d, 0x57, 0x8a, 0x4c, 0x70, 0x2b, 0x6b,
     0xf1, 0x1d, 0x5f, 0xac, 0x00, 0x00, 0x00, 0x00]) =
   [0x67, 0xbe, 0xab, 0xb0, 0xd3, 0x5a, 0xbb, 0x03, 0x18, 0x0b, 0x65, 0xf7, 0x35, 0x15, 0x6c, 0x88, 0xa5, 0x88,
     0x5d, 0x67, 0x7b, 0xd4, 0x73, 0x18, 0xb2, 0x0b, 0xd5, 0x85, 0x42, 0xf7, 0x86, 0xd0]"
  by code_simp

lemma testnet4_tx_hash:
  "sha256 (sha256 [0x01, 0x00, 0x00, 0x00, 0x01, 0x00, 0x00, 0x00, 0x00, 0x00, 0x00, 0x00, 0x00, 0x00, 0x00, 0x00, 0x00, 0x00,
     0x00, 0x00, 0x00, 0x00, 0x00, 0x00, 0x00, 0x00, 0x00, 0x00, 0x00, 0x00, 0x00, 0x00, 0x00, 0x00, 0x00,
     0x00, 0x00, 0xff, 0xff, 0xff, 0xff, 0x55, 0x04, 0xff, 0xff, 0x00, 0x1d, 0x01, 0x04, 0x4c, 0x4c, 0x30,
     0x33, 0x2f, 0x4d, 0x61, 0x79, 0x2f, 0x32, 0x30, 0x32, 0x34, 0x20, 0x30, 0x30, 0x30, 0x30, 0x30, 0x30,
     0x30, 0x30, 0x30, 0x30, 0x30, 0x30, 0x30, 0x30, 0x30, 0x30, 0x30, 0x30, 0x30, 0x30, 0x31, 0x65, 0x62,
     0x64, 0x35, 0x38, 0x63, 0x32, 0x34, 0x34, 0x39, 0x37, 0x30, 0x62, 0x33, 0x61, 0x61, 0x39, 0x64, 0x37,
     0x38, 0x33, 0x62, 0x62, 0x30, 0x30, 0x31, 0x30, 0x31, 0x31, 0x66, 0x62, 0x65, 0x38, 0x65, 0x61, 0x38,
     0x65, 0x39, 0x38, 0x65, 0x30, 0x30, 0x65, 0xff, 0xff, 0xff, 0xff, 0x01, 0x00, 0xf2, 0x05, 0x2a, 0x01,
     0x00, 0x00, 0x00, 0x23, 0x21, 0x00, 0x00, 0x00, 0x00, 0x00, 0x00, 0x00, 0x00, 0x00, 0x00, 0x00, 0x00,
     0x00, 0x00, 0x00, 0x00, 0x00, 0x00, 0x00, 0x00, 0x00, 0x00, 0x00, 0x00, 0x00, 0x00, 0x00, 0x00, 0x00,
     0x00, 0x00, 0x00, 0x00, 0xac, 0x00, 0x00, 0x00, 0x00]) =
   [0x4e, 0x7b, 0x2b, 0x91, 0x28, 0xfe, 0x02, 0x91, 0xdb, 0x06, 0x93, 0xaf, 0x2a, 0xe4, 0x18, 0xb7, 0x67, 0xe6,
     0x57, 0xcd, 0x40, 0x7e, 0x80, 0xcb, 0x14, 0x34, 0x22, 0x1e, 0xae, 0xa7, 0xa0, 0x7a]"
  by code_simp

lemma main_header_hash:
  "sha256 (sha256 [0x01, 0x00, 0x00, 0x00, 0x00, 0x00, 0x00, 0x00, 0x00, 0x00, 0x00, 0x00, 0x00, 0x00, 0x00, 0x00, 0x00, 0x00,
     0x00, 0x00, 0x00, 0x00, 0x00, 0x00, 0x00, 0x00, 0x00, 0x00, 0x00, 0x00, 0x00, 0x00, 0x00, 0x00, 0x00,
     0x00, 0x67, 0xbe, 0xab, 0xb0, 0xd3, 0x5a, 0xbb, 0x03, 0x18, 0x0b, 0x65, 0xf7, 0x35, 0x15, 0x6c, 0x88,
     0xa5, 0x88, 0x5d, 0x67, 0x7b, 0xd4, 0x73, 0x18, 0xb2, 0x0b, 0xd5, 0x85, 0x42, 0xf7, 0x86, 0xd0, 0xd0,
     0xd8, 0x51, 0x69, 0xff, 0xff, 0x00, 0x1f, 0x4d, 0x02, 0x00, 0x30]) =
   [0x9e, 0xb8, 0x61, 0xb3, 0xed, 0xa6, 0x58, 0xa0, 0x43, 0x60, 0xbe, 0xa7, 0x0d, 0xbb, 0x92, 0x3e, 0xa9, 0xf1,
     0x8f, 0x1a, 0x6d, 0x67, 0xeb, 0x04, 0x10, 0x1b, 0x32, 0x26, 0x23, 0x38, 0x2c, 0x0d]"
  by code_simp

lemma testnet4_header_hash:
  "sha256 (sha256 [0x01, 0x00, 0x00, 0x00, 0x00, 0x00, 0x00, 0x00, 0x00, 0x00, 0x00, 0x00, 0x00, 0x00, 0x00, 0x00, 0x00, 0x00,
     0x00, 0x00, 0x00, 0x00, 0x00, 0x00, 0x00, 0x00, 0x00, 0x00, 0x00, 0x00, 0x00, 0x00, 0x00, 0x00, 0x00,
     0x00, 0x4e, 0x7b, 0x2b, 0x91, 0x28, 0xfe, 0x02, 0x91, 0xdb, 0x06, 0x93, 0xaf, 0x2a, 0xe4, 0x18, 0xb7,
     0x67, 0xe6, 0x57, 0xcd, 0x40, 0x7e, 0x80, 0xcb, 0x14, 0x34, 0x22, 0x1e, 0xae, 0xa7, 0xa0, 0x7a, 0x04,
     0x6f, 0x35, 0x66, 0xff, 0xff, 0x00, 0x1d, 0xbb, 0x0c, 0x78, 0x17]) =
   [0x43, 0xf0, 0x8b, 0xda, 0xb0, 0x50, 0xe3, 0x5b, 0x56, 0x7c, 0x86, 0x4b, 0x91, 0xf4, 0x7f, 0x50, 0xae, 0x72,
     0x5a, 0xe2, 0xde, 0x53, 0xbc, 0xfb, 0xba, 0xf2, 0x84, 0xda, 0x00, 0x00, 0x00, 0x00]"
  by code_simp

lemma GenesisHash_eq:
  assumes "length junk = 64"
  shows "GenesisHash junk (CreateGenesisBlock ways junk t s nTime0 nNonce0 nBits0 1 r) =
    sha256 (sha256 ([1, 0, 0, 0] @ replicate 32 0 @ sha256 (sha256 (SerializeTransaction False (genesis_tx t s r))) @
      ser_writedata32 nTime0 @ ser_writedata32 nBits0 @ ser_writedata32 nNonce0))"
proof -
  have "Serialize_int32 1 = [1, 0, 0, 0]" unfolding Serialize_int32_def ser_writedata32_def by (rule le_bytes_val) simp_all
  then show ?thesis using genesis_merkle[OF assms, of ways t s nTime0 nNonce0 nBits0 1 r] assms
    by (simp add: GenesisHash_def CBlockHeader_GetHash_def Serialize_CBlockHeader_def SerializeHash_eq Serialize_uint256_def
      header_of_def CBlockHeader.truncate_def CreateGenesisBlock_def uint256_0_def Let_def)
qed

lemma genesis_header_fields:
  "ser_writedata32 1766971600 = [0xd0, 0xd8, 0x51, 0x69]" "ser_writedata32 0x1f00ffff = [0xff, 0xff, 0x00, 0x1f]" "ser_writedata32 805306957 = [0x4d, 0x02, 0x00, 0x30]"
  "ser_writedata32 1714777860 = [0x04, 0x6f, 0x35, 0x66]" "ser_writedata32 0x1d00ffff = [0xff, 0xff, 0x00, 0x1d]" "ser_writedata32 393743547 = [0xbb, 0x0c, 0x78, 0x17]"
  unfolding ser_writedata32_def by (rule le_bytes_val; simp)+

lemma default_merkle:
  assumes "length junk = 64"
  shows "h_hashMerkleRoot (CreateGenesisBlock_default ways junk nTime0 nNonce0 nBits0 nVersion0 (50 * COIN)) =
    uint256_of 0xd086f74285d50bb21873d47b675d88a5886c1535f7650b1803bb5ad3b0abbe67"
proof -
  have "uint256_of 0xd086f74285d50bb21873d47b675d88a5886c1535f7650b1803bb5ad3b0abbe67 =
   [0x67, 0xbe, 0xab, 0xb0, 0xd3, 0x5a, 0xbb, 0x03, 0x18, 0x0b, 0x65, 0xf7, 0x35, 0x15, 0x6c, 0x88, 0xa5, 0x88,
     0x5d, 0x67, 0x7b, 0xd4, 0x73, 0x18, 0xb2, 0x0b, 0xd5, 0x85, 0x42, 0xf7, 0x86, 0xd0]" by (rule uint256_of_val) simp_all
  then show ?thesis unfolding CreateGenesisBlock_default_def genesis_merkle[OF assms] default_tx_bytes default_tx_hash by simp
qed

lemma main_hash:
  assumes "length junk = 64"
  shows "GenesisHash junk (CreateGenesisBlock_default ways junk 1766971600 805306957 0x1f00ffff 1 (50 * COIN)) =
    uint256_of 0x0d2c382326321b1004eb676d1a8ff1a93e92bb0da7be6043a058a6edb361b89e"
proof -
  have "uint256_of 0x0d2c382326321b1004eb676d1a8ff1a93e92bb0da7be6043a058a6edb361b89e =
   [0x9e, 0xb8, 0x61, 0xb3, 0xed, 0xa6, 0x58, 0xa0, 0x43, 0x60, 0xbe, 0xa7, 0x0d, 0xbb, 0x92, 0x3e, 0xa9, 0xf1,
     0x8f, 0x1a, 0x6d, 0x67, 0xeb, 0x04, 0x10, 0x1b, 0x32, 0x26, 0x23, 0x38, 0x2c, 0x0d]" by (rule uint256_of_val) simp_all
  then show ?thesis
    unfolding CreateGenesisBlock_default_def GenesisHash_eq[OF assms] default_tx_bytes default_tx_hash genesis_header_fields replicate_zeros
    using main_header_hash by simp
qed

lemma testnet4_hashes:
  fixes ways junk
  defines "g \<equiv> CreateGenesisBlock ways junk
            ''03/May/2024 000000000000000000001ebd58c244970b3aa9d783bb001011fbe8ea8e98e00e''
            (push_op (push_data [] (replicate 33 0)) OP_CHECKSIG) 1714777860 393743547 0x1d00ffff 1 (50 * COIN)"
  assumes "length junk = 64"
  shows "GenesisHash junk g = uint256_of 0x00000000da84f2bafbbc53dee25a72ae507ff4914b867c565be350b0da8bf043"
    and "h_hashMerkleRoot g = uint256_of 0x7aa0a7ae1e223414cb807e40cd57e667b718e42aaf9306db9102fe28912b7b4e"
proof -
  have "uint256_of 0x00000000da84f2bafbbc53dee25a72ae507ff4914b867c565be350b0da8bf043 =
   [0x43, 0xf0, 0x8b, 0xda, 0xb0, 0x50, 0xe3, 0x5b, 0x56, 0x7c, 0x86, 0x4b, 0x91, 0xf4, 0x7f, 0x50, 0xae, 0x72,
     0x5a, 0xe2, 0xde, 0x53, 0xbc, 0xfb, 0xba, 0xf2, 0x84, 0xda, 0x00, 0x00, 0x00, 0x00]" by (rule uint256_of_val) simp_all
  then show "GenesisHash junk g = uint256_of 0x00000000da84f2bafbbc53dee25a72ae507ff4914b867c565be350b0da8bf043"
    unfolding g_def GenesisHash_eq[OF assms(2)] testnet4_tx_bytes testnet4_tx_hash genesis_header_fields replicate_zeros(1)
    using testnet4_header_hash by simp
  have "uint256_of 0x7aa0a7ae1e223414cb807e40cd57e667b718e42aaf9306db9102fe28912b7b4e =
   [0x4e, 0x7b, 0x2b, 0x91, 0x28, 0xfe, 0x02, 0x91, 0xdb, 0x06, 0x93, 0xaf, 0x2a, 0xe4, 0x18, 0xb7, 0x67, 0xe6,
     0x57, 0xcd, 0x40, 0x7e, 0x80, 0xcb, 0x14, 0x34, 0x22, 0x1e, 0xae, 0xa7, 0xa0, 0x7a]" by (rule uint256_of_val) simp_all
  then show "h_hashMerkleRoot g = uint256_of 0x7aa0a7ae1e223414cb807e40cd57e667b718e42aaf9306db9102fe28912b7b4e"
    unfolding g_def genesis_merkle[OF assms(2)] testnet4_tx_bytes testnet4_tx_hash by simp
qed

end
