(* ===== verification/Genesis_Checks.thy ===== *)
theory Genesis_Checks
  imports Genesis
begin

text \<open>
  The genesis blocks against the checks of a block: the first block of every network that shares the
  default coinbase passes \<open>CheckBlock\<close>.
\<close>

section \<open>The genesis blocks pass the checks of a block\<close>

lemma genesis_tx_valid:
  assumes "length (SerializeTransaction False (genesis_tx t s (50 * COIN))) \<le> 1000" "length t \<le> 80"
  shows "tx_valid (genesis_tx t s (50 * COIN))" "IsCoinBase (genesis_tx t s (50 * COIN))"
    "sigops (genesis_tx t s (50 * COIN)) \<le> 20000"
proof -
  show c: "IsCoinBase (genesis_tx t s (50 * COIN))"
    by (simp add: IsCoinBase_def genesis_tx_def COutPoint_null_def COutPoint_IsNull_def uint256_IsNull_def uint256_0_def list_all_iff)
  have "length (AppendDataSize [4, 0xff, 0xff, 0, 0x1d, 1, 4] (of_nat (length t))) \<in> {8, 9}"
    using assms(2) by (auto simp: AppendDataSize_def WriteLE16_def word_le_nat_alt unat_small)
  then have "length (scriptSig (vin (genesis_tx t s (50 * COIN)) ! 0)) \<in> {2..100}" using assms(2)
    by (auto simp: genesis_tx_def push_num_def push_int64_def genesis_script push_data_def AppendDataSize_def[of _ 4]
      AppendDataSize_def[of _ 1] opcode_defs)
  then show "tx_valid (genesis_tx t s (50 * COIN))" using assms(1) c
    by (simp add: tx_valid_def) (simp add: genesis_tx_def MoneyRange_def MAX_MONEY_def COIN_def)
  have "length (SerializeTransaction False (genesis_tx t s (50 * COIN))) < 2 ^ 27" using assms(1) by simp
  then obtain k where "GetLegacySigOpCount (genesis_tx t s (50 * COIN)) = Some k"
    "unat k \<le> 20 * length (SerializeTransaction False (genesis_tx t s (50 * COIN)))" by (rule GetLegacySigOpCount_bound)
  then show "sigops (genesis_tx t s (50 * COIN)) \<le> 20000" unfolding sigops_def using assms(1) by simp
qed

lemma genesis_block_valid:
  assumes "length (SerializeTransaction False (genesis_tx t s (50 * COIN))) \<le> 900" "length t \<le> 80" "length junk = 64"
  shows "block_valid (CreateGenesisBlock ways junk t s nTime0 nNonce0 nBits0 nVersion0 (50 * COIN))"
    and "merkle_valid (SerializeHash junk) (CreateGenesisBlock ways junk t s nTime0 nNonce0 nBits0 nVersion0 (50 * COIN))"
proof -
  let ?tx = "genesis_tx t s (50 * COIN)" and ?b = "CreateGenesisBlock ways junk t s nTime0 nNonce0 nBits0 nVersion0 (50 * COIN)"
  have v: "vtx ?b = [?tx]" by (simp add: CreateGenesisBlock_def Let_def)
  have "h_hashPrevBlock ?b = uint256_0" by (simp add: CreateGenesisBlock_def Let_def)
  then have "length (Serialize_CBlockHeader (header_of ?b)) = 80" using genesis_merkle[OF assms(3)]
    by (simp add: Serialize_CBlockHeader_def header_of_def CBlockHeader.truncate_def Serialize_int32_def Serialize_uint256_def
      ser_writedata32_def uint256_0_def)
  then have "length (Serialize_CBlock False ?b) = 81 + length (SerializeTransaction False ?tx)"
    by (simp add: Serialize_CBlock_def v Serialize_vector_def WriteCompactSize_def ser_writedata8_def)
  moreover have "4 * sigops ?tx \<le> 80000" "tx_valid ?tx" "IsCoinBase ?tx" using genesis_tx_valid[of t s] assms(1,2) by simp_all
  ultimately show "block_valid ?b" using assms(1) by (simp add: block_valid_def v)
  show "merkle_valid (SerializeHash junk) ?b"
    using genesis_merkle[OF assms(3)] SerializeHash_eq[OF assms(3)]
    by (simp add: merkle_valid_def txids_def v ComputeHash_def merkle_root_def merkle_top.simps[of _ "[_]"] merkle_mutated.simps[of _ "[_]"])
qed

lemma default_genesis_valid:
  assumes "length junk = 64"
  shows "block_valid (CreateGenesisBlock_default ways junk nTime0 nNonce0 nBits0 nVersion0 (50 * COIN))"
    and "merkle_valid (SerializeHash junk) (CreateGenesisBlock_default ways junk nTime0 nNonce0 nBits0 nVersion0 (50 * COIN))"
proof -
  have "length (SerializeTransaction False (genesis_tx ''BTC3 Fork 2025 - A New Beginning for Bitcoin''
     (push_op (push_data [] genesis_pubkey) OP_CHECKSIG) (50 * COIN))) \<le> 900" unfolding default_tx_bytes by simp
  from genesis_block_valid[OF this _ assms] show
    "block_valid (CreateGenesisBlock_default ways junk nTime0 nNonce0 nBits0 nVersion0 (50 * COIN))"
    "merkle_valid (SerializeHash junk) (CreateGenesisBlock_default ways junk nTime0 nNonce0 nBits0 nVersion0 (50 * COIN))"
    unfolding CreateGenesisBlock_default_def by simp_all
qed

lemma default_genesis_accepted:
  assumes "length junk = 64" "ways_ok ways" "\<not> signet_blocks params"
  shows "map_option fst (CheckBlock ways (SerializeHash junk) signet params x True
    (fresh (CreateGenesisBlock_default ways junk nTime0 nNonce0 nBits0 nVersion0 (50 * COIN)))) = Some (Inr ())"
  using CheckBlock_fresh[of ways "SerializeHash junk" signet params x True
      "CreateGenesisBlock_default ways junk nTime0 nNonce0 nBits0 nVersion0 (50 * COIN)"]
    default_genesis_valid[OF assms(1)] SerializeHash_eq[OF assms(1)] assms(2,3) by auto

lemma default_genesis_vtx: "length (vtx (CreateGenesisBlock_default ways junk nTime0 nNonce0 nBits0 nVersion0 reward)) = 1"
  by (simp add: CreateGenesisBlock_default_def CreateGenesisBlock_def Let_def)

end
