(* ===== verification/Merkle_Path.thy ===== *)
theory Merkle_Path
  imports Merkle
begin

text \<open>
  \<open>MerkleComputation\<close> returns the path of a leaf.  While the leaves are read, the set bits of \<open>count\<close> are the complete subtrees
  that have no right sibling yet, and \<open>inner\<close> holds their hashes; the final sweep closes the right
  edge, where a node without a sibling is paired with itself.
\<close>

section \<open>Levels\<close>

definition tree_level :: "('a \<Rightarrow> 'a \<Rightarrow> 'a) \<Rightarrow> 'a list \<Rightarrow> nat \<Rightarrow> 'a list" where
  "tree_level H xs l = (merkle_pairs H ^^ l) xs"

lemma tree_level_0 [simp]: "tree_level H xs 0 = xs"
  by (simp add: tree_level_def)

lemma tree_level_Suc: "tree_level H xs (Suc l) = merkle_pairs H (tree_level H xs l)"
  by (simp add: tree_level_def)

lemma tree_level_pairs: "tree_level H (merkle_pairs H xs) l = tree_level H xs (Suc l)"
  by (simp add: tree_level_def funpow_swap1)

lemma length_tree_level_Suc: "length (tree_level H xs (Suc l)) = (length (tree_level H xs l) + 1) div 2"
  by (simp add: tree_level_Suc)

lemma tree_level_nth:
  assumes "0 < m" "2 * m \<le> length (tree_level H xs l)"
  shows "tree_level H xs (Suc l) ! (m - 1) = H (tree_level H xs l ! (2 * m - 2)) (tree_level H xs l ! (2 * m - 1))"
proof -
  obtain k where m: "m = Suc k" using assms(1) by (cases m) auto
  then show ?thesis using assms(2) by (simp add: tree_level_Suc nth_merkle_pairs)
qed

lemma tree_level_last:
  assumes "length (tree_level H xs l) = 2 * m - 1" "0 < m"
  shows "tree_level H xs (Suc l) ! (m - 1) = H (tree_level H xs l ! (2 * m - 2)) (tree_level H xs l ! (2 * m - 2))"
proof -
  obtain k where m: "m = Suc k" using assms(2) by (cases m) auto
  then show ?thesis using assms(1) by (simp add: tree_level_Suc nth_merkle_pairs)
qed

text \<open>The siblings up to a level; all of them are the path.\<close>

definition siblings :: "('a \<Rightarrow> 'a \<Rightarrow> 'a) \<Rightarrow> 'a list \<Rightarrow> nat \<Rightarrow> nat \<Rightarrow> 'a list" where
  "siblings H xs p l = map (\<lambda>j. sibling (tree_level H xs j) (p div 2 ^ j)) [0..<l]"

lemma siblings_Suc [simp]: "siblings H xs p (Suc l) = siblings H xs p l @ [sibling (tree_level H xs l) (p div 2 ^ l)]"
  by (simp add: siblings_def)

lemma siblings_0 [simp]: "siblings H xs p 0 = []"
  by (simp add: siblings_def)

lemma merkle_path_siblings:
  assumes "length (tree_level H xs k) = 1"  "\<forall>j<k. length (tree_level H xs j) > 1"
  shows "merkle_path H xs p = siblings H xs p k"
  using assms
proof (induction k arbitrary: xs p)
  case 0
  then show ?case by (simp add: merkle_path.simps[of _ xs])
next
  case (Suc k)
  have "siblings H xs p (Suc k) = sibling xs p # siblings H (merkle_pairs H xs) (p div 2) k"
    by (simp add: siblings_def tree_level_pairs div_mult2_eq upt_conv_Cons del: upt_Suc flip: map_Suc_upt)
  moreover have "merkle_path H (merkle_pairs H xs) (p div 2) = siblings H (merkle_pairs H xs) (p div 2) k"
    using Suc.prems by (intro Suc.IH) (auto simp: tree_level_pairs)
  moreover have "length xs > 1" using Suc.prems(2) by force
  ultimately show ?case by (simp add: merkle_path.simps[of _ xs])
qed

section \<open>Going up\<close>

text \<open>The node above \<open>level\<close> that ends at leaf \<open>count\<close>, and the part of the path below it when it contains the leaf.\<close>

definition at_node :: "('a \<Rightarrow> 'a \<Rightarrow> 'a) \<Rightarrow> 'a list \<Rightarrow> nat \<Rightarrow> nat \<Rightarrow> nat \<Rightarrow> 'a \<Rightarrow> bool \<Rightarrow> 'a list \<Rightarrow> bool" where
  "at_node H xs p count l h matchh path \<longleftrightarrow> 2 ^ l dvd count \<and> count div 2 ^ l \<le> length (tree_level H xs l) \<and>
     h = tree_level H xs l ! (count div 2 ^ l - 1) \<and> (matchh \<longleftrightarrow> p div 2 ^ l = count div 2 ^ l - 1) \<and>
     (matchh \<longrightarrow> path = siblings H xs p l)"

text \<open>What \<open>inner\<close> and \<open>matchlevel\<close> hold at the levels the loop may pass.\<close>

definition left_nodes :: "('a \<Rightarrow> 'a \<Rightarrow> 'a) \<Rightarrow> 'a list \<Rightarrow> nat \<Rightarrow> nat \<Rightarrow> nat \<Rightarrow> 'a list \<Rightarrow> int \<Rightarrow> 'a list \<Rightarrow> bool" where
  "left_nodes H xs p count l inner ml path \<longleftrightarrow> (\<forall>b\<ge>l. 2 ^ Suc b dvd count \<longrightarrow>
     inner ! b = tree_level H xs b ! (count div 2 ^ b - 2) \<and> (ml = int b \<longleftrightarrow> p div 2 ^ b = count div 2 ^ b - 2) \<and>
     (ml = int b \<longrightarrow> path = siblings H xs p b))"

lemma pow_dvd_Suc: "2 ^ l dvd (c::nat) \<Longrightarrow> \<not> bit c l \<Longrightarrow> 2 ^ Suc l dvd c"
  by (auto simp: bit_iff_odd elim!: dvdE)

lemma at_node_up:
  assumes "at_node H xs p count l h matchh path" "left_nodes H xs p count l inner ml path0" "\<not> matchh \<Longrightarrow> path = path0"
    "2 ^ Suc l dvd count" "0 < count" "merkle_match inner ml l h matchh path = (path', matchh')"
  shows "at_node H xs p count (Suc l) (H (inner ! l) h) matchh' path'"
    "\<not> matchh' \<Longrightarrow> path' = path0 \<and> ml \<noteq> int l"
proof -
  define T q where "T = tree_level H xs l" and "q = p div 2 ^ l"
  obtain m where c: "count = 2 ^ Suc l * m" using assms(4) by (rule dvdE)
  then obtain k where m: "m = Suc k" using assms(5) by (cases m) auto
  have "count = 2 ^ l * (2 * m)" using c by simp
  then have d: "count div 2 ^ l = 2 * m" by simp
  have d': "count div 2 ^ Suc l = m" using c by simp
  have T: "2 * m \<le> length T" "h = T ! (2 * m - 1)" "inner ! l = T ! (2 * m - 2)"
    and mt: "matchh \<longleftrightarrow> q = 2 * m - 1" "ml = int l \<longleftrightarrow> q = 2 * m - 2"
      "matchh \<longrightarrow> path = siblings H xs p l" "ml = int l \<longrightarrow> path0 = siblings H xs p l"
    using assms(1,2,4) by (auto simp: at_node_def left_nodes_def d T_def q_def)
  have pm: "matchh' \<longleftrightarrow> matchh \<or> ml = int l"
    "path' = (if matchh then path @ [inner ! l] else if ml = int l then path @ [h] else path)"
    using assms(6) by (auto simp: merkle_match_def split: if_splits)
  have "m \<le> length (tree_level H xs (Suc l))" using T(1) by (simp add: length_tree_level_Suc T_def)
  moreover have "H (inner ! l) h = tree_level H xs (Suc l) ! (m - 1)"
    using tree_level_nth[of m H xs l] T m by (simp add: T_def)
  moreover have "matchh' \<longleftrightarrow> p div 2 ^ Suc l = m - 1"
  proof -
    have "p div 2 ^ Suc l = q div 2" by (simp only: q_def power_Suc2 div_mult2_eq)
    then show ?thesis using pm(1) mt(1,2) m by auto
  qed
  moreover have "path' = siblings H xs p (Suc l)" if "matchh'"
  proof -
    have "sibling T (2 * m - 1) = T ! (2 * m - 2)" "sibling T (2 * m - 2) = T ! (2 * m - 1)"
      using T(1) m by (simp_all add: sibling_def)
    then show ?thesis using that pm mt T(2,3) assms(3) m unfolding T_def q_def by auto
  qed
  ultimately show "at_node H xs p count (Suc l) (H (inner ! l) h) matchh' path'"
    using assms(4) by (simp add: at_node_def d' del: power_Suc)
  show "\<not> matchh' \<Longrightarrow> path' = path0 \<and> ml \<noteq> int l" using pm assms(3) by simp
qed

lemma merkle_up_spec:
  assumes "at_node H xs p count l h matchh path" "left_nodes H xs p count l inner ml path0" "\<not> matchh \<Longrightarrow> path = path0"
    "0 < count" "count < 2 ^ 32"
  shows "\<exists>l' h' matchh' path'. merkle_up H inner count ml l h matchh path = Some (l', h', matchh', path') \<and> l \<le> l' \<and> bit count l' \<and>
    at_node H xs p count l' h' matchh' path' \<and> (matchh \<longrightarrow> matchh') \<and>
    (\<not> matchh' \<longrightarrow> path' = path0 \<and> (\<forall>b. l \<le> b \<and> b < l' \<longrightarrow> ml \<noteq> int b))"
  using assms
proof (induction H inner count ml l h matchh path rule: merkle_up.induct)
  case (1 H inner count ml l h matchh path)
  have "2 ^ l \<le> count" using "1.prems"(1,4) by (auto simp: at_node_def intro: dvd_imp_le)
  then have "(2::nat) ^ l < 2 ^ 32" using "1.prems"(5) by linarith
  then have l: "\<not> 32 \<le> l" using power_strict_increasing_iff[of "2::nat" l 32] by linarith
  show ?case
  proof (cases "bit count l")
    case True
    then have "merkle_up H inner count ml l h matchh path = Some (l, h, matchh, path)"
      using l by (simp add: merkle_up.simps[of _ _ _ _ l])
    then show ?thesis using True "1.prems"(1,3) by auto
  next
    case False
    obtain path' matchh' where pm: "merkle_match inner ml l h matchh path = (path', matchh')" by fastforce
    have d: "2 ^ Suc l dvd count" using False "1.prems"(1) by (intro pow_dvd_Suc) (simp_all add: at_node_def)
    note up = at_node_up[OF "1.prems"(1,2,3) d "1.prems"(4) pm]
    have "left_nodes H xs p count (l + 1) inner ml path0" using "1.prems"(2) by (simp add: left_nodes_def)
    from "1.IH"[OF l False pm[symmetric] refl _ this _ "1.prems"(4,5)] up obtain l' h2 m2 p2
      where "merkle_up H inner count ml (l + 1) (H (inner ! l) h) matchh' path' = Some (l', h2, m2, p2)" "l + 1 \<le> l'" "bit count l'"
        "at_node H xs p count l' h2 m2 p2" "matchh' \<longrightarrow> m2"
        "\<not> m2 \<longrightarrow> p2 = path0 \<and> (\<forall>b. l + 1 \<le> b \<and> b < l' \<longrightarrow> ml \<noteq> int b)" by auto
    moreover have "matchh \<longrightarrow> matchh'" using pm by (auto simp: merkle_match_def split: if_splits)
    moreover have "\<not> m2 \<longrightarrow> ml \<noteq> int l" using up(2) \<open>matchh' \<longrightarrow> m2\<close> by blast
    moreover have "l \<le> b \<Longrightarrow> b = l \<or> l + 1 \<le> b" for b by linarith
    moreover have "merkle_up H inner count ml l h matchh path = merkle_up H inner count ml (l + 1) (H (inner ! l) h) matchh' path'"
      using l False pm by (simp add: merkle_up.simps[of _ _ _ _ l])
    ultimately show ?thesis by (intro exI[of _ l'] exI[of _ h2] exI[of _ m2] exI[of _ p2]) (metis add_leD1)
  qed
qed

section \<open>Reading the leaves\<close>

lemma div_below_pow:
  assumes "2 ^ l dvd c" "bit (c::nat) l" "l < b" "d \<le> 2 ^ l"
  shows "(c - d) div 2 ^ b = c div 2 ^ b"
proof -
  obtain q where c: "c = 2 ^ l * q" using assms(1) by (rule dvdE)
  then have "odd q" using assms(2) by (simp add: bit_iff_odd)
  then obtain r where q: "q = 2 * r + 1" by (rule oddE)
  obtain k where b: "b = Suc (l + k)" using assms(3) less_imp_Suc_add by blast
  have e: "x div 2 ^ b = x div 2 ^ l div 2 div 2 ^ k" for x :: nat by (simp add: b power_add div_mult2_eq mult.commute mult.left_commute flip: div_mult2_eq)
  have "(c - d) div 2 ^ l div 2 = r"
  proof -
    have "2 ^ l * (2 * r) \<le> c - d" using assms(4) by (simp add: c q algebra_simps)
    moreover have "c < 2 ^ l * (2 * r + 2)" by (simp add: c q)
    then have "c - d < 2 ^ l * (2 * r + 2)" by linarith
    ultimately have "2 * r \<le> (c - d) div 2 ^ l" "(c - d) div 2 ^ l < 2 * r + 2"
      by (simp_all add: less_mult_imp_div_less less_eq_div_iff_mult_less_eq mult.commute)
    then show ?thesis by linarith
  qed
  moreover have "c div 2 ^ l div 2 = r" by (simp add: c q)
  ultimately show ?thesis by (simp add: e)
qed

lemma div_pow_dec:
  assumes "2 ^ b dvd (c::nat)" "0 < c" "0 < d" "d \<le> 2 ^ b"
  shows "(c - d) div 2 ^ b = c div 2 ^ b - 1"
proof -
  obtain k where c: "c = 2 ^ b * k" using assms(1) by (rule dvdE)
  then obtain j where k: "k = Suc j" using assms(2) by (cases k) auto
  have "2 ^ b * j \<le> c - d" "c - d < 2 ^ b * Suc j" using assms(3,4) by (simp_all add: c k algebra_simps)
  then have "(c - d) div 2 ^ b = j" by (intro div_nat_eqI) (simp_all add: mult.commute)
  then show ?thesis by (simp add: c k)
qed

lemma div_pow_pred:
  assumes "2 ^ Suc b dvd (c::nat)" "0 < c" "0 < d" "d \<le> 2 ^ b"
  shows "(c - d) div 2 ^ b = c div 2 ^ b - 1" "bit (c - d) b"
proof -
  obtain k where c: "c = 2 ^ Suc b * k" using assms(1) by (rule dvdE)
  then have e: "c div 2 ^ b = 2 * k" "0 < k" using assms(2) by (auto intro: gr0I)
  have "2 ^ b dvd c" by (simp add: c)
  from div_pow_dec[OF this assms(2-4)] show "(c - d) div 2 ^ b = c div 2 ^ b - 1" .
  then show "bit (c - d) b" using e by (simp add: bit_iff_odd)
qed

lemma bit_below: "2 ^ l dvd (c::nat) \<Longrightarrow> b < l \<Longrightarrow> \<not> bit c b"
proof -
  assume "2 ^ l dvd c" "b < l"
  then have "2 ^ Suc b dvd c" by (meson Suc_leI dvd_trans le_imp_power_dvd)
  then show ?thesis by (auto simp: bit_iff_odd elim!: dvdE)
qed

lemma bit_div_pos: "bit (c::nat) b \<Longrightarrow> 0 < c div 2 ^ b"
  by (metis bit_iff_odd even_zero gr0I)

definition leaves_inv :: "('a \<Rightarrow> 'a \<Rightarrow> 'a) \<Rightarrow> 'a list \<Rightarrow> nat \<Rightarrow> nat \<Rightarrow> 'a list \<Rightarrow> int \<Rightarrow> 'a list \<Rightarrow> bool" where
  "leaves_inv H xs p count inner ml path \<longleftrightarrow> count \<le> length xs \<and> length inner = 32 \<and>
     (\<forall>b. bit count b \<longrightarrow> inner ! b = tree_level H xs b ! (count div 2 ^ b - 1)) \<and>
     (\<forall>b. ml = int b \<longleftrightarrow> bit count b \<and> p div 2 ^ b = count div 2 ^ b - 1) \<and>
     (\<forall>b. ml = int b \<longrightarrow> path = siblings H xs p b) \<and> ((\<forall>b. ml \<noteq> int b) \<longrightarrow> path = [])"

lemma leaves_inv_init: "leaves_inv H xs p 0 (replicate 32 x) (- 1) []"
  by (auto simp: leaves_inv_def)

text \<open>Before a leaf goes up, it is a node, and \<open>inner\<close> holds the left neighbours.\<close>

lemma leaves_inv_node:
  assumes "leaves_inv H xs p count inner ml path" "count < length xs"
  shows "at_node H xs p (Suc count) 0 (xs ! count) (count = p) path" "left_nodes H xs p (Suc count) 0 inner ml path"
proof -
  have "path = []" if "count = p"
  proof -
    have "ml \<noteq> int b" for b
      using assms(1) that bit_div_pos[of count b] by (auto simp: leaves_inv_def)
    then show ?thesis using assms(1) by (auto simp: leaves_inv_def)
  qed
  then show "at_node H xs p (Suc count) 0 (xs ! count) (count = p) path" using assms(2) by (auto simp: at_node_def)
  show "left_nodes H xs p (Suc count) 0 inner ml path"
    unfolding left_nodes_def
  proof (intro allI impI)
    fix b assume "2 ^ Suc b dvd Suc count"
    from div_pow_pred[OF this, of 1] have d: "count div 2 ^ b = Suc count div 2 ^ b - 1" "bit count b" by simp_all
    then have "count div 2 ^ b - 1 = Suc count div 2 ^ b - 2" by simp
    then show "inner ! b = tree_level H xs b ! (Suc count div 2 ^ b - 2) \<and> (ml = int b \<longleftrightarrow> p div 2 ^ b = Suc count div 2 ^ b - 2) \<and>
        (ml = int b \<longrightarrow> path = siblings H xs p b)"
      using assms(1) d(2) by (simp add: leaves_inv_def)
  qed
qed

lemma leaves_inv_step:
  assumes inv: "leaves_inv H xs p count inner ml path" and l: "l < 32" "bit (Suc count) l"
    and node: "at_node H xs p (Suc count) l h matchh path'" and c: "count < length xs"
    and no: "\<not> matchh \<Longrightarrow> path' = path \<and> (\<forall>b<l. ml \<noteq> int b)"
  shows "leaves_inv H xs p (Suc count) (inner[l := h]) (if matchh then int l else ml) path'"
proof -
  let ?c = "Suc count"
  have n: "2 ^ l dvd ?c" "h = tree_level H xs l ! (?c div 2 ^ l - 1)" "matchh \<longleftrightarrow> p div 2 ^ l = ?c div 2 ^ l - 1"
    "matchh \<longrightarrow> path' = siblings H xs p l" using node by (simp_all add: at_node_def)
  have above: "count div 2 ^ b = ?c div 2 ^ b" "bit count b \<longleftrightarrow> bit ?c b" if "l < b" for b
    using div_below_pow[OF n(1) l(2) that, of 1] by (simp_all add: bit_iff_odd)
  have dec: "count div 2 ^ l = ?c div 2 ^ l - 1" using div_pow_dec[OF n(1), of 1] by simp
  then have lo: "\<not> bit count l" using l(2) by (simp add: bit_iff_odd)
  have bits: "\<forall>b. bit ?c b \<longrightarrow> inner[l := h] ! b = tree_level H xs b ! (?c div 2 ^ b - 1)"
  proof (intro allI impI)
    fix b assume b: "bit ?c b"
    then have "\<not> b < l" using bit_below[OF n(1)] by blast
    then consider "b = l" | "l < b" by linarith
    then show "inner[l := h] ! b = tree_level H xs b ! (?c div 2 ^ b - 1)"
    proof cases
      case 1 then show ?thesis using n(2) l(1) inv by (simp add: leaves_inv_def)
    next
      case 2 then show ?thesis using above[OF 2] b inv by (simp add: leaves_inv_def)
    qed
  qed
  have match: "(if matchh then int l else ml) = int b \<longleftrightarrow> bit ?c b \<and> p div 2 ^ b = ?c div 2 ^ b - 1" for b
  proof -
    consider "b < l" | "b = l" | "l < b" by linarith
    then show ?thesis
    proof cases
      case 1 then show ?thesis using bit_below[OF n(1) 1] no by auto
    next
      case 2 then show ?thesis using l(2) n(3) lo inv by (auto simp: leaves_inv_def)
    next
      case 3
      have "\<not> (bit ?c b \<and> p div 2 ^ b = ?c div 2 ^ b - 1)" if matchh
      proof -
        obtain k where "b = l + k" using 3 less_imp_add_positive by blast
        then have "p div 2 ^ b = count div 2 ^ b" using that n(3) dec by (simp add: power_add div_mult2_eq)
        then show ?thesis using above(1)[OF 3] bit_div_pos[of ?c b] by auto
      qed
      then show ?thesis using 3 above[OF 3] inv by (auto simp: leaves_inv_def)
    qed
  qed
  define ml' where "ml' = (if matchh then int l else ml)"
  have "(\<forall>b. ml' = int b \<longrightarrow> path' = siblings H xs p b) \<and> ((\<forall>b. ml' \<noteq> int b) \<longrightarrow> path' = [])"
    using n(4) no inv by (cases matchh) (simp_all add: ml'_def leaves_inv_def)
  moreover have "length (inner[l := h]) = 32" "Suc count \<le> length xs" using inv c by (simp_all add: leaves_inv_def)
  ultimately show ?thesis using bits match unfolding leaves_inv_def ml'_def by blast
qed

lemma merkle_leaves_spec:
  assumes "leaves_inv H xs p count inner ml path" "length xs < 2 ^ 32" "ys = drop count xs"
  shows "\<exists>inner' ml' path'. merkle_leaves H p ys count inner ml path = Some (length xs, inner', ml', path') \<and>
    leaves_inv H xs p (length xs) inner' ml' path'"
  using assms
proof (induction ys arbitrary: count inner ml path)
  case Nil
  then have "count = length xs" by (simp add: leaves_inv_def)
  with Nil show ?case by simp
next
  case (Cons y ys)
  have c: "count < length xs" using Cons.prems(3) by (cases "count < length xs") simp_all
  then have y: "y = xs ! count" "ys = drop (Suc count) xs" using Cons.prems(3) Cons_nth_drop_Suc[OF c] by (metis list.inject)+
  note node = leaves_inv_node[OF Cons.prems(1) c]
  have "Suc count < 2 ^ 32" using c Cons.prems(2) by linarith
  with merkle_up_spec[OF node(1,2)] obtain l h m path'
    where up: "merkle_up H inner (Suc count) ml 0 (xs ! count) (count = p) path = Some (l, h, m, path')" "bit (Suc count) l"
      "at_node H xs p (Suc count) l h m path'" "\<not> m \<longrightarrow> path' = path \<and> (\<forall>b. 0 \<le> b \<and> b < l \<longrightarrow> ml \<noteq> int b)" by blast
  have "l < 32" using merkle_up_level[OF up(1)] by simp
  from leaves_inv_step[OF Cons.prems(1) this up(2,3) c] up(4)
  have "leaves_inv H xs p (Suc count) (inner[l := h]) (if m then int l else ml) path'" by simp
  from Cons.IH[OF this Cons.prems(2) y(2)] \<open>Suc count < 2 ^ 32\<close> up(1) y(1) show ?case by simp
qed

section \<open>The right edge\<close>

lemma level_exact:
  assumes "c div 2 ^ l = length (tree_level H xs l)" "2 ^ l' dvd c" "l \<le> l'" "0 < c"
  shows "c div 2 ^ l' = length (tree_level H xs l') \<and> (\<forall>j. l \<le> j \<and> j < l' \<longrightarrow> 1 < length (tree_level H xs j))"
  using assms(3,2)
proof (induction l' rule: dec_induct)
  case base
  then show ?case using assms(1) by simp
next
  case (step k)
  have d: "2 ^ Suc k dvd c" using step.prems .
  then have "2 ^ k dvd c" by (metis dvd_mult_left power_Suc2)
  with step.IH have k: "c div 2 ^ k = length (tree_level H xs k)" "\<forall>j. l \<le> j \<and> j < k \<longrightarrow> 1 < length (tree_level H xs j)" by blast+
  obtain m where m: "c = 2 ^ Suc k * m" using d by (rule dvdE)
  then have "length (tree_level H xs k) = 2 * m" "c div 2 ^ Suc k = m" "0 < m" using k(1) assms(4) by (auto intro: gr0I)
  then show ?case using k(2) by (auto simp: length_tree_level_Suc less_Suc_eq)
qed

lemma leaf_in_level: "p < length xs \<Longrightarrow> p div 2 ^ l < length (tree_level H xs l)"
proof (induction l)
  case (Suc l)
  have "p div 2 ^ Suc l = p div 2 ^ l div 2" by (simp only: power_Suc2 div_mult2_eq)
  with Suc show ?case by (simp add: length_tree_level_Suc)
qed simp

lemma merkle_skip_spec:
  assumes "0 < count" "count < 2 ^ 32" "2 ^ l dvd count"
  shows "\<exists>l'. merkle_skip count l = Some l' \<and> bit count l' \<and> 2 ^ l' dvd count"
  using assms
proof (induction count l rule: merkle_skip.induct)
  case (1 count l)
  have "2 ^ l \<le> count" using "1.prems"(1,3) by (auto intro: dvd_imp_le)
  then have "(2::nat) ^ l < 2 ^ 32" using "1.prems"(2) by linarith
  then have l: "\<not> 32 \<le> l" using power_strict_increasing_iff[of "2::nat" l 32] by linarith
  show ?case
  proof (cases "bit count l")
    case True then show ?thesis using l "1.prems"(3) by (auto simp: merkle_skip.simps[of _ l])
  next
    case False
    with "1.IH"[OF l False "1.prems"(1,2)] pow_dvd_Suc[OF "1.prems"(3) False] l show ?thesis
      by (simp add: merkle_skip.simps[of _ l])
  qed
qed

text \<open>The state of the sweep: the last node of its level, which is a left node.\<close>

definition sweep_inv :: "('a \<Rightarrow> 'a \<Rightarrow> 'a) \<Rightarrow> 'a list \<Rightarrow> nat \<Rightarrow> 'a list \<Rightarrow> nat \<Rightarrow> nat \<Rightarrow> 'a \<Rightarrow> bool \<Rightarrow> 'a list \<Rightarrow> bool" where
  "sweep_inv H xs p path0 c l h matchh path \<longleftrightarrow> at_node H xs p c l h matchh path \<and> bit c l \<and> c div 2 ^ l = length (tree_level H xs l) \<and>
     c \<le> 2 ^ 31 \<and> (\<forall>b>l. length xs div 2 ^ b = c div 2 ^ b) \<and> (\<forall>j<l. 1 < length (tree_level H xs j)) \<and> (\<not> matchh \<longrightarrow> path = path0)"

text \<open>Pairing the last node with itself.\<close>

lemma sweep_pair:
  assumes "sweep_inv H xs p path0 c l h matchh path" "c \<noteq> 2 ^ l" "p < length xs" "leaves_inv H xs p (length xs) inner ml path0"
  defines "c' \<equiv> c + 2 ^ l"
  shows "at_node H xs p c' (Suc l) (H h h) matchh (if matchh then path @ [h] else path)"
    "left_nodes H xs p c' (Suc l) inner ml path0" "c' \<le> 2 ^ 31" "c' div 2 ^ Suc l = length (tree_level H xs (Suc l))"
    "1 < length (tree_level H xs l)"
proof -
  define T q where "T = tree_level H xs l" and "q = p div 2 ^ l"
  have inv: "2 ^ l dvd c" "h = T ! (c div 2 ^ l - 1)" "matchh \<longleftrightarrow> q = c div 2 ^ l - 1" "matchh \<longrightarrow> path = siblings H xs p l"
    "bit c l" "c div 2 ^ l = length T" "c \<le> 2 ^ 31" "\<And>b. l < b \<Longrightarrow> length xs div 2 ^ b = c div 2 ^ b"
    using assms(1) by (simp_all add: sweep_inv_def at_node_def T_def q_def)
  have "odd (length T)" using inv(5,6) by (simp add: bit_iff_odd)
  then obtain k where k: "length T = 2 * k + 1" by (rule oddE)
  have c: "c = 2 ^ l * (2 * k + 1)" using inv(1,6) k by (metis dvd_mult_div_cancel)
  then have "k \<noteq> 0" using assms(2) by auto
  have c': "c' = 2 ^ Suc l * (k + 1)" by (simp add: c'_def c algebra_simps)
  have "q < 2 * k + 1" using leaf_in_level[OF assms(3), of l H] k by (simp add: T_def q_def)
  then have m: "matchh \<longleftrightarrow> p div 2 ^ Suc l = k"
    using inv(3,6) k by (simp only: power_Suc2 div_mult2_eq flip: q_def) auto
  have h: "H h h = tree_level H xs (Suc l) ! k" using tree_level_last[of H xs l "k + 1"] inv(2,6) k by (simp add: T_def)
  have "sibling T (2 * k) = T ! (2 * k)" using k by (simp add: sibling_def)
  then have "matchh \<longrightarrow> path @ [h] = siblings H xs p (Suc l)" using inv(2,3,4,6) k unfolding T_def q_def by simp
  then show "at_node H xs p c' (Suc l) (H h h) matchh (if matchh then path @ [h] else path)"
    using m h k c' by (simp add: at_node_def length_tree_level_Suc T_def del: power_Suc)
  show "c' div 2 ^ Suc l = length (tree_level H xs (Suc l))" using k c' by (simp add: length_tree_level_Suc T_def del: power_Suc)
  show "1 < length (tree_level H xs l)" using k \<open>k \<noteq> 0\<close> by (simp add: T_def)
  show "c' \<le> 2 ^ 31"
  proof -
    have "2 ^ l * 2 \<le> c" using \<open>k \<noteq> 0\<close> by (simp add: c)
    then have "(2::nat) ^ Suc l \<le> 2 ^ 31" using inv(7) by (simp add: mult.commute)
    then have "Suc l \<le> 31" by (rule power_le_imp_le_exp[rotated]) simp
    then obtain j where "31 = Suc l + j" using le_Suc_ex by blast
    then have e: "(2::nat) ^ 31 = 2 ^ Suc l * 2 ^ j" by (simp only: power_add)
    have "2 ^ l * (2 * k + 1) \<le> 2 ^ l * (2 * 2 ^ j)" using inv(7) unfolding c e by (simp only: power_Suc2 mult.assoc)
    then have "2 * k + 1 \<le> 2 * 2 ^ j" by (rule mult_left_le_imp_le) simp
    then have "k + 1 \<le> 2 ^ j" by linarith
    then show ?thesis unfolding c' e by (rule mult_le_mono2)
  qed
  show "left_nodes H xs p c' (Suc l) inner ml path0"
    unfolding left_nodes_def
  proof (intro allI impI)
    fix b assume b: "Suc l \<le> b" "2 ^ Suc b dvd c'"
    have "(2::nat) ^ l \<le> 2 ^ b" using b(1) by (intro power_increasing) simp_all
    then have d: "length xs div 2 ^ b = c' div 2 ^ b - 1" "bit (length xs) b"
      using div_pow_pred[OF b(2), of "2 ^ l"] inv(8)[of b] b(1) by (simp_all add: c'_def bit_iff_odd)
    then have "length xs div 2 ^ b - 1 = c' div 2 ^ b - 2" by simp
    then show "inner ! b = tree_level H xs b ! (c' div 2 ^ b - 2) \<and> (ml = int b \<longleftrightarrow> p div 2 ^ b = c' div 2 ^ b - 2) \<and>
        (ml = int b \<longrightarrow> path0 = siblings H xs p b)"
      using assms(4) d(2) by (simp add: leaves_inv_def)
  qed
qed

lemma sweep_next:
  assumes "sweep_inv H xs p path0 c l h matchh path" "c \<noteq> 2 ^ l" "p < length xs" "leaves_inv H xs p (length xs) inner ml path0"
  shows "\<exists>l' h' m' path'. merkle_up H inner (c + 2 ^ l) ml (l + 1) (H h h) matchh (if matchh then path @ [h] else path) = Some (l', h', m', path') \<and>
    sweep_inv H xs p path0 (c + 2 ^ l) l' h' m' path'"
proof -
  let ?c = "c + 2 ^ l"
  note pair = sweep_pair[OF assms]
  have inv: "c \<le> 2 ^ 31" "bit c l" "2 ^ l dvd c" "\<And>b. l < b \<Longrightarrow> length xs div 2 ^ b = c div 2 ^ b" "\<forall>j<l. 1 < length (tree_level H xs j)"
    "\<not> matchh \<longrightarrow> path = path0"
    using assms(1) by (simp_all add: sweep_inv_def at_node_def)
  have "?c < 2 ^ 32" using pair(3) by simp
  from merkle_up_spec[OF pair(1,2) _ _ this] inv(6) obtain l' h' m' path' where
    up: "merkle_up H inner ?c ml (Suc l) (H h h) matchh (if matchh then path @ [h] else path) = Some (l', h', m', path')" "Suc l \<le> l'"
      "bit ?c l'" "at_node H xs p ?c l' h' m' path'" "\<not> m' \<longrightarrow> path' = path0" by auto
  have d: "2 ^ l' dvd ?c" using up(4) by (simp add: at_node_def)
  note ex = level_exact[OF pair(4) d up(2)]
  have "length xs div 2 ^ b = ?c div 2 ^ b" if "l' < b" for b
  proof -
    have "(2::nat) ^ l \<le> 2 ^ l'" using up(2) by (intro power_increasing) simp_all
    from div_below_pow[OF d up(3) that this] inv(4)[of b] that up(2) show ?thesis by simp
  qed
  moreover have "1 < length (tree_level H xs j)" if "j < l'" for j
  proof -
    consider "j < l" | "j = l" | "Suc l \<le> j" by linarith
    then show ?thesis using inv(5) pair(5) ex that by cases auto
  qed
  ultimately have "sweep_inv H xs p path0 ?c l' h' m' path'" using up(3-5) ex pair(3) by (simp add: sweep_inv_def)
  with up(1) show ?thesis by auto
qed

lemma merkle_sweep_spec:
  assumes "sweep_inv H xs p path0 c l h matchh path" "p < length xs" "leaves_inv H xs p (length xs) inner ml path0"
  shows "merkle_sweep H inner ml c l h matchh path = Some (merkle_path H xs p)"
  using assms
proof (induction H inner ml c l h matchh path rule: merkle_sweep.induct)
  case (1 H inner ml c l h matchh path)
  have inv: "at_node H xs p c l h matchh path" "c div 2 ^ l = length (tree_level H xs l)" "c \<le> 2 ^ 31" "bit c l"
    "\<forall>j<l. 1 < length (tree_level H xs j)"
    using "1.prems"(1) by (simp_all add: sweep_inv_def)
  have "0 < c" using inv(4) by (cases c) simp_all
  then have "2 ^ l \<le> c" using inv(1) by (auto simp: at_node_def intro: dvd_imp_le)
  then have "(2::nat) ^ l \<le> 2 ^ 31" using inv(3) by (rule le_trans)
  then have "l \<le> 31" by (rule power_le_imp_le_exp[rotated]) simp
  then have l: "\<not> 32 \<le> l" by simp
  show ?case
  proof (cases "c = 2 ^ l")
    case True
    then have "length (tree_level H xs l) = 1" using inv(2) by simp
    with leaf_in_level[OF "1.prems"(2), of l H] inv(1) True have "path = siblings H xs p l" by (simp add: at_node_def)
    with merkle_path_siblings[OF \<open>length (tree_level H xs l) = 1\<close> inv(5)] True l show ?thesis
      by (simp add: merkle_sweep.simps[of _ _ _ _ l])
  next
    case False
    from sweep_next[OF "1.prems"(1) False "1.prems"(2,3)] obtain l' h' m' path' where
      up: "merkle_up H inner (c + 2 ^ l) ml (l + 1) (H h h) matchh (if matchh then path @ [h] else path) = Some (l', h', m', path')"
        "sweep_inv H xs p path0 (c + 2 ^ l) l' h' m' path'" by blast
    have w: "(c + 2 ^ l) mod 2 ^ 32 = c + 2 ^ l" using up(2) by (simp add: sweep_inv_def)
    have "merkle_sweep H inner ml (c + 2 ^ l) l' h' m' path' = Some (merkle_path H xs p)"
      using "1.IH"[OF l False refl refl refl, unfolded w, OF up(1) refl refl refl] up(2) "1.prems"(2,3) by blast
    then show ?thesis using l False up(1) w by (simp add: merkle_sweep.simps[of _ _ _ _ l] Let_def)
  qed
qed

theorem MerkleComputation_path:
  assumes "p < length leaves" "length leaves \<le> 2 ^ 31"
  shows "MerkleComputation H leaves p = Some (merkle_path H leaves p)"
proof -
  let ?n = "length leaves"
  have n: "0 < ?n" "?n < 2 ^ 32" using assms by (cases leaves; simp)+
  obtain inner ml path where l: "merkle_leaves H p leaves 0 (replicate 32 uint256_0) (- 1) [] = Some (?n, inner, ml, path)"
    "leaves_inv H leaves p ?n inner ml path"
    using merkle_leaves_spec[of H leaves p 0 "replicate 32 uint256_0" "- 1" "[]" leaves, OF leaves_inv_init n(2)] by auto
  obtain k where k: "merkle_skip ?n 0 = Some k" "bit ?n k" "2 ^ k dvd ?n" using merkle_skip_spec[OF n, of 0] by auto
  have ex: "?n div 2 ^ k = length (tree_level H leaves k)" "\<forall>j<k. 1 < length (tree_level H leaves j)"
    using level_exact[of ?n 0 H leaves k] k(3) n(1) by auto
  have "at_node H leaves p ?n k (inner ! k) (ml = int k) path" using l(2) k(2,3) ex(1) by (auto simp: at_node_def leaves_inv_def)
  then have "sweep_inv H leaves p path ?n k (inner ! k) (ml = int k) path" using k(2) ex assms(2) by (simp add: sweep_inv_def)
  from merkle_sweep_spec[OF this assms(1) l(2)] l(1) k(1) n show ?thesis by (simp add: MerkleComputation_def)
qed

end
