(* ===== verification/Randomx_Cache.thy ===== *)
theory Randomx_Cache
  imports Pow Transaction
begin

text \<open>
  The proof-of-work hash of a header, \<open>CBlockHeader::GetPoWHash\<close> (\<open>primitives/block.cpp\<close>), with the cache it shares between
  threads.  The RandomX library is a parameter: \<open>randomx\<close> gives the hash of some bytes under a key, and what
  its functions return (addresses, failure) is chosen by the environment.  A cache or dataset is an
  allocated address that holds the key it was initialised with; a virtual machine refers to them and
  reads them when it hashes.  Using released memory, or passing a null pointer where the library
  forbids it, is \<open>None\<close>.

  Each critical section is one step, because it runs under the mutex; between the sections the threads interleave.
  While the library can allocate and create machines, calls that do not overlap, and overlapping
  calls that all ask for one seed, return the hash under the seed they ask for; a call that gets no
  machine returns zero, and overlapping calls for two seeds need not return either.
\<close>

section \<open>Model\<close>

text \<open>
  The static variables of the file, and the memory that belongs to the library.
\<close>

record RxGlobal =
  rx_cache :: "nat option"
  rx_dataset :: "nat option"
  rx_current_seed :: uint256
  rx_cache_version :: u64
  cache_mem :: "nat \<rightharpoonup> uint256"
  dataset_mem :: "nat \<rightharpoonup> uint256"

datatype randomx_vm = NullVm | DestroyedVm | Vm nat "nat option"

text \<open>The thread-local variables.\<close>

record RxThread =
  rx_vm :: randomx_vm
  rx_vm_seed :: uint256
  rx_vm_cache_version :: u64

text \<open>What the library returns to one call: the allocations, and whether \<open>randomx_create_vm\<close> succeeds.\<close>

record RxReturns =
  new_cache :: "nat option"
  new_dataset :: "nat option"
  vm_created :: bool

definition rx_global_init :: RxGlobal where
  "rx_global_init = \<lparr>rx_cache = None, rx_dataset = None, rx_current_seed = uint256_0, rx_cache_version = 0,
     cache_mem = Map.empty, dataset_mem = Map.empty\<rparr>"

definition rx_thread_init :: RxThread where
  "rx_thread_init = \<lparr>rx_vm = NullVm, rx_vm_seed = uint256_0, rx_vm_cache_version = 0\<rparr>"

text \<open>The test of the fast path, repeated before the virtual machine is replaced.\<close>

definition rx_stale :: "RxThread \<Rightarrow> uint256 \<Rightarrow> u64 \<Rightarrow> bool" where
  "rx_stale t seed version \<longleftrightarrow> rx_vm t = NullVm \<or> rx_vm_seed t \<noteq> seed \<or> rx_vm_cache_version t \<noteq> version"

text \<open>The first critical section: replace the cache (and the dataset) when the seed has changed.\<close>

definition rx_release :: "RxGlobal \<Rightarrow> RxGlobal" where
  "rx_release g =
     (let g = (case rx_cache g of None \<Rightarrow> g | Some c \<Rightarrow> g\<lparr>cache_mem := (cache_mem g)(c := None)\<rparr>) in
      case rx_dataset g of None \<Rightarrow> g | Some d \<Rightarrow> g\<lparr>dataset_mem := (dataset_mem g)(d := None), rx_dataset := None\<rparr>)"

definition rx_update_cache :: "bool \<Rightarrow> RxReturns \<Rightarrow> uint256 \<Rightarrow> RxGlobal \<Rightarrow> RxGlobal option" where
  "rx_update_cache fastmode lib seed g =
     (if rx_cache g = None \<or> seed \<noteq> rx_current_seed g then
        do { let g = rx_release g;
             c \<leftarrow> new_cache lib;
             let g = g\<lparr>rx_cache := Some c, cache_mem := (cache_mem g)(c \<mapsto> seed)\<rparr>;
             g \<leftarrow> (if fastmode
                   then do { d \<leftarrow> new_dataset lib;
                             Some (g\<lparr>rx_dataset := Some d, dataset_mem := (dataset_mem g)(d \<mapsto> seed)\<rparr>) }
                   else Some g);
             Some (g\<lparr>rx_current_seed := seed, rx_cache_version := rx_cache_version g + 1\<rparr>) }
      else Some g)"

text \<open>Replacing the virtual machine, with the pointers and the version read under the shared lock.\<close>

definition rx_build_vm ::
    "RxReturns \<Rightarrow> uint256 \<Rightarrow> nat option \<Rightarrow> nat option \<Rightarrow> u64 \<Rightarrow> RxGlobal \<Rightarrow> RxThread \<Rightarrow> RxThread option" where
  "rx_build_vm lib seed cache_ptr dataset_ptr version g t =
     (if rx_stale t seed version then
        do { t \<leftarrow> (case rx_vm t of NullVm \<Rightarrow> Some t | DestroyedVm \<Rightarrow> None | Vm _ _ \<Rightarrow> Some (t\<lparr>rx_vm := DestroyedVm\<rparr>));
             case cache_ptr of
               None \<Rightarrow> Some t
             | Some c \<Rightarrow>
                 do { _ \<leftarrow> cache_mem g c;
                      _ \<leftarrow> (case dataset_ptr of None \<Rightarrow> Some [] | Some d \<Rightarrow> dataset_mem g d);
                      Some (t\<lparr>rx_vm := (if vm_created lib then Vm c dataset_ptr else NullVm),
                              rx_vm_seed := seed, rx_vm_cache_version := version\<rparr>) } }
      else Some t)"

text \<open>The hash: from the dataset in full-memory mode, from the cache otherwise.\<close>

definition rx_hash :: "(uint256 \<Rightarrow> bytes \<Rightarrow> uint256) \<Rightarrow> CBlockHeader \<Rightarrow> RxGlobal \<Rightarrow> RxThread \<Rightarrow> uint256 option" where
  "rx_hash randomx header g t =
     (case rx_vm t of
        NullVm \<Rightarrow> Some uint256_0
      | DestroyedVm \<Rightarrow> None
      | Vm c d \<Rightarrow> do { key \<leftarrow> (case d of None \<Rightarrow> cache_mem g c | Some d \<Rightarrow> dataset_mem g d);
                      Some (randomx key (Serialize_CBlockHeader header)) })"

definition CBlockHeader_GetPoWHash ::
    "(uint256 \<Rightarrow> bytes \<Rightarrow> uint256) \<Rightarrow> bool \<Rightarrow> RxReturns \<Rightarrow> CBlockHeader \<Rightarrow> uint256 \<Rightarrow> RxGlobal \<Rightarrow> RxThread \<Rightarrow>
     (uint256 \<times> RxGlobal \<times> RxThread) option" where
  "CBlockHeader_GetPoWHash randomx fastmode lib header seed g t =
     do { (g, t) \<leftarrow>
            (if rx_stale t seed (rx_cache_version g) then
               do { g \<leftarrow> rx_update_cache fastmode lib seed g;
                    t \<leftarrow> rx_build_vm lib seed (rx_cache g) (rx_dataset g) (rx_cache_version g) g t;
                    Some (g, t) }
             else Some (g, t));
          r \<leftarrow> rx_hash randomx header g t;
          Some (r, g, t) }"

subsection \<open>Interleaved threads\<close>

text \<open>Where a thread is inside \<open>GetPoWHash\<close>; a finished call keeps its arguments and result.\<close>

datatype rx_pc =
    Rx_idle
  | Rx_check CBlockHeader uint256
  | Rx_update CBlockHeader uint256
  | Rx_read CBlockHeader uint256
  | Rx_build CBlockHeader uint256 "nat option" "nat option" u64
  | Rx_hash CBlockHeader uint256
  | Rx_done CBlockHeader uint256 uint256

record RxSys =
  rx_global :: RxGlobal
  rx_thread :: "nat \<Rightarrow> RxThread"
  rx_at :: "nat \<Rightarrow> rx_pc"

datatype rx_event = RxCall nat CBlockHeader uint256 | RxStep nat RxReturns

definition rx_sys_init :: RxSys where
  "rx_sys_init = \<lparr>rx_global = rx_global_init, rx_thread = (\<lambda>_. rx_thread_init), rx_at = (\<lambda>_. Rx_idle)\<rparr>"

text \<open>One step of one thread.\<close>

definition rx_advance ::
    "(uint256 \<Rightarrow> bytes \<Rightarrow> uint256) \<Rightarrow> bool \<Rightarrow> RxReturns \<Rightarrow> RxGlobal \<times> RxThread \<times> rx_pc \<Rightarrow> (RxGlobal \<times> RxThread \<times> rx_pc) option" where
  "rx_advance randomx fastmode lib st =
     (case st of (g, t, pc) \<Rightarrow>
       (case pc of
          Rx_idle \<Rightarrow> Some st
        | Rx_check h seed \<Rightarrow> Some (g, t, if rx_stale t seed (rx_cache_version g) then Rx_update h seed else Rx_hash h seed)
        | Rx_update h seed \<Rightarrow> do { g \<leftarrow> rx_update_cache fastmode lib seed g; Some (g, t, Rx_read h seed) }
        | Rx_read h seed \<Rightarrow> Some (g, t, Rx_build h seed (rx_cache g) (rx_dataset g) (rx_cache_version g))
        | Rx_build h seed c d v \<Rightarrow> do { t \<leftarrow> rx_build_vm lib seed c d v g t; Some (g, t, Rx_hash h seed) }
        | Rx_hash h seed \<Rightarrow> do { r \<leftarrow> rx_hash randomx h g t; Some (g, t, Rx_done h seed r) }
        | Rx_done h seed r \<Rightarrow> Some st))"

text \<open>An event: a thread that is not inside a call starts one, or a thread makes its next step.\<close>

definition rx_exec :: "(uint256 \<Rightarrow> bytes \<Rightarrow> uint256) \<Rightarrow> bool \<Rightarrow> RxSys \<Rightarrow> rx_event \<Rightarrow> RxSys option" where
  "rx_exec randomx fastmode s ev =
     (case ev of
        RxCall i h seed \<Rightarrow>
          Some (case rx_at s i of
                  Rx_idle \<Rightarrow> s\<lparr>rx_at := (rx_at s)(i := Rx_check h seed)\<rparr>
                | Rx_done _ _ _ \<Rightarrow> s\<lparr>rx_at := (rx_at s)(i := Rx_check h seed)\<rparr>
                | _ \<Rightarrow> s)
      | RxStep i lib \<Rightarrow>
          do { (g, t, pc) \<leftarrow> rx_advance randomx fastmode lib (rx_global s, rx_thread s i, rx_at s i);
               Some \<lparr>rx_global = g, rx_thread = (rx_thread s)(i := t), rx_at = (rx_at s)(i := pc)\<rparr> })"

fun rx_run :: "(uint256 \<Rightarrow> bytes \<Rightarrow> uint256) \<Rightarrow> bool \<Rightarrow> rx_event list \<Rightarrow> RxSys \<Rightarrow> RxSys option" where
  "rx_run randomx fastmode [] s = Some s"
| "rx_run randomx fastmode (e # es) s = do { s \<leftarrow> rx_exec randomx fastmode s e; rx_run randomx fastmode es s }"

text \<open>Calls that do not overlap: each returns before the next one starts.\<close>

type_synonym rx_call = "nat \<times> CBlockHeader \<times> uint256 \<times> RxReturns"

fun rx_calls ::
    "(uint256 \<Rightarrow> bytes \<Rightarrow> uint256) \<Rightarrow> bool \<Rightarrow> rx_call list \<Rightarrow> RxGlobal \<Rightarrow> (nat \<Rightarrow> RxThread) \<Rightarrow>
     (uint256 list \<times> RxGlobal \<times> (nat \<Rightarrow> RxThread)) option" where
  "rx_calls randomx fastmode [] g ts = Some ([], g, ts)"
| "rx_calls randomx fastmode ((i, h, seed, lib) # cs) g ts =
     do { (r, g, t) \<leftarrow> CBlockHeader_GetPoWHash randomx fastmode lib h seed g (ts i);
          (rs, g, ts) \<leftarrow> rx_calls randomx fastmode cs g (ts(i := t));
          Some (r # rs, g, ts) }"

lemmas rx_step_defs = rx_advance_def rx_exec_def

text \<open>A thread that runs through a call on its own computes what \<open>GetPoWHash\<close> computes.\<close>

lemma rx_run_one_call:
  assumes "rx_at s i = Rx_idle \<or> (\<exists>h0 s0 r0. rx_at s i = Rx_done h0 s0 r0)"
  shows "rx_run randomx fastmode (RxCall i h seed # replicate 5 (RxStep i lib)) s =
    map_option (\<lambda>(r, g, t). \<lparr>rx_global = g, rx_thread = (rx_thread s)(i := t), rx_at = (rx_at s)(i := Rx_done h seed r)\<rparr>)
      (CBlockHeader_GetPoWHash randomx fastmode lib h seed (rx_global s) (rx_thread s i))"
proof -
  have "rx_exec randomx fastmode s (RxCall i h seed) = Some (s\<lparr>rx_at := (rx_at s)(i := Rx_check h seed)\<rparr>)"
    using assms by (auto simp: rx_exec_def)
  then show ?thesis
    by (cases "rx_stale (rx_thread s i) seed (rx_cache_version (rx_global s))")
       (auto simp: rx_step_defs CBlockHeader_GetPoWHash_def eval_nat_numeral map_option_bind intro!: Option.bind_cong
        split: option.split)
qed

section \<open>Calls that do not overlap\<close>

text \<open>The shared variables: exactly the current cache and dataset are allocated, under the current seed.\<close>

definition rx_ok :: "bool \<Rightarrow> RxGlobal \<Rightarrow> bool" where
  "rx_ok fastmode g \<longleftrightarrow>
     (case rx_cache g of
        None \<Rightarrow> rx_dataset g = None \<and> cache_mem g = Map.empty \<and> dataset_mem g = Map.empty
      | Some c \<Rightarrow> cache_mem g = [c \<mapsto> rx_current_seed g] \<and>
          (if fastmode then \<exists>d. rx_dataset g = Some d \<and> dataset_mem g = [d \<mapsto> rx_current_seed g]
           else rx_dataset g = None \<and> dataset_mem g = Map.empty))"

text \<open>A thread: a virtual machine of the current version refers to the current cache.\<close>

definition rx_thread_ok :: "nat \<Rightarrow> RxGlobal \<Rightarrow> RxThread \<Rightarrow> bool" where
  "rx_thread_ok n g t \<longleftrightarrow> rx_vm t \<noteq> DestroyedVm \<and>
     (\<forall>c d. rx_vm t = Vm c d \<longrightarrow> (\<exists>j\<le>n. rx_vm_cache_version t = of_nat j \<and>
        (j = n \<longrightarrow> rx_cache g = Some c \<and> rx_dataset g = d \<and> rx_vm_seed t = rx_current_seed g)))"

definition rx_allocs :: "RxReturns \<Rightarrow> bool" where
  "rx_allocs lib \<longleftrightarrow> new_cache lib \<noteq> None \<and> new_dataset lib \<noteq> None"

lemma rx_release_ok:
  "rx_ok fastmode g \<Longrightarrow> rx_release g = g\<lparr>cache_mem := Map.empty, dataset_mem := Map.empty, rx_dataset := None\<rparr>"
  by (cases "rx_cache g"; cases "rx_dataset g") (auto simp: rx_ok_def rx_release_def split: if_splits)

lemma rx_update_cache_ok:
  assumes "rx_ok fastmode g" "rx_allocs lib"
  obtains g' where "rx_update_cache fastmode lib seed g = Some g'" "rx_ok fastmode g'" "rx_cache g' \<noteq> None"
    "rx_current_seed g' = seed"
    "g' = g \<or> rx_cache_version g' = rx_cache_version g + 1"
proof (cases "rx_cache g = None \<or> seed \<noteq> rx_current_seed g")
  case True
  obtain c d where lib: "new_cache lib = Some c" "new_dataset lib = Some d" using assms(2) by (auto simp: rx_allocs_def)
  define g' where "g' = g\<lparr>rx_cache := Some c, rx_dataset := (if fastmode then Some d else None), rx_current_seed := seed,
    rx_cache_version := rx_cache_version g + 1, cache_mem := [c \<mapsto> seed],
    dataset_mem := (if fastmode then [d \<mapsto> seed] else Map.empty)\<rparr>"
  have "rx_update_cache fastmode lib seed g = Some g'"
    using True lib by (simp add: rx_update_cache_def rx_release_ok[OF assms(1)] g'_def)
  moreover have "rx_ok fastmode g'" "rx_cache g' \<noteq> None" "rx_current_seed g' = seed" "rx_cache_version g' = rx_cache_version g + 1"
    by (simp_all add: g'_def rx_ok_def)
  ultimately show ?thesis using that[of g'] by blast
next
  case False
  then have "rx_update_cache fastmode lib seed g = Some g" unfolding rx_update_cache_def by (rule if_not_P)
  with assms(1) False show ?thesis by (intro that[of g]) auto
qed

lemma of_nat_u64_eq: "a < 2 ^ 64 \<Longrightarrow> b < 2 ^ 64 \<Longrightarrow> (of_nat a :: u64) = of_nat b \<longleftrightarrow> a = b"
  by (auto simp: unat_of_nat dest: arg_cong[where f = unat])

text \<open>The test: with a version counter that has not wrapped, a machine that passes it is current.\<close>

lemma rx_fresh_current:
  assumes "rx_thread_ok n g t" "rx_cache_version g = of_nat n" "n < 2 ^ 64" "\<not> rx_stale t seed (rx_cache_version g)"
  obtains c d where "rx_vm t = Vm c d" "rx_cache g = Some c" "rx_dataset g = d" "rx_current_seed g = seed"
proof -
  obtain c d where vm: "rx_vm t = Vm c d" using assms by (cases "rx_vm t") (auto simp: rx_thread_ok_def rx_stale_def)
  then obtain j where j: "j \<le> n" "rx_vm_cache_version t = of_nat j"
    "j = n \<longrightarrow> rx_cache g = Some c \<and> rx_dataset g = d \<and> rx_vm_seed t = rx_current_seed g"
    using assms(1) by (auto simp: rx_thread_ok_def)
  have "(of_nat j :: u64) = of_nat n" using assms(2,4) j by (simp add: rx_stale_def)
  then have "j = n" using j(1) assms(3) of_nat_u64_eq[of j n] by linarith
  then show ?thesis using that[of c d] j(3) vm assms(4) by (simp add: rx_stale_def)
qed

lemma rx_ok_key:
  assumes "rx_ok fastmode g" "rx_cache g = Some c"
  shows "cache_mem g c = Some (rx_current_seed g)" "rx_dataset g = Some d \<Longrightarrow> dataset_mem g d = Some (rx_current_seed g)"
  using assms by (auto simp: rx_ok_def split: if_splits)

lemma rx_hash_current:
  assumes "rx_ok fastmode g" "rx_vm t = Vm c d" "rx_cache g = Some c" "rx_dataset g = d"
  shows "rx_hash randomx h g t = Some (randomx (rx_current_seed g) (Serialize_CBlockHeader h))"
  using rx_ok_key[OF assms(1,3)] assms by (cases d) (simp_all add: rx_hash_def)

lemma rx_build_vm_current:
  assumes "rx_ok fastmode g" "rx_cache g = Some c" "rx_vm t \<noteq> DestroyedVm" "rx_stale t seed v"
  shows "rx_build_vm lib seed (rx_cache g) (rx_dataset g) v g t =
    Some (t\<lparr>rx_vm := (if vm_created lib then Vm c (rx_dataset g) else NullVm), rx_vm_seed := seed, rx_vm_cache_version := v\<rparr>)"
  using assms rx_ok_key[OF assms(1,2)] by (auto simp: rx_build_vm_def split: option.splits randomx_vm.splits)

text \<open>One call.  The other threads stay correct, because a new cache has a new version.\<close>

definition rx_expected :: "(uint256 \<Rightarrow> bytes \<Rightarrow> uint256) \<Rightarrow> RxReturns \<Rightarrow> CBlockHeader \<Rightarrow> uint256 \<Rightarrow> bool \<Rightarrow> uint256" where
  "rx_expected randomx lib h seed stale =
     (if stale \<and> \<not> vm_created lib then uint256_0 else randomx seed (Serialize_CBlockHeader h))"

lemma rx_thread_ok_Suc: "rx_thread_ok n g t \<Longrightarrow> rx_thread_ok (Suc n) g' t"
  unfolding rx_thread_ok_def by (metis le_SucI Suc_n_not_le_n)

lemma rx_version_bound:
  assumes "rx_thread_ok n g t" "Suc n < 2 ^ 64"
  shows "rx_vm t = NullVm \<or> rx_vm_cache_version t \<noteq> of_nat (Suc n)"
proof (cases "rx_vm t")
  case (Vm c d)
  then obtain j where j: "j \<le> n" "rx_vm_cache_version t = of_nat j" using assms(1) by (auto simp: rx_thread_ok_def)
  have "(of_nat j :: u64) \<noteq> of_nat (Suc n)"
    using of_nat_u64_eq[of j "Suc n"] j(1) assms(2) by linarith
  then show ?thesis using j by simp
qed (use assms in \<open>simp_all add: rx_thread_ok_def\<close>)

lemma GetPoWHash_call:
  assumes ok: "rx_ok fastmode g" "rx_cache_version g = of_nat n" "rx_thread_ok n g t" "rx_allocs lib" and n: "Suc n < 2 ^ 64"
  obtains g' t' n' where
    "CBlockHeader_GetPoWHash randomx fastmode lib h seed g t =
       Some (rx_expected randomx lib h seed (rx_stale t seed (rx_cache_version g)), g', t')"
    "n' \<le> Suc n" "rx_ok fastmode g'" "rx_cache_version g' = of_nat n'" "rx_thread_ok n' g' t'"
    "\<And>u. rx_thread_ok n g u \<Longrightarrow> rx_thread_ok n' g' u"
proof (cases "rx_stale t seed (rx_cache_version g)")
  case False
  with rx_fresh_current[OF ok(3,2)] n obtain c d
    where "rx_vm t = Vm c d" "rx_cache g = Some c" "rx_dataset g = d" "rx_current_seed g = seed" by (metis Suc_lessD)
  with False rx_hash_current[OF ok(1)]
  have "CBlockHeader_GetPoWHash randomx fastmode lib h seed g t = Some (rx_expected randomx lib h seed False, g, t)"
    by (simp add: CBlockHeader_GetPoWHash_def rx_expected_def)
  then show ?thesis using that[of g t n] ok False by simp
next
  case True
  obtain g' where g': "rx_update_cache fastmode lib seed g = Some g'" "rx_ok fastmode g'" "rx_cache g' \<noteq> None"
    "rx_current_seed g' = seed" "g' = g \<or> rx_cache_version g' = rx_cache_version g + 1"
    using rx_update_cache_ok[OF ok(1,4)] by metis
  obtain n' where n': "n' \<le> Suc n" "rx_cache_version g' = of_nat n'" "\<And>u. rx_thread_ok n g u \<Longrightarrow> rx_thread_ok n' g' u"
  proof (cases "g' = g")
    case True then show ?thesis using that[of n] ok(2) by simp
  next
    case False then show ?thesis using that[of "Suc n"] ok(2) g'(5) rx_thread_ok_Suc by (auto simp: add.commute)
  qed
  obtain c where c: "rx_cache g' = Some c" using g'(3) by blast
  have stale: "rx_stale t seed (rx_cache_version g')"
  proof (cases "g' = g")
    case False
    then have "rx_cache_version g' = of_nat (Suc n)" using g'(5) ok(2) by (simp add: add.commute)
    then show ?thesis using rx_version_bound[OF ok(3) n] by (auto simp: rx_stale_def)
  qed (use True in simp)
  define t' where "t' = t\<lparr>rx_vm := (if vm_created lib then Vm c (rx_dataset g') else NullVm),
    rx_vm_seed := seed, rx_vm_cache_version := rx_cache_version g'\<rparr>"
  have build: "rx_build_vm lib seed (rx_cache g') (rx_dataset g') (rx_cache_version g') g' t = Some t'"
    using rx_build_vm_current[OF g'(2) c _ stale] ok(3) by (simp add: t'_def rx_thread_ok_def)
  have "rx_hash randomx h g' t' = Some (rx_expected randomx lib h seed True)"
    using rx_hash_current[OF g'(2), of t' c] c g'(4) by (auto simp: rx_expected_def t'_def rx_hash_def)
  then have "CBlockHeader_GetPoWHash randomx fastmode lib h seed g t = Some (rx_expected randomx lib h seed True, g', t')"
    using True g'(1) build by (simp add: CBlockHeader_GetPoWHash_def)
  moreover have "rx_thread_ok n' g' t'" using n'(2) c g'(4) by (auto simp: rx_thread_ok_def t'_def)
  ultimately show ?thesis using that[of g' t' n'] n' g'(2) True by simp
qed

text \<open>A sequence of calls, from the start.\<close>

lemma rx_calls_inv:
  assumes "rx_ok fastmode g" "rx_cache_version g = of_nat n" "\<forall>i. rx_thread_ok n g (ts i)" "n + length cs < 2 ^ 64"
    "\<forall>(i, h, seed, lib) \<in> set cs. rx_allocs lib"
  shows "\<exists>rs g' ts' n'. rx_calls randomx fastmode cs g ts = Some (rs, g', ts') \<and> n' \<le> n + length cs \<and>
    rx_ok fastmode g' \<and> rx_cache_version g' = of_nat n' \<and> (\<forall>i. rx_thread_ok n' g' (ts' i)) \<and>
    ((\<forall>(i, h, seed, lib) \<in> set cs. vm_created lib) \<longrightarrow> rs = map (\<lambda>(i, h, seed, lib). randomx seed (Serialize_CBlockHeader h)) cs)"
  using assms
proof (induction cs arbitrary: g ts n)
  case (Cons call cs)
  obtain i h seed lib where call: "call = (i, h, seed, lib)" by (cases call)
  then have lib: "rx_allocs lib" using Cons.prems(5) by auto
  have "Suc n < 2 ^ 64" using Cons.prems(4) by simp
  then obtain g' t' n' where g': "CBlockHeader_GetPoWHash randomx fastmode lib h seed g (ts i) =
      Some (rx_expected randomx lib h seed (rx_stale (ts i) seed (rx_cache_version g)), g', t')"
    "n' \<le> Suc n" "rx_ok fastmode g'" "rx_cache_version g' = of_nat n'" "rx_thread_ok n' g' t'"
    "\<And>u. rx_thread_ok n g u \<Longrightarrow> rx_thread_ok n' g' u"
    using GetPoWHash_call[OF Cons.prems(1,2) _ lib] Cons.prems(3) by metis
  then have "\<forall>k. rx_thread_ok n' g' ((ts(i := t')) k)" "n' + length cs < 2 ^ 64" using Cons.prems(3,4) by simp_all
  moreover have "\<forall>(i, h, seed, lib) \<in> set cs. rx_allocs lib" using Cons.prems(5) by simp
  ultimately obtain rs g2 ts2 n2
    where c: "rx_calls randomx fastmode cs g' (ts(i := t')) = Some (rs, g2, ts2)" "n2 \<le> n' + length cs"
      "rx_ok fastmode g2" "rx_cache_version g2 = of_nat n2" "\<forall>i. rx_thread_ok n2 g2 (ts2 i)"
      "(\<forall>(i, h, seed, lib) \<in> set cs. vm_created lib) \<longrightarrow> rs = map (\<lambda>(i, h, seed, lib). randomx seed (Serialize_CBlockHeader h)) cs"
    using Cons.IH[OF g'(3,4)] by blast
  have "n2 \<le> n + length (call # cs)" using c(2) g'(2) by simp
  moreover have "rx_calls randomx fastmode (call # cs) g ts =
      Some (rx_expected randomx lib h seed (rx_stale (ts i) seed (rx_cache_version g)) # rs, g2, ts2)"
    using g'(1) c(1) call by simp
  ultimately show ?case using c(3-6) call by (fastforce simp: rx_expected_def)
qed auto

lemma rx_calls_ok:
  assumes "rx_ok fastmode g" "rx_cache_version g = of_nat n" "\<forall>i. rx_thread_ok n g (ts i)" "n + length cs < 2 ^ 64"
    "\<forall>(i, h, seed, lib) \<in> set cs. rx_allocs lib \<and> vm_created lib"
  shows "\<exists>g' ts'. rx_calls randomx fastmode cs g ts =
    Some (map (\<lambda>(i, h, seed, lib). randomx seed (Serialize_CBlockHeader h)) cs, g', ts')"
proof -
  have "\<forall>(i, h, seed, lib) \<in> set cs. rx_allocs lib" "\<forall>(i, h, seed, lib) \<in> set cs. vm_created lib" using assms(5) by auto
  with rx_calls_inv[OF assms(1-4), of randomx] show ?thesis by blast
qed

lemma rx_init_ok: "rx_ok fastmode rx_global_init" "rx_cache_version rx_global_init = of_nat 0" "rx_thread_ok 0 g rx_thread_init"
  by (simp_all add: rx_ok_def rx_global_init_def rx_thread_ok_def rx_thread_init_def)

text \<open>The value returned without a virtual machine, zero, passes every proof-of-work check.\<close>

lemma zero_hash_accepted:
  assumes "length (powLimit params) = 32"
  shows "CheckProofOfWork False uint256_0 nbits params \<longleftrightarrow> DeriveTarget nbits (powLimit params) \<noteq> None"
  using CheckProofOfWorkImpl_iff[of uint256_0 params nbits] DeriveTarget_eq[OF assms] assms
  by (simp add: CheckProofOfWork_def uint256_0_def)

section \<open>Overlapping calls for one seed\<close>

text \<open>Once the cache exists it is never replaced, so what a thread has read stays valid.\<close>

definition rx_single :: "uint256 \<Rightarrow> bool \<Rightarrow> RxGlobal \<Rightarrow> bool" where
  "rx_single s fastmode g \<longleftrightarrow> rx_ok fastmode g \<and>
     (if rx_cache g = None then rx_cache_version g = 0 else rx_cache_version g = 1 \<and> rx_current_seed g = s)"

definition rx_single_thread :: "uint256 \<Rightarrow> RxGlobal \<Rightarrow> RxThread \<Rightarrow> bool" where
  "rx_single_thread s g t \<longleftrightarrow> rx_vm t = NullVm \<or>
     (\<exists>c. rx_vm t = Vm c (rx_dataset g) \<and> rx_cache g = Some c \<and> rx_vm_seed t = s \<and> rx_vm_cache_version t = 1)"

definition rx_single_pc ::
    "(uint256 \<Rightarrow> bytes \<Rightarrow> uint256) \<Rightarrow> bool \<Rightarrow> uint256 \<Rightarrow> RxGlobal \<Rightarrow> RxThread \<Rightarrow> rx_pc \<Rightarrow> bool" where
  "rx_single_pc randomx created s g t pc =
     (case pc of
        Rx_idle \<Rightarrow> True
      | Rx_check h seed \<Rightarrow> seed = s
      | Rx_update h seed \<Rightarrow> seed = s
      | Rx_read h seed \<Rightarrow> seed = s \<and> rx_cache g \<noteq> None
      | Rx_build h seed c d v \<Rightarrow> seed = s \<and> c = rx_cache g \<and> c \<noteq> None \<and> d = rx_dataset g \<and> v = 1
      | Rx_hash h seed \<Rightarrow> seed = s \<and> (created \<longrightarrow> rx_vm t \<noteq> NullVm)
      | Rx_done h seed r \<Rightarrow> seed = s \<and> (r = randomx s (Serialize_CBlockHeader h) \<or> \<not> created \<and> r = uint256_0))"

lemma rx_single_frame:
  assumes "g' = g \<or> rx_cache g = None"
  shows "rx_single_thread s g t \<Longrightarrow> rx_single_thread s g' t" "rx_single_pc randomx created s g t pc \<Longrightarrow> rx_single_pc randomx created s g' t pc"
  using assms by (auto simp: rx_single_thread_def rx_single_pc_def split: rx_pc.splits)

lemma rx_single_update:
  assumes "rx_single s fastmode g" "rx_allocs lib"
  obtains g' where "rx_update_cache fastmode lib s g = Some g'" "rx_single s fastmode g'" "rx_cache g' \<noteq> None"
    "g' = g \<or> rx_cache g = None"
proof (cases "rx_cache g = None")
  case True
  obtain g' where g': "rx_update_cache fastmode lib s g = Some g'" "rx_ok fastmode g'" "rx_cache g' \<noteq> None"
    "rx_current_seed g' = s" "g' = g \<or> rx_cache_version g' = rx_cache_version g + 1"
    using rx_update_cache_ok[OF _ assms(2)] assms(1) by (metis rx_single_def)
  have "rx_cache_version g' = 1" using g'(3,5) True assms(1) by (auto simp: rx_single_def)
  with g' True show ?thesis by (intro that[of g']) (simp_all add: rx_single_def)
next
  case False
  then have "\<not> (rx_cache g = None \<or> s \<noteq> rx_current_seed g)" using assms(1) by (simp add: rx_single_def)
  then have "rx_update_cache fastmode lib s g = Some g" unfolding rx_update_cache_def by (rule if_not_P)
  with assms(1) False show ?thesis by (intro that[of g]) auto
qed

lemma rx_single_build:
  assumes "rx_single s fastmode g" "rx_single_thread s g t" "rx_cache g \<noteq> None"
  obtains t' where "rx_build_vm lib s (rx_cache g) (rx_dataset g) 1 g t = Some t'" "rx_single_thread s g t'"
    "vm_created lib \<longrightarrow> rx_vm t' \<noteq> NullVm"
proof (cases "rx_stale t s 1")
  case True
  obtain c where c: "rx_cache g = Some c" using assms(3) by blast
  have "rx_ok fastmode g" "rx_vm t \<noteq> DestroyedVm" using assms by (auto simp: rx_single_def rx_single_thread_def)
  from rx_build_vm_current[OF this(1) c this(2) True] show ?thesis
    by (rule that) (simp_all add: rx_single_thread_def c)
next
  case False
  with assms(2) show ?thesis by (intro that[of t]) (simp_all add: rx_build_vm_def rx_stale_def)
qed

lemma rx_single_hash:
  assumes "rx_single s fastmode g" "rx_single_thread s g t"
  shows "rx_hash randomx h g t = Some (if rx_vm t = NullVm then uint256_0 else randomx s (Serialize_CBlockHeader h))"
proof (cases "rx_vm t = NullVm")
  case False
  then obtain c where c: "rx_vm t = Vm c (rx_dataset g)" "rx_cache g = Some c" using assms(2) by (auto simp: rx_single_thread_def)
  then have "rx_ok fastmode g" "rx_current_seed g = s" using assms(1) by (simp_all add: rx_single_def)
  with rx_hash_current[OF this(1) c refl] False show ?thesis by simp
qed (simp add: rx_hash_def)

lemma rx_single_advance:
  assumes g: "rx_single s fastmode g" and t: "rx_single_thread s g t" and pc: "rx_single_pc randomx created s g t pc" and lib: "rx_allocs lib" "created \<longrightarrow> vm_created lib"
  obtains g' t' pc' where "rx_advance randomx fastmode lib (g, t, pc) = Some (g', t', pc')" "rx_single s fastmode g'"
    "rx_single_thread s g' t'" "rx_single_pc randomx created s g' t' pc'" "g' = g \<or> rx_cache g = None"
proof (cases pc)
  case (Rx_update h seed)
  obtain g' where "rx_update_cache fastmode lib s g = Some g'" "rx_single s fastmode g'" "rx_cache g' \<noteq> None" "g' = g \<or> rx_cache g = None"
    using rx_single_update[OF g lib(1)] .
  with Rx_update pc rx_single_frame(1)[OF _ t] show ?thesis
    by (intro that[of g' t "Rx_read h s"]) (simp_all add: rx_advance_def rx_single_pc_def)
next
  case (Rx_build h seed c d v)
  with pc have b: "seed = s" "c = rx_cache g" "rx_cache g \<noteq> None" "d = rx_dataset g" "v = 1" by (auto simp: rx_single_pc_def)
  obtain t' where "rx_build_vm lib s (rx_cache g) (rx_dataset g) 1 g t = Some t'" "rx_single_thread s g t'"
    "vm_created lib \<longrightarrow> rx_vm t' \<noteq> NullVm" using rx_single_build[OF g t b(3)] .
  with Rx_build b g lib(2) show ?thesis by (intro that[of g t' "Rx_hash h s"]) (simp_all add: rx_advance_def rx_single_pc_def)
next
  case (Rx_hash h seed)
  let ?r = "if rx_vm t = NullVm then uint256_0 else randomx s (Serialize_CBlockHeader h)"
  from Rx_hash pc g t rx_single_hash[OF g t, of randomx h] show ?thesis
    by (intro that[of g t "Rx_done h s ?r"]) (auto simp: rx_advance_def rx_single_pc_def)
next
  case (Rx_read h seed)
  with g pc have "rx_cache_version g = 1" by (simp add: rx_single_def rx_single_pc_def split: if_splits)
  with Rx_read pc g t show ?thesis
    by (intro that[of g t "Rx_build h s (rx_cache g) (rx_dataset g) 1"]) (simp_all add: rx_advance_def rx_single_pc_def)
next
  case (Rx_check h seed)
  with pc g t show ?thesis
    by (intro that[of g t "if rx_stale t s (rx_cache_version g) then Rx_update h s else Rx_hash h s"])
       (simp_all add: rx_advance_def rx_single_pc_def rx_stale_def)
qed (use g t pc that in \<open>simp_all add: rx_advance_def rx_single_pc_def\<close>)

definition rx_single_sys :: "(uint256 \<Rightarrow> bytes \<Rightarrow> uint256) \<Rightarrow> bool \<Rightarrow> uint256 \<Rightarrow> bool \<Rightarrow> RxSys \<Rightarrow> bool" where
  "rx_single_sys randomx created s fastmode st \<longleftrightarrow> rx_single s fastmode (rx_global st) \<and>
     (\<forall>i. rx_single_thread s (rx_global st) (rx_thread st i) \<and> rx_single_pc randomx created s (rx_global st) (rx_thread st i) (rx_at st i))"

text \<open>Every call asks for the seed, every allocation succeeds, and so does, where asked for, every creation of a machine.\<close>

definition rx_one_seed :: "bool \<Rightarrow> uint256 \<Rightarrow> rx_event \<Rightarrow> bool" where
  "rx_one_seed created s ev =
     (case ev of RxCall i h seed \<Rightarrow> seed = s | RxStep i lib \<Rightarrow> rx_allocs lib \<and> (created \<longrightarrow> vm_created lib))"

lemma rx_single_exec:
  assumes "rx_single_sys randomx created s fastmode st" "rx_one_seed created s ev"
  obtains st' where "rx_exec randomx fastmode st ev = Some st'" "rx_single_sys randomx created s fastmode st'"
proof (cases ev)
  case (RxCall i h seed)
  let ?st = "st\<lparr>rx_at := (rx_at st)(i := Rx_check h seed)\<rparr>"
  have "rx_exec randomx fastmode st ev = Some st \<or> rx_exec randomx fastmode st ev = Some ?st"
    using RxCall by (simp add: rx_exec_def split: rx_pc.split)
  moreover have "rx_single_sys randomx created s fastmode ?st"
    using assms RxCall by (simp add: rx_single_sys_def rx_one_seed_def) (simp add: rx_single_pc_def)
  ultimately show ?thesis using that assms(1) by blast
next
  case (RxStep i lib)
  let ?g = "rx_global st"
  have lib: "rx_allocs lib" "created \<longrightarrow> vm_created lib" and g: "rx_single s fastmode ?g" and ts: "\<And>k. rx_single_thread s ?g (rx_thread st k)"
    "\<And>k. rx_single_pc randomx created s ?g (rx_thread st k) (rx_at st k)"
    using assms RxStep by (simp_all add: rx_one_seed_def rx_single_sys_def)
  obtain g' t' pc' where a: "rx_advance randomx fastmode lib (?g, rx_thread st i, rx_at st i) = Some (g', t', pc')"
    "rx_single s fastmode g'" "rx_single_thread s g' t'" "rx_single_pc randomx created s g' t' pc'" "g' = ?g \<or> rx_cache ?g = None"
    using rx_single_advance[OF g ts lib] .
  show ?thesis
    using a rx_single_frame[OF a(5)] ts RxStep
    by (intro that[of "\<lparr>rx_global = g', rx_thread = (rx_thread st)(i := t'), rx_at = (rx_at st)(i := pc')\<rparr>"])
       (simp_all add: rx_exec_def rx_single_sys_def)
qed

lemma rx_single_run:
  assumes "rx_single_sys randomx created s fastmode st" "\<forall>ev \<in> set evs. rx_one_seed created s ev"
  shows "\<exists>st'. rx_run randomx fastmode evs st = Some st' \<and> rx_single_sys randomx created s fastmode st'"
  using assms
proof (induction evs arbitrary: st)
  case (Cons ev evs)
  obtain st' where "rx_exec randomx fastmode st ev = Some st'" "rx_single_sys randomx created s fastmode st'"
    using rx_single_exec[of randomx created s fastmode st ev] Cons.prems by auto
  with Cons show ?case by simp
qed simp

lemma rx_single_init: "rx_single_sys randomx created s fastmode rx_sys_init"
  by (simp add: rx_single_sys_def rx_sys_init_def rx_single_def rx_init_ok rx_single_thread_def rx_single_pc_def
      rx_thread_init_def) (simp add: rx_global_init_def)

lemma rx_one_seed_run:
  assumes "\<forall>ev \<in> set evs. rx_one_seed created s ev"
  shows "\<exists>st. rx_run randomx fastmode evs rx_sys_init = Some st \<and>
    (\<forall>i h seed r. rx_at st i = Rx_done h seed r \<longrightarrow>
       seed = s \<and> (r = randomx s (Serialize_CBlockHeader h) \<or> \<not> created \<and> r = uint256_0))"
proof -
  obtain st where st: "rx_run randomx fastmode evs rx_sys_init = Some st" "rx_single_sys randomx created s fastmode st"
    using rx_single_run[OF rx_single_init assms] by blast
  have "rx_single_pc randomx created s (rx_global st) (rx_thread st i) (rx_at st i)" for i using st(2) by (simp add: rx_single_sys_def)
  then have "rx_single_pc randomx created s (rx_global st) (rx_thread st i) (Rx_done h seed r)"
    if "rx_at st i = Rx_done h seed r" for i h seed r using that by metis
  with st(1) show ?thesis by (auto simp: rx_single_pc_def)
qed

section \<open>Overlapping calls for two seeds\<close>

text \<open>
  Thread 0 asks for the seed \<open>a\<close>.  After it has installed the cache of \<open>a\<close> and left the first critical section, thread 1
  installs the cache of \<open>b\<close>; thread 0 then reads the pointer to that cache and builds its machine
  on it, but labels it with \<open>a\<close>.
\<close>

definition rx_returns :: "nat \<Rightarrow> RxReturns" where
  "rx_returns k = \<lparr>new_cache = Some k, new_dataset = Some k, vm_created = True\<rparr>"

definition rx_race :: "CBlockHeader \<Rightarrow> uint256 \<Rightarrow> uint256 \<Rightarrow> rx_event list" where
  "rx_race h a b = [RxCall 0 h a, RxStep 0 (rx_returns 0), RxStep 0 (rx_returns 1),
     RxCall 1 h b, RxStep 1 (rx_returns 0), RxStep 1 (rx_returns 2),
     RxStep 0 (rx_returns 0), RxStep 0 (rx_returns 0), RxStep 0 (rx_returns 0)]"

lemmas rx_run_defs = rx_step_defs rx_returns_def rx_sys_init_def rx_global_init_def rx_thread_init_def rx_stale_def
  rx_update_cache_def rx_release_def rx_build_vm_def rx_hash_def

lemma rx_race_wrong:
  assumes "a \<noteq> b"
  shows "\<exists>s. rx_run randomx False (rx_race h a b) rx_sys_init = Some s \<and>
    rx_at s 0 = Rx_done h a (randomx b (Serialize_CBlockHeader h)) \<and>
    (\<forall>h' lib. CBlockHeader_GetPoWHash randomx False lib h' a (rx_global s) (rx_thread s 0) =
       Some (randomx b (Serialize_CBlockHeader h'), rx_global s, rx_thread s 0))"
  using assms by (simp add: rx_race_def rx_run_defs CBlockHeader_GetPoWHash_def)

text \<open>
  Here thread 0 has read the pointer to the cache of \<open>a\<close> when thread 1 releases it.
\<close>

definition rx_release_race :: "CBlockHeader \<Rightarrow> uint256 \<Rightarrow> uint256 \<Rightarrow> rx_event list" where
  "rx_release_race h a b = [RxCall 0 h a, RxStep 0 (rx_returns 0), RxStep 0 (rx_returns 1), RxStep 0 (rx_returns 0),
     RxCall 1 h b, RxStep 1 (rx_returns 0), RxStep 1 (rx_returns 2), RxStep 0 (rx_returns 0)]"

lemma rx_release_race_fault:
  assumes "a \<noteq> b"
  shows "rx_run randomx False (rx_release_race h a b) rx_sys_init = None"
  using assms by (simp add: rx_release_race_def rx_run_defs)

end
