(* ===== verification/Block_Examples.thy ===== *)
theory Block_Examples
  imports Examples Genesis_Checks Merkle_Path Randomx_Cache
begin

text \<open>
  Concrete blocks and library answers on which the hypotheses of the theorems on block checks and on the
  proof-of-work hash hold.
\<close>

definition no_ways :: d64_ways where
  "no_ways = (None, None, None)"

lemma no_ways_ok: "ways_ok no_ways"
  by (simp add: ways_ok_def no_ways_def)

definition stack_junk :: bytes where
  "stack_junk = replicate 64 0"

lemma length_stack_junk: "length stack_junk = 64"
  by (simp add: stack_junk_def)

text \<open>A block for height 4: the coinbase starts with \<open>OP_4\<close>.\<close>

definition height_block :: CBlock where
  "height_block = CBlockHeader.extend next_header
     \<lparr>vtx = [\<lparr>vin = [\<lparr>prevout = COutPoint_null, scriptSig = [0x54, 0], nSequence = SEQUENCE_FINAL, scriptWitness = []\<rparr>],
              vout = [\<lparr>nValue = 0, scriptPubKey = []\<rparr>], tx_version = 1, nLockTime = 0\<rparr>],
      fChecked = False, m_checked_witness_commitment = False, m_checked_merkle_root = False\<rparr>"

lemma height_block_weight: "GetBlockWeight height_block \<le> 4000000"
proof -
  have "length (Serialize_CBlock w height_block) \<le> 1000" for w
    by (simp add: Serialize_CBlock_def height_block_def CBlockHeader.defs header_of_def next_header_def Serialize_CBlockHeader_def
      Serialize_int32_def Serialize_uint256_def ser_writedata32_def line_key_def uint256_0_def Serialize_vector_def
      WriteCompactSize_def ser_writedata8_def SerializeTransaction_def HasWitness_def Serialize_CTxIn_def Serialize_CTxOut_def
      Serialize_COutPoint_def Serialize_bytes_def COutPoint_null_def Serialize_int64_def ser_writedata64_def)
  from this[of True] this[of False] show ?thesis by (simp add: GetBlockWeight_def WITNESS_SCALE_FACTOR_def)
qed

lemma height_block_accepted:
  "ContextualCheckBlock ways junk H (consensus main_env) (m_block_index (fst short_state)) (Some (line_key 3)) height_block =
     Some (Inr (), height_block)"
proof -
  have "\<exists>t. lock_time_cutoff (consensus main_env) (line_chain (\<lambda>_. limit_bits) (\<lambda>_. 0) 3) (Some (line_key 3))
      (Some (line_block (\<lambda>_. limit_bits) (\<lambda>_. 0) 3)) height_block = Some t"
    by (simp add: lock_time_cutoff_def short_median)
  moreover have "coinbase_height_ok height_block 4 = Some True"
    by (simp add: coinbase_height_ok_def height_block_def CBlockHeader.defs push_int64_def OP_1_def)
  moreover have "IsFinalTx tx h c" if "tx \<in> set (vtx height_block)" for tx h c
    using that by (simp add: height_block_def CBlockHeader.defs IsFinalTx_def)
  moreover have "contextual_witness ways junk H w height_block = Some (Inr (), height_block)" for w
    using height_block_weight by (simp add: contextual_witness_def CheckWitnessMalleation_def unexpected_witness_def HasWitness_def
      GetWitnessCommitmentIndex_def is_witness_commitment_def MINIMUM_WITNESS_COMMITMENT_def height_block_def CBlockHeader.defs
      NO_WITNESS_COMMITMENT_def MAX_BLOCK_WEIGHT_def)
  ultimately show ?thesis
    using short_index[of 3] by (auto simp: ContextualCheckBlock_def short_state_def short_blocks list_all_iff)
qed

text \<open>Two threads that run through a call each for the same seed.\<close>

definition two_threads :: "rx_event list" where
  "two_threads = [RxCall 0 next_header (line_key 1), RxCall 1 next_header (line_key 1),
     RxStep 0 (rx_returns 1), RxStep 1 (rx_returns 2), RxStep 1 (rx_returns 2), RxStep 0 (rx_returns 1), RxStep 0 (rx_returns 1),
     RxStep 1 (rx_returns 2), RxStep 0 (rx_returns 1), RxStep 1 (rx_returns 2), RxStep 1 (rx_returns 2), RxStep 0 (rx_returns 1)]"

end
