(* ===== verification/Spec2Isabelle.thy ===== *)
theory Spec2Isabelle
  imports Index_Page Block_Examples
begin

text \<open>
  A verification library for BitMinti: a Bitcoin Core fork with a RandomX proof of work and a per-block
  difficulty average (\<open>src/src\<close>, C++), and the script of its web site (\<open>src/website/script.js\<close>).

  \<^bold>\<open>How the parts interact.\<close>  The web site's script runs in the reader's browser and shares nothing with the
  node.  In the node, blocks and transactions arrive as bytes (\<open>serialize.h\<close>, \<open>primitives/\<close>); an accepted
  header becomes an entry of the block index (\<open>node/blockstorage.cpp\<close>, \<open>chain.h\<close>), which carries height, skip
  pointer and accumulated work; the active chain and the search for forks and ancestors work on that
  index (\<open>chain.cpp\<close>); the next target is computed from the index and the consensus parameters
  (\<open>pow.cpp\<close>, \<open>consensus/params.h\<close>, \<open>kernel/chainparams.cpp\<close>) with 256-bit arithmetic (\<open>arith_uint256.h\<close>).  The
  hash a header is checked with comes from \<open>GetPoWHash\<close> (\<open>primitives/block.cpp\<close>), which keeps a RandomX cache for
  all threads and a virtual machine per thread.  A block is checked by itself and in the context of its
  predecessor (\<open>validation.cpp\<close>, \<open>consensus/\<close>): its transactions, their scripts (\<open>script/script.h\<close>) and the Merkle
  root over their identifiers (\<open>consensus/merkle.cpp\<close>), computed with SHA-256 (\<open>crypto/sha256.cpp\<close>); each network
  starts from the genesis block its parameters build.

  \<^bold>\<open>Conventions.\<close>  \<open>uintN_t\<close> is \<open>N word\<close> and wraps; signed integers are \<open>int\<close> (no operation modelled here can
  overflow them); a failed assertion, an exception and a null dereference are \<open>None\<close>; a
  \<open>CBlockIndex*\<close> is the key of the entry in the block map, so pointers are followed by lookups.
  Loops are structural recursion where they count down, \<open>function\<close> with a measure where they shrink,
  and \<open>partial_function (option)\<close> where they follow pointers; for the latter the theorems state that
  they return.  No fuel is used anywhere.  Uninitialised memory (the buffer of a new \<open>CSHA256\<close>) is an argument \<open>junk\<close>.

  \<^bold>\<open>Theories.\<close>

  \<^item> \<open>Prelude\<close>: word types, the value \<open>val_le\<close> of little-endian words, generic lemmas.
  \<^item> \<open>Website\<close> (\<open>script.js\<close>, all 72 lines): the document, its styles, listeners, observer, pending clipboard
    writes and timeouts as a record \<open>World\<close>; one definition per handler (\<open>anchor_click\<close>,
    \<open>observer_callback\<close>, \<open>parallax\<close>, \<open>card_enter\<close>, \<open>card_leave\<close>, \<open>code_click\<close> up to its \<open>await\<close>,
    \<open>code_copied\<close> and \<open>code_failed\<close> after it, \<open>code_timeout\<close>) and per top-level statement (\<open>reg_anchors\<close> to
    \<open>reg_code\<close>, composed by \<open>load_script\<close>); \<open>handle\<close> runs one browser event, \<open>page_run\<close> is the step
    relation of the event loop.  Scroll positions are whole numbers.  \<open>Website_Highlight\<close>
    refines the copy handler to an abstract machine for one block; \<open>Website_Page\<close> has what loading
    registers and the properties of runs; \<open>Index_Page\<close> has elements of \<open>index.html\<close> as a concrete page.
  \<^item> \<open>Arith_Uint256\<close> (\<open>arith_uint256.h/.cpp\<close>): limbs as lists of 32-bit words, every operator as the loop of the
    source, and that each computes the operation on values modulo 2^256; the locale \<open>modular_uint\<close>
    is what the clients use of it, interpreted on the model as \<open>arith256\<close>.
  \<^item> \<open>Chain_Index\<close> (\<open>chain.h\<close>, \<open>chain.cpp\<close>, the index operations of \<open>blockstorage.cpp\<close>): the invariants \<open>wf_index\<close> and
    \<open>work_index\<close>, that \<open>AddToBlockIndex\<close> keeps them, and that ancestors, common ancestors, tips, forks,
    searches, locators and the work order are right on every well-formed index.
  \<^item> \<open>Consensus_Params\<close>, \<open>Chain_Params\<close> (\<open>consensus/params.h\<close>, \<open>kernel/chainparams.cpp\<close>): the parameter record and
    its value on the five networks, the genesis hash being an argument (\<open>Genesis\<close> computes it).
  \<^item> \<open>Pow\<close> (\<open>pow.cpp\<close>): the difficulty average and the hash check; the average as a formula over natural
    numbers with the wrap-around of the product kept, its clamps, its fixed point, and where it wraps.
  \<^item> \<open>Header_Validation\<close> (\<open>validation.cpp\<close>): \<open>ContextualCheckBlockHeader\<close>, \<open>AcceptBlockHeader\<close>, the loop of
    \<open>ProcessNewBlockHeaders\<close> and \<open>HasValidProofOfWork\<close>; the block hash, the RandomX hash and the clock are
    parameters, the state is the block index and the best header.
  \<^item> \<open>Serialize\<close> (\<open>serialize.h\<close>): integers, compact sizes, variable-length integers, vectors read in batches; the locale
    \<open>codec\<close> (reading inverts writing and accepts nothing else) is interpreted on each format and
    lifted to vectors.  \<open>Transaction\<close> (\<open>primitives/\<close>): transactions and blocks as codecs, output values;
    the hash function is an argument, as is the number of elements per batch (the compiler's \<open>sizeof\<close>),
    of which only that it is positive is assumed.
    A block is read into an object whose flags stay as they are.
  \<^item> \<open>Randomx_Cache\<close> (\<open>primitives/block.cpp\<close>, \<open>GetPoWHash\<close>): the global cache, dataset, seed and version and the thread's
    virtual machine, with allocated memory as maps, so that using released memory is \<open>None\<close>; a call as one
    function, and as steps of interleaved threads between the critical sections (\<open>rx_exec\<close>).  The library's
    allocations, the success of \<open>randomx_create_vm\<close> and the hash function are arguments.
  \<^item> \<open>Sha256\<close>, \<open>Sha256_D64\<close> (\<open>crypto/sha256.cpp\<close>, \<open>hash.h\<close>): the transform, the streaming object, the double hash and the
    unrolled \<open>TransformD64\<close>; the 2-, 4- and 8-way routines are arguments of \<open>SHA256D64\<close>, relied on to hash their
    blocks, and the single-block routine is the portable one.  \<open>Sha256_Eval\<close> evaluates digests.
  \<^item> \<open>Merkle\<close>, \<open>Merkle_Path\<close> (\<open>consensus/merkle.cpp\<close>): roots with the flag for repeated subtrees, branches computed in constant
    space with a 32-bit count, and the tree both are proved against.
  \<^item> \<open>Script\<close> (\<open>script/script.h\<close>, \<open>script.cpp\<close>): numbers, pushes, instructions and minimal pushes.
  \<^item> \<open>Tx_Checks\<close> (\<open>consensus/tx_check.cpp\<close>, \<open>tx_verify.cpp\<close>): \<open>CheckTransaction\<close>, \<open>IsFinalTx\<close>, signature operations, the subsidy.
    \<open>Block_Checks\<close> (\<open>validation.cpp\<close>): \<open>CheckBlock\<close>, \<open>IsBlockMutated\<close>, \<open>ContextualCheckBlock\<close> and the flags in which they
    remember a success; the signet solution check is an argument.
  \<^item> \<open>Genesis\<close>, \<open>Genesis_Checks\<close> (\<open>kernel/chainparams.cpp\<close>): the genesis blocks of the five networks, evaluated.
  \<^item> \<open>Examples\<close>, \<open>Block_Examples\<close>: concrete chains, networks, transactions, blocks and runs of threads on which
    the hypotheses of the theorems hold.

  \<^bold>\<open>What the theorems below show.\<close>  For the site: the copy handler refines its abstract machine, restores the
  background when copies do not overlap and fails to when they do; transforms, animations, clipboard,
  effects and timeouts are exactly those the events determine; timeouts fire.  For the node:
  arithmetic and compact targets are correct; the block index keeps its invariants and every query on
  it returns what it promises; a hash is accepted exactly under the target; with 90 blocks behind the tip,
  the next target stays within its clamps, is the last one on schedule, and ignores block times for easy
  targets on the main network; every header entered has passed every check, and none at a height of 2048
  or more ever is, because the seed rule asks for the block itself; every modelled format is parsed
  exactly when it was printed.  Calls for the proof-of-work hash that do not overlap, or that all ask for
  one seed, return the right hash; overlapping calls for two seeds may not, and a failure to create the
  machine passes every check.  Streaming and unrolled SHA-256 agree with the definition of the hash, branches
  lead to the Merkle root, and the root determines the transactions of accepted blocks up to a collision in
  the two trees.  The checks of transactions and blocks accept exactly the valid ones, remembered checks never change
  an answer, a coinbase fits one height, the subsidies stay below the money limit, and the assertions on the genesis blocks hold.

  \<^bold>\<open>Not modelled.\<close>  The script interpreter and signatures, block connection and the coins database, block files,
  networking, wallet, RPC and the Qt interface: they are I/O, concurrency or libraries that
  are not part of the repository's sources, and their models would be assumptions.  RandomX is a library.  The header checks
  take the proof-of-work hash as a function of header and seed; \<open>Randomx_Cache\<close> says when \<open>GetPoWHash\<close> is
  one.  Of \<open>crypto/sha256.cpp\<close> the processor-specific routines and their selection are left out.  Heights of
  index entries are natural numbers without the 32-bit bound.  Markup, style sheets, build and
  deployment scripts have no behaviour to model here.
\<close>

section \<open>The web site\<close>

text \<open>
  C1: Refinement of the copy handler.  Over any run of the page, the background of a block and the backgrounds its
  pending timeouts will restore evolve exactly as the abstract highlight machine on the copies and
  timeouts of that block, whatever else the run interleaves.
\<close>

theorem page_run_refines_highlight:
  assumes "page_run query w evs w'" "e < length (els w)"
  shows "highlight_state w' e = foldl highlight_step (highlight_state w e) (run_acts query w evs e)"
  using assms by (rule page_run_highlight)

theorem page_run_refines_highlight_witness:
  "\<exists>w'. page_run id_query index_world copy_once w' \<and> highlight_state w' 8 =
    foldl highlight_step (highlight_state index_world 8) [Other, Other, Other, Copy, Other, Restore]"
proof -
  have r: "page_run id_query index_world copy_once (foldl (handle id_query) index_world copy_once)"
    unfolding page_run_iff by code_simp
  have "run_acts id_query index_world copy_once 8 = [Other, Other, Other, Copy, Other, Restore]" by code_simp
  moreover have "8 < length (els index_world)" by simp
  ultimately have "highlight_state (foldl (handle id_query) index_world copy_once) 8 =
    foldl highlight_step (highlight_state index_world 8) [Other, Other, Other, Copy, Other, Restore]"
    using page_run_refines_highlight[OF r] by metis
  with r show ?thesis by blast
qed

text \<open>
  C2: Copies that do not overlap are invisible afterwards.  If no copy of a block completes while a timeout of that
  block is pending (nothing is pending at the start, and every copy waits for the timeout of the one
  before), then whenever nothing is pending for the block its background is the one it had at the
  start, and otherwise that is what the pending timeout will restore.
\<close>

theorem calm_run_restores_background:
  assumes "page_run query w evs w'" "e < length (els w)"
    "highlight_state w e = (b, [])" "calm 0 (run_acts query w evs e)"
  shows "highlight_state w' e = (b, []) \<or> snd (highlight_state w' e) = [b]"
  using calm_settled[of b "highlight_state w e" "run_acts query w evs e"] page_run_highlight[OF assms(1,2)] assms(3,4)
  by (simp add: settled_def)

theorem calm_run_restores_background_witness:
  "\<exists>w'. page_run id_query index_world copy_once w' \<and> calm 0 (run_acts id_query index_world copy_once 8) \<and>
    (highlight_state w' 8 = ('''', []) \<or> snd (highlight_state w' 8) = [''''])"
proof -
  have r: "page_run id_query index_world copy_once (foldl (handle id_query) index_world copy_once)"
    unfolding page_run_iff by code_simp
  have c: "calm 0 (run_acts id_query index_world copy_once 8)" "highlight_state index_world 8 = ('''', [])"
    by code_simp+
  have "8 < length (els index_world)" by simp
  from calm_run_restores_background[OF r this c(2,1)] r c(1) show ?thesis by blast
qed

text \<open>
  C3: Copies that overlap leave the block highlighted.  If a second copy of a block completes before the timeout of
  the first, then after both timeouts the background is the highlight colour and no timeout is left to
  change it back: the second copy took the highlight for the original background.
\<close>

theorem overlapping_copies_stay_highlighted:
  assumes "page_run query w evs w'" "e < length (els w)" "highlight_state w e = (b, [])"
    "filter (\<lambda>a. a \<noteq> Other) (run_acts query w evs e) = [Copy, Copy, Restore, Restore]"
  shows "highlight_state w' e = (highlight, [])"
proof -
  have "foldl highlight_step s (filter (\<lambda>a. a \<noteq> Other) as) = foldl highlight_step s as" for s as
    by (induction as arbitrary: s) auto
  from this[of "highlight_state w e" "run_acts query w evs e"] show ?thesis
    using page_run_highlight[OF assms(1,2)] assms(3,4) by simp
qed

theorem overlapping_copies_stay_highlighted_witness:
  "\<exists>w'. page_run id_query index_world copy_twice w' \<and> highlight_state index_world 8 = ('''', []) \<and>
    highlight_state w' 8 = (highlight, []) \<and> highlight \<noteq> ''''"
proof -
  have r: "page_run id_query index_world copy_twice (foldl (handle id_query) index_world copy_twice)"
    unfolding page_run_iff by code_simp
  have c: "highlight_state index_world 8 = ('''', [])"
    "filter (\<lambda>a. a \<noteq> Other) (run_acts id_query index_world copy_twice 8) = [Copy, Copy, Restore, Restore]"
    by code_simp+
  have l: "8 < length (els index_world)" and "highlight \<noteq> ''''" by (simp_all add: highlight_def)
  with overlapping_copies_stay_highlighted[OF r l c] r c(1) show ?thesis by blast
qed

text \<open>
  C4: The transforms of the page.  On the loaded page, after any run, the transform of every element is the one its
  last relevant event left: hovered or at rest for a feature card, half the scroll position for the
  hero background, unchanged for everything else; and the fade-in animation is set exactly on the
  elements that have intersected the viewport, the cursor never changes.
\<close>

theorem page_run_styles:
  assumes "page_run query w evs w'" "page ds w" "e < length ds"
  shows "transform (style_of w' e) = foldl (transform_step ds e) (transform (style_of w e)) evs \<and>
    animation (style_of w' e) =
      (if \<exists>entries. Intersect entries \<in> set evs \<and> (e, True) \<in> set entries then fadeInUp
       else animation (style_of w e)) \<and>
    cursor (style_of w' e) = cursor (style_of w e)"
  using page_run_style[OF assms] by (simp add: animation_foldl)

theorem page_run_styles_witness:
  "\<exists>w'. page_run id_query index_world [Enter 5, Intersect [(6, True), (1, False)], Scroll 11, Leave 5] w' \<and>
    transform (style_of w' 5) = card_rest \<and> transform (style_of w' 4) = ''translateY(5.5px)'' \<and>
    animation (style_of w' 6) = fadeInUp \<and> animation (style_of w' 1) = ''''"
proof -
  let ?evs = "[Enter 5, Intersect [(6, True), (1, False)], Scroll 11, Leave 5]"
  define w' where "w' = foldl (handle id_query) index_world ?evs"
  have r: "page_run id_query index_world ?evs w'"
    unfolding page_run_iff w'_def by code_simp
  have l: "length index_page = 9" by (simp add: index_page_def)
  note s = page_run_styles[OF r page_index_world, unfolded l]
  have "foldl (transform_step index_page 5) (transform (style_of index_world 5)) ?evs = card_rest"
    "foldl (transform_step index_page 4) (transform (style_of index_world 4)) ?evs = ''translateY(5.5px)''"
    "animation (style_of index_world 1) = ''''" by code_simp+
  with s[of 5] s[of 4] s[of 6] s[of 1] have "transform (style_of w' 5) = card_rest"
    "transform (style_of w' 4) = ''translateY(5.5px)''" "animation (style_of w' 6) = fadeInUp" "animation (style_of w' 1) = ''''"
    by simp_all
  with r show ?thesis by blast
qed

text \<open>
  C5: Clicks.  A click on the loaded page changes nothing but the pending writes and the visible effects.  Along its
  path from the target to the root, every fragment link is prevented from navigating and then scrolls
  to its target if the selector finds one (an exception of the selector surfaces instead), and every
  code block starts a clipboard write of its text, or logs the failure without a clipboard.
\<close>

theorem click_effects_exact:
  assumes "page ds w" "e < length ds"
  shows "handle query w (Click e) =
    w\<lparr>writes := writes w @ concat (map (click_writes (clipboard_present w) (els w)) (event_path (els w) e)),
      effects := effects w @ concat (map (click_effects query (clipboard_present w) (els w)) (event_path (els w) e))\<rparr>"
  using assms by (rule handle_Click)

theorem click_effects_exact_witness:
  "page index_page index_world \<and> 2 < length index_page \<and>
   effects (handle id_query index_world (Click 2)) = [PreventDefault 2, ScrollIntoView 6 ''smooth'' ''start'']"
proof -
  have l: "2 < length index_page" by (simp add: index_page_def)
  have "effects index_world @ concat (map (click_effects id_query (clipboard_present index_world) (els index_world))
      (event_path (els index_world) 2)) = [PreventDefault 2, ScrollIntoView 6 ''smooth'' ''start'']" by code_simp
  then show ?thesis using page_index_world l click_effects_exact[OF page_index_world l, of id_query]
    by (simp del: handle.simps)
qed

text \<open>
  C6: What can reach the clipboard.  Over any run, the clipboard holds what it held before or the text of one of the
  page's code blocks, and every write that is still pending is the text of the code block it was
  started from; a write that succeeds puts that text on the clipboard, highlights that block and
  schedules the timeout 200 ms later.
\<close>

theorem clipboard_only_code_text:
  assumes "page_run query w evs w'" "page ds w" "writes_ok ds w"
  shows "clipboard w' \<in> insert (clipboard w) (code_texts ds) \<and> writes_ok ds w' \<and>
    (\<forall>i e s. i < length (writes w') \<longrightarrow> writes w' ! i = (e, s) \<longrightarrow>
      clipboard (handle query w' (Resolve i)) = textContent (ds ! e) \<and>
      background (style_of (handle query w' (Resolve i)) e) = highlight \<and>
      timers (handle query w' (Resolve i)) =
        timers w' @ [\<lparr>due = now w' + 200, timer_el = e, originalBg = background (style_of w' e)\<rparr>])"
proof -
  have p: "page ds w'" using page_run_inv[OF assms(1,2), where P = "\<lambda>_. True"] by simp
  have c: "writes_ok ds w'" "clipboard w' \<in> insert (clipboard w) (code_texts ds)"
    using page_run_clipboard[OF assms] by blast+
  show ?thesis using c handle_Resolve[OF p c(1)] by blast
qed

theorem clipboard_only_code_text_witness:
  "\<exists>w'. page_run id_query index_world [Click 8, Click 7, Resolve 1] w' \<and>
    clipboard w' \<in> insert '''' (code_texts index_page) \<and> writes_ok index_page w'"
proof -
  have r: "page_run id_query index_world [Click 8, Click 7, Resolve 1]
      (foldl (handle id_query) index_world [Click 8, Click 7, Resolve 1])"
    unfolding page_run_iff by code_simp
  from clipboard_only_code_text[OF r page_index_world index_world_ok(1)] r show ?thesis
    unfolding index_world_simps by blast
qed

text \<open>
  Timeouts are in order.  On the loaded page every run keeps the pending timeouts sorted by their due times, none
  of them due later than 200 ms from now, so taking the oldest one first is the order of the timers.
\<close>

theorem timeouts_in_order:
  assumes "page_run query w evs w'" "page ds w" "timers_ok w"
  shows "sorted (map due (timers w')) \<and> (\<forall>t \<in> set (timers w'). due t \<le> now w' + 200)"
  using page_run_timers_ok[OF assms] by (simp add: timers_ok_def)

theorem timeouts_in_order_witness:
  "\<exists>w'. page_run id_query index_world [Click 8, Resolve 0, Advance 50, Click 7, Resolve 0] w' \<and>
    map due (timers w') = [200, 250] \<and> sorted (map due (timers w')) \<and> (\<forall>t \<in> set (timers w'). due t \<le> now w' + 200)"
proof -
  let ?evs = "[Click 8, Resolve 0, Advance 50, Click 7, Resolve 0]"
  define w' where "w' = foldl (handle id_query) index_world ?evs"
  have r: "page_run id_query index_world ?evs w'" unfolding page_run_iff w'_def by code_simp
  have "map due (timers w') = [200, 250]" unfolding w'_def by code_simp
  with timeouts_in_order[OF r page_index_world index_world_ok(2)] r show ?thesis by auto
qed

text \<open>
  C7: Timeouts do fire.  From any state a run of the loaded page reaches, waiting 200 ms makes every pending timeout
  due: running them one after the other is possible, leaves none pending, and every block then has
  the background its last pending timeout saved (or the one it had, if none was pending).
\<close>

theorem pending_timeouts_fire:
  assumes "page_run query w evs w'" "page ds w" "timers_ok w"
  shows "\<exists>w''. page_run query w' (Advance 200 # replicate (length (timers w')) Timeout) w'' \<and> timers w'' = [] \<and>
    (\<forall>e < length ds. background (style_of w'' e) =
      last (background (style_of w' e) # snd (highlight_state w' e)))"
proof -
  have p: "page ds w'" using page_run_inv[OF assms(1,2), where P = "\<lambda>_. True"] by simp
  let ?evs = "Advance 200 # replicate (length (timers w')) Timeout"
  obtain w'' where w'': "page_run query w' ?evs w''" "timers w'' = []"
    using drain_timers[OF p page_run_timers_ok[OF assms]] by blast
  have "background (style_of w'' e) = last (background (style_of w' e) # snd (highlight_state w' e))"
    if e: "e < length ds" for e
  proof -
    have h: "highlight_state w'' e = foldl highlight_step (highlight_state w' e) (run_acts query w' ?evs e)"
      using page_run_highlight[OF w''(1)] e pageD(1)[OF p] by simp
    have "Copy \<notin> set (run_acts query v (replicate n Timeout) e)" for v n
      by (induction n arbitrary: v) auto
    then have nc: "Copy \<notin> set (run_acts query w' ?evs e)" by simp
    obtain q where q: "highlight_state w' e = (background (style_of w' e), q)" by (simp add: highlight_state_def)
    have "highlight_state w'' e = (background (style_of w'' e), [])" by (simp add: highlight_state_def w''(2))
    with h q have f: "foldl highlight_step (background (style_of w' e), q) (run_acts query w' ?evs e) = (background (style_of w'' e), [])"
      by simp
    show ?thesis
    proof (cases "q = []")
      case True
      then show ?thesis using no_copy_idle[OF nc] f q by simp
    next
      case False
      then show ?thesis using drain[OF nc False f] q by simp
    qed
  qed
  then show ?thesis using w'' by blast
qed

theorem pending_timeouts_fire_witness:
  "\<exists>w' w''. page_run id_query index_world [Click 8, Resolve 0, Advance 50, Click 7, Resolve 0] w' \<and> length (timers w') = 2 \<and>
    page_run id_query w' [Advance 200, Timeout, Timeout] w'' \<and> timers w'' = []"
proof -
  let ?evs = "[Click 8, Resolve 0, Advance 50, Click 7, Resolve 0]"
  have r: "page_run id_query index_world ?evs (foldl (handle id_query) index_world ?evs)"
    unfolding page_run_iff by code_simp
  have n: "length (timers (foldl (handle id_query) index_world ?evs)) = 2" by code_simp
  have rep: "replicate 2 Timeout = [Timeout, Timeout]" by (simp add: numeral_2_eq_2)
  from pending_timeouts_fire[OF r page_index_world index_world_ok(2), unfolded n rep] r n show ?thesis by blast
qed

text \<open>
  C8: Loading the script.  It registers, after whatever was registered before and in this order, the click handler of
  every fragment link, the scroll handler, the two hover handlers of every card and the click handler of
  every code block; it observes every section; it marks every code block with the pointer cursor and
  the title and touches no other element.
\<close>

theorem load_script_registers:
  "listeners (load_script w) = listeners w @ page_listeners (els w) \<and>
   observed (load_script w) = observed w @ querySelectorAll (Sel_tag ''section'') (els w) \<and>
   els (load_script w) =
     map (\<lambda>el. if tagName el = ''code''
                then el\<lparr>style := (style el)\<lparr>cursor := ''pointer''\<rparr>, el_title := ''Click to copy''\<rparr> else el) (els w) \<and>
   effects (load_script w) = effects w"
  using load_script_els[of _ w]
  by (auto simp: load_script_listeners load_script_observed code_inited_def intro!: nth_equalityI)

text \<open>
  C9: The page's structure is fixed.  No event changes the tags, classes, links, ids, contents or parents of the
  elements, nor the registered handlers and observed sections.
\<close>

theorem run_keeps_document:
  assumes "page_run query (load_script w) evs w'" "listeners w = []" "observed w = []"
  shows "map skel (els w') = map skel (els w) \<and> listeners w' = page_listeners (els w) \<and>
    observed w' = querySelectorAll (Sel_tag ''section'') (els w)"
  using page_run_inv[OF assms(1) page_load_script[OF assms(2,3)], where P = "\<lambda>_. True"] by (simp add: page_def)

theorem run_keeps_document_witness:
  "\<exists>w'. page_run id_query (load_script (fresh_world index_page)) [Enter 5, Click 2] w' \<and>
    map skel (els w') = map skel index_page"
proof -
  have r: "page_run id_query (load_script (fresh_world index_page)) [Enter 5, Click 2]
      (foldl (handle id_query) (load_script (fresh_world index_page)) [Enter 5, Click 2])"
    unfolding page_run_iff by code_simp
  have "listeners (fresh_world index_page) = []" "observed (fresh_world index_page) = []" by simp_all
  from run_keeps_document[OF r this] r show ?thesis unfolding fresh_world_simps by blast
qed

text \<open>
  The parallax offset can be read back.  The text that the scroll handler writes for a whole scroll position is
  half of that position in decimal: reading the number back and doubling it gives the position.
\<close>

theorem parallax_text_roundtrip:
  "hero_transform y = ''translateY('' @ half_str y @ ''px)'' \<and> half_int (half_str y) = y \<and>
   (hero_transform y = hero_transform y' \<longleftrightarrow> y = y')"
  by (simp add: hero_transform_inject half_int_half_str) (simp add: hero_transform_def)

text \<open>
  Failed copies are only logged.  On a page where no timeout is pending, a run in which no write succeeds (every
  one is rejected, stays pending, or finds no clipboard) changes neither the clipboard nor the
  background of any element and schedules nothing; and each rejection adds its error to the console
  and removes the write, nothing more.
\<close>

theorem failed_copies_only_logged:
  assumes "page_run query w evs w'" "page ds w" "writes_ok ds w" "timers w = []" "\<forall>i. Resolve i \<notin> set evs"
  shows "clipboard w' = clipboard w \<and> timers w' = [] \<and>
    (\<forall>e < length ds. background (style_of w' e) = background (style_of w e)) \<and>
    handle query w' (Reject i err) =
      w'\<lparr>writes := drop_nth i (writes w'), effects := effects w' @ [Console_error ''Failed to copy:'' err]\<rparr>"
  using no_copy_run[OF assms] by (simp add: code_failed_def emit_def)

theorem failed_copies_only_logged_witness:
  "\<exists>w'. page_run id_query index_world [Click 8, Click 7, Reject 0 ''NotAllowedError''] w' \<and>
    clipboard w' = '''' \<and> timers w' = []"
proof -
  have r: "page_run id_query index_world [Click 8, Click 7, Reject 0 ''NotAllowedError'']
      (foldl (handle id_query) index_world [Click 8, Click 7, Reject 0 ''NotAllowedError''])"
    unfolding page_run_iff by code_simp
  have "\<forall>i. Resolve i \<notin> set [Click 8, Click 7, Reject 0 ''NotAllowedError'']" by simp
  from failed_copies_only_logged[OF r page_index_world index_world_ok(1) index_world_simps(3) this] r show ?thesis
    unfolding index_world_simps by blast
qed

section \<open>Consensus arithmetic\<close>

text \<open>
  C10: 256-bit arithmetic.  On eight 32-bit limbs, the limb-by-limb operators compute sum, difference, product, shifts and
  complement modulo 2^256 and comparison of the values; shift-and-subtract division gives the floor of
  the quotient and fails exactly on a zero divisor.
\<close>

theorem arith_uint256_correct:
  assumes "length a = 8" "length b = 8"
  shows "val_le (bu_add a b) = (val_le a + val_le b) mod 2 ^ 256 \<and>
    val_le (bu_sub a b) = (val_le a + (2 ^ 256 - val_le b)) mod 2 ^ 256 \<and>
    val_le (bu_mul a b) = (val_le a * val_le b) mod 2 ^ 256 \<and>
    val_le (bu_shl a n) = (val_le a * 2 ^ n) mod 2 ^ 256 \<and>
    val_le (bu_shr a n) = val_le a div 2 ^ n \<and>
    val_le (bu_not a) = 2 ^ 256 - 1 - val_le a \<and>
    (bu_less a b \<longleftrightarrow> val_le a < val_le b) \<and>
    (case bu_div a b of None \<Rightarrow> val_le b = 0
     | Some q \<Rightarrow> val_le b \<noteq> 0 \<and> length q = 8 \<and> val_le q = val_le a div val_le b)"
proof -
  have "case bu_div a b of None \<Rightarrow> val_le b = 0
     | Some q \<Rightarrow> val_le b \<noteq> 0 \<and> length q = 8 \<and> val_le q = val_le a div val_le b"
    using arith256.quot_val[OF assms] bu_div_zero[of b a] by (cases "val_le b = 0") auto
  then show ?thesis using assms val_bu_sub[of a b]
    by (simp add: arith256.add_val arith256.mul_val arith256.compl_val arith256.less_val val_bu_shl val_bu_shr)
qed

theorem arith_uint256_correct_witness:
  "length (base_uint_u64 12) = 8 \<and> length (base_uint_u64 5) = 8 \<and>
   val_le (bu_mul (base_uint_u64 12) (base_uint_u64 5)) = 60 \<and>
   (\<exists>q. bu_div (base_uint_u64 12) (base_uint_u64 5) = Some q \<and> val_le q = 2)"
  using arith_uint256_correct[of "base_uint_u64 12" "base_uint_u64 5" 0]
  by (cases "bu_div (base_uint_u64 12) (base_uint_u64 5)") (simp_all add: val_base_uint_u64)

text \<open>
  C11: The compact form of a target.  Encoding any 256-bit number gives a compact form that decodes as neither negative
  nor overflowing, to the number with everything below its unit cut off; and decoding reports exactly
  the sign and the overflow of the value the compact form stands for.
\<close>

theorem compact_roundtrip:
  assumes "length pn = 8"
  shows "(\<exists>c. GetCompact False pn = Some c \<and> snd (SetCompact c) = (False, False) \<and>
      val_le (fst (SetCompact c)) = val_le pn div compact_unit pn * compact_unit pn) \<and>
    snd (SetCompact d) = (compact_val d \<noteq> 0 \<and> odd (unat d div 2 ^ 23), 2 ^ 256 \<le> compact_val d) \<and>
    val_le (fst (SetCompact d)) = compact_val d mod 2 ^ 256"
  using GetCompact_SetCompact[OF assms] by (simp add: SetCompact_flags val_SetCompact)

theorem compact_roundtrip_witness:
  "length (base_uint_u64 0x12345678) = 8 \<and> GetCompact False (base_uint_u64 0x12345678) = Some 0x04123456 \<and>
   val_le (fst (SetCompact 0x04123456)) = 0x12345600"
proof -
  have g: "GetCompact False (base_uint_u64 0x12345678) = Some 0x04123456"
    "compact_unit (base_uint_u64 0x12345678) = 256" by code_simp+
  with compact_roundtrip[of "base_uint_u64 0x12345678", THEN conjunct1] show ?thesis
    by (simp add: val_base_uint_u64)
qed

section \<open>The block index\<close>

text \<open>
  C12: The skip list finds the right ancestor.  In a well-formed index, following skip pointers where the code takes them
  returns, for every height up to the block's, exactly the block that walking the predecessors one by
  one reaches.
\<close>

theorem GetAncestor_correct:
  assumes "wf_index M" "M p = Some b" "0 \<le> h" "h \<le> int (nHeight b)"
  shows "\<exists>q c. GetAncestor M p h = Some (Some q) \<and> walk_back M (nHeight b - nat h) p = Some q \<and>
    M q = Some c \<and> int (nHeight c) = h"
  using assms by (rule GetAncestor_walk_back)

theorem GetAncestor_correct_witness:
  "wf_index (line_chain (\<lambda>_. 0x1d00ffff) of_nat 20) \<and>
   GetAncestor (line_chain (\<lambda>_. 0x1d00ffff) of_nat 20) (line_key 20) 7 = Some (Some (line_key 7))"
proof -
  let ?M = "line_chain (\<lambda>_. 0x1d00ffff) of_nat 20"
  have wf: "wf_index ?M" by (rule wf_line_chain) simp
  have b: "?M (line_key 20) = Some (line_block (\<lambda>_. 0x1d00ffff) of_nat 20)" by (rule line_chain_key) simp_all
  have "walk_back ?M 13 (line_key 20) = Some (line_key 7)" using walk_back_line[of 20 20 13] by simp
  then show ?thesis using wf GetAncestor_correct[OF wf b, of 7] by (auto simp: line_block_def)
qed

text \<open>
  C13: Adding a header keeps the index.  For a header that does not name itself as its predecessor, \<open>AddToBlockIndex\<close>
  succeeds and keeps the invariant of the tree (heights, skip pointers) and of the accumulated work and
  times; it adds that block only and changes no entry that was there.
\<close>

theorem AddToBlockIndex_invariant:
  assumes "wf_index (m_block_index bm)" "work_index (m_block_index bm)"
    "\<forall>q. best = Some q \<longrightarrow> q \<in> dom (m_block_index bm)" "h_hashPrevBlock block \<noteq> H block"
  shows "\<exists>bm' best'. AddToBlockIndex H bm block best = Some (H block, bm', best') \<and>
    wf_index (m_block_index bm') \<and> work_index (m_block_index bm') \<and>
    m_block_index bm \<subseteq>\<^sub>m m_block_index bm' \<and>
    dom (m_block_index bm') = insert (H block) (dom (m_block_index bm))"
  by (rule AddToBlockIndex_wf) (use assms in blast)+

theorem AddToBlockIndex_invariant_witness:
  "\<exists>bm' best'. AddToBlockIndex (\<lambda>h. line_key (unat (h_nNonce h)))
      \<lparr>m_block_index = line_chain (\<lambda>_. 0x1d00ffff) of_nat 5, m_dirty_blockindex = {}\<rparr>
      \<lparr>h_nVersion = 1, h_hashPrevBlock = line_key 3, h_hashMerkleRoot = uint256_0, h_nTime = 9,
       h_nBits = 0x1d00ffff, h_nNonce = 6\<rparr> (Some (line_key 5)) = Some (line_key 6, bm', best') \<and>
    wf_index (m_block_index bm')"
proof -
  let ?M = "line_chain (\<lambda>_. 0x1d00ffff) of_nat 5"
  let ?bm = "\<lparr>m_block_index = ?M, m_dirty_blockindex = {}\<rparr>"
  let ?h = "\<lparr>h_nVersion = 1, h_hashPrevBlock = line_key 3, h_hashMerkleRoot = uint256_0, h_nTime = 9,
       h_nBits = 0x1d00ffff, h_nNonce = 6\<rparr>"
  have wf: "wf_index ?M" "work_index ?M" by (simp_all add: wf_line_chain work_line_chain)
  have d: "line_key 5 \<in> dom ?M" using line_chain_key[of 5 5] by auto
  have "val_le (line_key 3) \<noteq> val_le (line_key 6)" by (simp add: val_line_key)
  then have "line_key 3 \<noteq> line_key 6" by metis
  then show ?thesis
    using AddToBlockIndex_invariant[of ?bm "Some (line_key 5)" ?h "\<lambda>h. line_key (unat (h_nNonce h))"] wf d by auto
qed

text \<open>
  C14: Accumulated work.  In a well-formed index the chain work of a block is the sum, modulo 2^256, of the work
  2^256 / (target + 1) of every block from the root to it.
\<close>

theorem nChainWork_is_sum:
  assumes "wf_index M" "work_index M" "M p = Some b"
  shows "val_le (nChainWork b) = chain_proof M (nHeight b) p mod 2 ^ 256"
  using assms by (rule nChainWork_total)

theorem nChainWork_is_sum_witness:
  "wf_index line20 \<and> work_index line20 \<and>
   val_le (nChainWork (line_block (\<lambda>_. 0x1d00ffff) of_nat 3)) = chain_proof line20 3 (line_key 3) mod 2 ^ 256"
  using nChainWork_is_sum[OF line20_facts(1,2) line20_facts(3)[of 3]] line20_facts(1,2)
  by (simp add: line_block_def)

text \<open>
  C15: Last common ancestor.  For two blocks of one tree the skip-pointer search terminates, and what it returns is an
  ancestor of both and a descendant of every other common ancestor.
\<close>

theorem LastCommonAncestor_correct:
  assumes "wf_index M" "same_root M p q"
  shows "\<exists>r. LastCommonAncestor M p q = Some r \<and> is_ancestor M r p \<and> is_ancestor M r q \<and>
    (\<forall>s. is_ancestor M s p \<longrightarrow> is_ancestor M s q \<longrightarrow> is_ancestor M s r)"
  using assms by (rule LastCommonAncestor_greatest)

theorem LastCommonAncestor_correct_witness:
  "\<exists>r. LastCommonAncestor line20 (line_key 17) (line_key 9) = Some r \<and> is_ancestor line20 r (line_key 17) \<and>
    is_ancestor line20 r (line_key 9) \<and> is_ancestor line20 (line_key 9) r"
proof -
  have "is_ancestor line20 (line_key 9) (line_key 17)" "is_ancestor line20 (line_key 9) (line_key 9)"
    unfolding is_ancestor_def using line20_facts(4)[of 17 8] walk_back.simps(1)[of line20 "line_key 9"]
    by (auto simp del: walk_back.simps)
  then show ?thesis
    using LastCommonAncestor_correct[OF line20_facts(1) line20_same_root[of 17 9]] by auto
qed

text \<open>
  The active chain.  Setting the tip to any block of a well-formed index terminates and leaves the chain holding, at
  every height, exactly the ancestor of the new tip at that height.
\<close>

theorem SetTip_correct:
  assumes "wf_index M" "wf_chain M c" "M p = Some b"
  shows "\<exists>c'. chain_SetTip M p c = Some c' \<and> is_chain M p (vChain c')"
  using assms by (rule chain_SetTip_is_chain)

theorem SetTip_correct_witness:
  "\<exists>c'. chain_SetTip line20 (line_key 4) \<lparr>vChain = map (\<lambda>i. Some (line_key i)) [0..<21]\<rparr> = Some c' \<and>
    is_chain line20 (line_key 4) (vChain c')"
  using SetTip_correct[OF line20_facts(1) _ line20_facts(3)[of 4], of "\<lparr>vChain = map (\<lambda>i. Some (line_key i)) [0..<21]\<rparr>"]
    line20_is_chain by (auto simp: wf_chain_def)

text \<open>
  Fork point.  The fork a chain finds for a block of the same tree is the highest block that is both on the chain and
  an ancestor of that block.
\<close>

theorem FindFork_correct:
  assumes "wf_index M" "is_chain M t (vChain c)" "same_root M p t"
  shows "\<exists>r. chain_FindFork M c (Some p) = Some (Some r) \<and> is_ancestor M r p \<and> is_ancestor M r t \<and>
    (\<forall>s. is_ancestor M s p \<longrightarrow> is_ancestor M s t \<longrightarrow> is_ancestor M s r)"
  using assms by (rule chain_FindFork_greatest)

theorem FindFork_correct_witness:
  "\<exists>r. chain_FindFork line20 \<lparr>vChain = map (\<lambda>i. Some (line_key i)) [0..<21]\<rparr> (Some (line_key 6)) = Some (Some r) \<and>
    is_ancestor line20 r (line_key 6)"
  using FindFork_correct[OF line20_facts(1) _ line20_same_root[of 6 20], of "\<lparr>vChain = map (\<lambda>i. Some (line_key i)) [0..<21]\<rparr>"]
    line20_is_chain by auto

text \<open>
  Search by time and height.  The binary search returns the first block of the chain whose maximal time and height
  both reach the bounds: the blocks before it are exactly those that miss one of them.
\<close>

theorem FindEarliestAtLeast_correct:
  assumes "wf_index M" "work_index M" "is_chain M tip (vChain c)"
  shows "\<exists>r \<le> length (vChain c). chain_FindEarliestAtLeast M c t h =
      Some (if r = length (vChain c) then None else vChain c ! r) \<and>
    (\<forall>i<length (vChain c). before M (vChain c) t h i \<longleftrightarrow> i < r)"
  using assms by (rule chain_FindEarliestAtLeast_spec)

theorem FindEarliestAtLeast_correct_witness:
  "\<exists>r \<le> 21. chain_FindEarliestAtLeast line20 \<lparr>vChain = map (\<lambda>i. Some (line_key i)) [0..<21]\<rparr> 8 3 =
      Some (if r = 21 then None else map (\<lambda>i. Some (line_key i)) [0..<21] ! r)"
  using FindEarliestAtLeast_correct[OF line20_facts(1,2), of "line_key 20" "\<lparr>vChain = map (\<lambda>i. Some (line_key i)) [0..<21]\<rparr>" 8 3]
    line20_is_chain by auto

text \<open>
  Block locators.  The locator of a block starts at the block, every entry is a proper ancestor of the one before, the
  last one is the root, and for a block below height 2^m there are at most m + 12 entries.
\<close>

theorem LocatorEntries_correct:
  assumes "wf_index M" "M p = Some b" "nHeight b < 2 ^ m"
  shows "\<exists>xs. LocatorEntries M (Some p) = Some xs \<and> locator_from M p xs \<and> length xs \<le> m + 12"
  using assms by (rule LocatorEntries_spec)

theorem LocatorEntries_correct_witness:
  "\<exists>xs. LocatorEntries line20 (Some (line_key 20)) = Some xs \<and> locator_from line20 (line_key 20) xs \<and> length xs \<le> 17"
  using LocatorEntries_correct[OF line20_facts(1) line20_facts(3)[of 20], of 5] by (simp add: line_block_def)

text \<open>
  The order of candidate tips.  Comparing blocks by work, then by arrival, then by address is a strict total order on
  the blocks of a well-formed index, as long as distinct blocks have distinct addresses.
\<close>

theorem WorkComparator_total_order:
  assumes "wf_index M" "inj_on addr (dom M)" "p \<in> dom M" "q \<in> dom M" "r \<in> dom M"
  shows "\<not> work_less addr M p p \<and> (work_less addr M p q \<longrightarrow> work_less addr M q r \<longrightarrow> work_less addr M p r) \<and>
    (p \<noteq> q \<longrightarrow> work_less addr M p q \<or> work_less addr M q p)"
  using work_less_total_order[OF assms] by blast

theorem WorkComparator_total_order_witness:
  "inj_on val_le (dom line20) \<and> line_key 2 \<noteq> line_key 5 \<and>
   (work_less val_le line20 (line_key 2) (line_key 5) \<or> work_less val_le line20 (line_key 5) (line_key 2))"
proof -
  have inj: "inj_on val_le (dom line20)"
    by (rule inj_onI) (auto dest!: line_chain_SomeD simp: val_line_key)
  have d: "line_key h \<in> dom line20" if "h \<le> 20" for h using line20_facts(3)[OF that] by blast
  have "val_le (line_key 2) \<noteq> val_le (line_key 5)" by (simp add: val_line_key)
  then have "line_key 2 \<noteq> line_key 5" by metis
  then show ?thesis using inj WorkComparator_total_order[OF line20_facts(1) inj d[of 2] d[of 5] d[of 5]] by simp
qed

section \<open>Proof of work\<close>

text \<open>
  C16: The check of a proof of work.  A hash is accepted exactly when the compact target is valid (positive, not negative,
  below 2^256), no easier than the network's limit, and the hash does not exceed it.
\<close>

theorem CheckProofOfWork_exact:
  assumes "length hash = 32" "length (powLimit params) = 32"
  shows "CheckProofOfWork False hash c params \<longleftrightarrow>
    compact_valid c \<and> compact_val c \<le> val_le (powLimit params) \<and> val_le hash \<le> compact_val c"
  using CheckProofOfWorkImpl_iff[OF assms] by (simp add: CheckProofOfWork_def)

theorem CheckProofOfWork_exact_witness:
  "length (uint256_of 5) = 32 \<and> length (powLimit main0) = 32 \<and> CheckProofOfWork False (uint256_of 5) 0x1f00ffff main0"
proof -
  have l: "length (powLimit main0) = 32" by (simp add: main_consensus_def)
  then show ?thesis using CheckProofOfWork_exact[OF length_uint256_of l, of 5 "0x1f00ffff"]
    unfolding main_powLimit compact_examples by (simp add: val_uint256_of compact_examples)
qed

text \<open>
  C17: The next target.  On a well-formed index, with 90 blocks behind the tip whose targets are at most the limit, a limit below
  2^244 and a spacing between 0 and 2^32, the difficulty algorithm returns a compact form without sign or
  overflow of the clamped moving average (its product taken modulo 2^256): it is at most the average and
  loses at most one part in 2^15 of it, and the average is at most the limit and between 90% and 110% of the last target.  The result passes
  the check of targets exactly when the average is not zero, which holds whenever the last target is at least 2.
\<close>

theorem GetNextWorkRequired_bounds:
  assumes "wf_index M" "M p = Some b" "90 \<le> nHeight b" "length (powLimit params) = 32" "val_le (powLimit params) < 2 ^ 244"
    and "0 < nPowTargetSpacing params" "nPowTargetSpacing params < 2 ^ 32"
    and "\<forall>j<90. block_target (nth_back M p j) \<le> val_le (powLimit params)"
  shows "\<exists>c. GetNextWorkRequired params M (Some p) = Some c \<and> snd (SetCompact c) = (False, False) \<and>
    val_le (fst (SetCompact c)) \<le> lwma_target params M p \<and>
    32767 * lwma_target params M p \<le> 32768 * val_le (fst (SetCompact c)) \<and>
    lwma_target params M p \<le> val_le (powLimit params) \<and>
    lwma_target params M p \<le> block_target b * 110 div 100 \<and>
    block_target b * 90 div 100 \<le> lwma_target params M p \<and>
    DeriveTarget c (powLimit params) = (if lwma_target params M p = 0 then None else Some (fst (SetCompact c))) \<and>
    (2 \<le> block_target b \<longrightarrow> lwma_target params M p \<noteq> 0)"
proof -
  have w: "lwma_window params M p" using assms unfolding lwma_window_def by blast
  obtain c where c: "GetNextWorkRequired params M (Some p) = Some c" "snd (SetCompact c) = (False, False)"
    "val_le (fst (SetCompact c)) \<le> lwma_target params M p"
    "32767 * lwma_target params M p \<le> 32768 * val_le (fst (SetCompact c))"
    "lwma_target params M p \<noteq> 0 \<longrightarrow> 0 < val_le (fst (SetCompact c))"
    using GetNextWorkRequired_target[OF w] by blast
  have b: "nth_back M p 0 = b" using assms(2) by simp
  note clamp = lwma_target_clamp[OF w, unfolded b]
  have "DeriveTarget c (powLimit params) = (if lwma_target params M p = 0 then None else Some (fst (SetCompact c)))"
    using DeriveTarget_clean[OF assms(4) c(2)] c(3,5) clamp(1) by auto
  moreover have "2 \<le> block_target b \<longrightarrow> lwma_target params M p \<noteq> 0" using lwma_target_pos[OF w] b by auto
  ultimately show ?thesis using c(1-4) clamp by blast
qed

theorem GetNextWorkRequired_bounds_witness:
  "\<exists>c. GetNextWorkRequired main0 (main_chain 0x1d00ffff) (Some (line_key 100)) = Some c \<and>
    DeriveTarget c (powLimit main0) = Some (fst (SetCompact c))"
proof -
  let ?M = "main_chain 0x1d00ffff"
  have t: "val_le (fst (SetCompact 0x1d00ffff)) < 2 ^ 244" "2 \<le> val_le (fst (SetCompact 0x1d00ffff))"
    by (simp_all add: val_SetCompact compact_examples)
  obtain b where w: "wf_index ?M" "?M (line_key 100) = Some b" "90 \<le> nHeight b" "length (powLimit main0) = 32"
    "val_le (powLimit main0) < 2 ^ 244" "0 < nPowTargetSpacing main0" "nPowTargetSpacing main0 < 2 ^ 32"
    "\<forall>j<90. block_target (nth_back ?M (line_key 100) j) \<le> val_le (powLimit main0)"
    using main_chain_window[OF t(1)] unfolding lwma_window_def by blast
  have "2 \<le> block_target b" using w(2) t(2) main_chain_target[of 0 "0x1d00ffff"] by simp
  with GetNextWorkRequired_bounds[OF w] show ?thesis by auto
qed

text \<open>
  C18: Block times are ignored for easy targets.  On the main network, with 90 blocks behind the tip whose targets are at most the limit
  (2^244 - 1), if the last target is at least 2^235 then the next target is 90% of it, up to the rounding of the
  compact form, whatever the times of the blocks: the product of the average with the weighted solve times
  is reduced modulo 2^256, and what is left of it is below the lower clamp.  Without the reduction, 90 equal
  targets and solve times that add up to the schedule or more would give at least the last target.
\<close>

theorem main_difficulty_ignores_times:
  assumes "wf_index M" "M p = Some b" "90 \<le> nHeight b"
    and "\<forall>j<90. block_target (nth_back M p j) \<le> val_le (powLimit (main_consensus g))" "2 ^ 235 \<le> block_target b"
  shows "(\<exists>c. GetNextWorkRequired (main_consensus g) M (Some p) = Some c \<and>
      val_le (fst (SetCompact c)) \<le> block_target b * 90 div 100 \<and>
      32767 * (block_target b * 90 div 100) \<le> 32768 * val_le (fst (SetCompact c))) \<and>
    lwma_sum_target M p 90 div 4095 * nat (lwma_sum_solve (main_consensus g) M p 90) mod 2 ^ 256 div (4095 * 600) \<le>
      block_target b * 90 div 100 \<and>
    ((\<forall>j<90. block_target (nth_back M p j) = block_target b) \<and> 4095 * 600 \<le> lwma_sum_solve (main_consensus g) M p 90 \<longrightarrow>
      block_target b \<le> lwma_sum_target M p 90 div 4095 * nat (lwma_sum_solve (main_consensus g) M p 90) div (4095 * 600))"
proof -
  define product where "product = lwma_sum_target M p 90 div 4095 * nat (lwma_sum_solve (main_consensus g) M p 90)"
  have w: "lwma_window (main_consensus g) M p" using main_window assms(1-4) .
  have b: "nth_back M p 0 = b" using assms(2) by simp
  have sp: "nat (nPowTargetSpacing (main_consensus g)) = 600" by (simp add: main_consensus_def)
  have "(2::nat) ^ 256 div (4095 * 600) \<le> 2 ^ 235 * 90 div 100" by simp
  also have "\<dots> \<le> block_target b * 90 div 100" using assms(5) by (intro div_le_mono mult_le_mono1)
  finally have big: "2 ^ 256 div (4095 * 600) \<le> block_target b * 90 div 100" .
  then have "lwma_target (main_consensus g) M p = block_target b * 90 div 100"
    using lwma_target_wrapped[OF w] unfolding sp b by blast
  moreover have "product mod 2 ^ 256 div (4095 * 600) \<le> 2 ^ 256 div (4095 * 600)"
    using mod_less_divisor[of "2 ^ 256" product] by (intro div_le_mono) simp
  ultimately show ?thesis
    using GetNextWorkRequired_target[OF w] big lwma_unwrapped[of M p "block_target b" 600 "main_consensus g"] unfolding product_def
    by (auto intro: order_trans)
qed

theorem main_difficulty_ignores_times_witness:
  "\<exists>c. GetNextWorkRequired main0 (main_chain 0x1f0fffff) (Some (line_key 100)) = Some c \<and>
    val_le (fst (SetCompact c)) \<le> val_le (fst (SetCompact 0x1f0fffff)) * 90 div 100"
proof -
  let ?M = "main_chain 0x1f0fffff"
  have t: "val_le (fst (SetCompact 0x1f0fffff)) < 2 ^ 244" "2 ^ 235 \<le> val_le (fst (SetCompact 0x1f0fffff))"
    by (simp_all add: val_SetCompact compact_examples)
  obtain b where w: "wf_index ?M" "?M (line_key 100) = Some b" "90 \<le> nHeight b"
    "\<forall>j<90. block_target (nth_back ?M (line_key 100) j) \<le> val_le (powLimit main0)"
    using main_chain_window[OF t(1)] unfolding lwma_window_def by blast
  have "block_target b = val_le (fst (SetCompact 0x1f0fffff))" using w(2) main_chain_target[of 0 "0x1f0fffff"] by simp
  with main_difficulty_ignores_times[OF w] t(2) show ?thesis by auto
qed

text \<open>
  A chain on schedule keeps its target.  If the last 90 blocks share one target, came exactly one spacing apart, and
  the product does not overflow, then the next target is that same target.
\<close>

theorem steady_chain_keeps_target:
  assumes "lwma_window params M p" "\<forall>j<90. nBits (nth_back M p j) = c"
    "\<forall>j<90. block_solvetime M (nth_back M p j) = nPowTargetSpacing params"
    "compact_val c * (4095 * nat (nPowTargetSpacing params)) < 2 ^ 256"
  shows "\<exists>c'. GetNextWorkRequired params M (Some p) = Some c' \<and> val_le (fst (SetCompact c')) = compact_val c"
proof -
  have "1 \<le> 4095 * nat (nPowTargetSpacing params)" using assms(1) unfolding lwma_window_def by auto
  from mult_le_mono2[OF this, of "compact_val c"]
  have "compact_val c \<le> compact_val c * (4095 * nat (nPowTargetSpacing params))" by simp
  then have lt: "compact_val c < 2 ^ 256" using assms(4) by linarith
  have t: "block_target (nth_back M p j) = compact_val c" if "j < 90" for j
    using assms(2) that lt by (simp add: block_target_def val_SetCompact)
  have "lwma_target params M p = compact_val c"
    by (rule lwma_target_steady[OF assms(1)]) (use t assms(3,4) in simp_all)
  then show ?thesis using GetNextWorkRequired_lossless[OF assms(1)] by metis
qed

theorem steady_chain_keeps_target_witness:
  "\<exists>c'. GetNextWorkRequired main0 (main_chain 0x1d00ffff) (Some (line_key 100)) = Some c' \<and>
    val_le (fst (SetCompact c')) = compact_val 0x1d00ffff"
proof -
  have "val_le (fst (SetCompact 0x1d00ffff)) < 2 ^ 244" by (simp add: val_SetCompact compact_examples)
  note w = main_chain_window[OF this]
  have b: "nBits (nth_back (main_chain 0x1d00ffff) (line_key 100) j) = 0x1d00ffff" if "j < 90" for j
    using that by (simp add: main_chain_back line_block_def)
  have sp: "nPowTargetSpacing main0 = 600" by (simp add: main_consensus_def)
  have s: "block_solvetime (main_chain 0x1d00ffff) (nth_back (main_chain 0x1d00ffff) (line_key 100) j) = 600" if j: "j < 90" for j
  proof -
    have "the (main_chain 0x1d00ffff (line_key (100 - j - 1))) = line_block (\<lambda>_. 0x1d00ffff) main_time (100 - j - 1)"
      by (simp add: main_chain_def line_chain_key)
    moreover have "uint (main_time (100 - j)) - uint (main_time (100 - j - 1)) = 600"
      using j by (simp add: uint_main_time of_nat_diff)
    ultimately show ?thesis using j
      by (simp add: main_chain_back block_solvetime_def line_block_def GetBlockTime_def)
  qed
  have "compact_val 0x1d00ffff * (4095 * nat 600) < 2 ^ 256" by (simp add: compact_examples)
  then show ?thesis using steady_chain_keeps_target[OF w, of "0x1d00ffff"] b s unfolding sp by blast
qed

section \<open>Headers\<close>

text \<open>
  C19: Which headers enter the index.  Whatever header is processed, the invariants of the block index are kept, and
  either nothing changes or the header is new, its predecessor is known and not marked failed, it
  carries the required target, its RandomX hash under the seed of its epoch meets that target, its time
  is above the median of its predecessors and at most two hours ahead of the clock, its version is
  not outdated, and the only change is its entry, one above its predecessor.
\<close>

theorem AcceptBlockHeader_only_valid:
  assumes "headers_inv env st" "AcceptBlockHeader env clock min_pow_checked block st = Some (r, st')"
  shows "headers_inv env st' \<and> (st' = st \<or> r = Inr (GetHash env block) \<and> min_pow_checked \<and>
    header_added env clock block (m_block_index (fst st)) (m_block_index (fst st')))"
  using assms by (rule AcceptBlockHeader_spec)

theorem AcceptBlockHeader_only_valid_witness:
  "\<exists>st'. AcceptBlockHeader main_env 0 True next_header short_state = Some (Inr (line_key 4), st') \<and> headers_inv main_env st' \<and>
    header_added main_env 0 next_header (m_block_index (fst short_state)) (m_block_index (fst st'))"
  using next_header_accepted AcceptBlockHeader_only_valid[OF short_inv(1)] by blast

text \<open>
  C20: The chain stops at height 2047.  Starting from an index whose blocks are all below height 2048, no sequence of
  header messages, at whatever times and with whatever hashes, ever adds a block of height 2048: that
  header needs the RandomX seed of the block at its own height, which its predecessor's chain does not
  contain.
\<close>

theorem headers_stop_below_2048:
  assumes "headers_reach env st st'" "headers_inv env st" "\<forall>p b. m_block_index (fst st) p = Some b \<longrightarrow> nHeight b < 2048"
  shows "\<forall>p b. m_block_index (fst st') p = Some b \<longrightarrow> nHeight b < 2048"
  using headers_reach_inv[where P = below_first_seed, OF assms(1,2)] assms(3) below_first_seed_kept
  unfolding below_first_seed_def by blast

theorem headers_stop_below_2048_witness:
  "\<exists>st'. headers_reach main_env short_state st' \<and> st' \<noteq> short_state \<and>
    (\<forall>p b. m_block_index (fst st') p = Some b \<longrightarrow> nHeight b < 2048)"
proof -
  obtain st' where a: "AcceptBlockHeader main_env 0 True next_header short_state = Some (Inr (line_key 4), st')" "st' \<noteq> short_state"
    using next_header_accepted by blast
  then have "ProcessNewBlockHeaders main_env 0 True [next_header] short_state = Some (Inr (), st')" by simp
  with reach_refl have r: "headers_reach main_env short_state st'" by (rule reach_step)
  have "\<forall>p b. m_block_index (fst short_state) p = Some b \<longrightarrow> nHeight b < 2048"
    using short_inv(2) unfolding below_first_seed_def .
  from headers_stop_below_2048[OF r short_inv(1) this] r a(2) show ?thesis by blast
qed

text \<open>
  The two seed rules.  For a header whose predecessor is known, the check before processing and the contextual check
  derive the same seed unless the header's height is a multiple of 2048; at such a height the first
  still has a seed and decides by the hash, while the second refuses every header with the right target.
\<close>

theorem seed_rules_differ_at_epochs:
  assumes "wf_index (m_block_index bm)" "m_block_index bm (h_hashPrevBlock h) = Some prev"
  shows "\<exists>seed. HasValidProofOfWork env bm [h] =
      Some (CheckProofOfWork (fuzz env) (GetPoWHash env h seed) (h_nBits h) (consensus env)) \<and>
    contextual_seed (m_block_index bm) (h_hashPrevBlock h) (nHeight prev + 1) =
      Some (if 2048 dvd nHeight prev + 1 then None else Some seed)"
proof -
  let ?M = "m_block_index bm" and ?p = "h_hashPrevBlock h"
  obtain seed where s: "contextual_seed ?M ?p (nHeight prev) = Some (Some seed)"
    using contextual_seed_defined[OF assms] by blast
  have "contextual_seed ?M ?p (nHeight prev + 1) = Some None" if d: "2048 dvd nHeight prev + 1"
  proof -
    obtain k where k: "nHeight prev + 1 = 2048 * k" using d by (rule dvdE)
    then have "0 < k" by (cases k) simp_all
    then show ?thesis using contextual_seed_boundary[where M = ?M, OF assms(2) k] by blast
  qed
  then show ?thesis
    using HasValidProofOfWork_single[OF assms(2) s, of env] contextual_seed_same_epoch[of "nHeight prev" ?M ?p] s by auto
qed

theorem seed_rules_differ_at_epochs_witness:
  "\<exists>seed. HasValidProofOfWork main_env (fst short_state) [next_header] =
      Some (CheckProofOfWork False (GetPoWHash main_env next_header seed) limit_bits (consensus main_env)) \<and>
    contextual_seed (m_block_index (fst short_state)) (line_key 3) 4 = Some (Some seed)"
proof -
  have p: "m_block_index (fst short_state) (h_hashPrevBlock next_header) = Some (line_block (\<lambda>_. limit_bits) (\<lambda>_. 0) 3)"
    by (simp add: short_state_def next_header_def short_index)
  have wf: "wf_index (m_block_index (fst short_state))" using short_inv(1) by (simp add: headers_inv_def)
  from seed_rules_differ_at_epochs[OF wf p, of main_env] show ?thesis
    by (simp add: line_block_def next_header_def) (simp add: main_env_def)
qed

section \<open>Serialization\<close>

text \<open>
  C21: Compact sizes.  Reading is exactly the inverse of writing: a stream is read as the number \<open>n\<close> leaving \<open>s'\<close> if and
  only if it is the encoding of \<open>n\<close> followed by \<open>s'\<close> (so every longer, non-canonical encoding is
  refused) and, when the range is checked, \<open>n\<close> is at most \<open>MAX_SIZE\<close>; the encoding has the announced
  length.
\<close>

theorem CompactSize_canonical:
  "(ReadCompactSize range_check s = Some (n, s') \<longleftrightarrow> s = WriteCompactSize n @ s' \<and> (range_check \<longrightarrow> n \<le> MAX_SIZE)) \<and>
   length (WriteCompactSize n) = GetSizeOfCompactSize n"
  using compact_codec.unser_iff[of s n s'] compact_number_codec.unser_iff[of s n s']
  by (cases range_check) (auto simp: length_WriteCompactSize)

theorem CompactSize_canonical_witness:
  "ReadCompactSize True (WriteCompactSize 0x1234 @ [7]) = Some (0x1234, [7])"
  using CompactSize_canonical[of True "WriteCompactSize 0x1234 @ [7]" "0x1234" "[7]"] by (simp add: MAX_SIZE_def)

text \<open>
  C22: Variable-length integers.  For 32- and 64-bit numbers, a stream is read as \<open>n\<close> exactly when it starts with the
  encoding of \<open>n\<close>; the encoding has the length \<open>GetSizeOfVarInt\<close> announces and fits the buffer of
  5 or 10 bytes on the stack.
\<close>

theorem VarInt_canonical:
  fixes n :: u32 and m :: u64
  shows "(ReadVarInt s = Some (n, s') \<longleftrightarrow> s = WriteVarInt n @ s') \<and>
    (ReadVarInt s = Some (m, s') \<longleftrightarrow> s = WriteVarInt m @ s') \<and>
    length (WriteVarInt n) = GetSizeOfVarInt n \<and> length (WriteVarInt n) \<le> 5 \<and>
    length (WriteVarInt m) = GetSizeOfVarInt m \<and> length (WriteVarInt m) \<le> 10"
  using varint32_codec.unser_iff[of s n s'] varint64_codec.unser_iff[of s m s'] WriteVarInt_fits[of n] WriteVarInt_fits[of m]
  by (simp add: length_WriteVarInt)

text \<open>
  Reading a vector in batches.  For any positive batch size, reading a vector in batches, which bounds the memory a
  bogus length can claim, gives the result of reading its elements one by one; likewise for byte
  strings.
\<close>

theorem batched_read_equivalent:
  assumes "0 < batch"
  shows "vector_loop unser batch n 0 [] s = read_elems unser n s \<and> bytes_loop k 0 [] t = stream_read k t"
proof -
  have "(do { (xs, s) \<leftarrow> read_elems unser n s; Some ([] @ xs, s) }) = read_elems unser n s"
    "(do { (xs, s) \<leftarrow> stream_read k t; Some ([] @ xs, s) }) = stream_read k t" by (simp_all add: case_prod_beta')
  then show ?thesis using vector_loop_eq[OF assms, of "[]" 0 n unser s] bytes_loop_eq[of 0 k "[]" t] by simp
qed

theorem batched_read_equivalent_witness:
  "vector_loop ser_readdata8 2 3 0 [] [1, 2, 3, 4] = read_elems ser_readdata8 3 [1, 2, 3, 4]"
  using batched_read_equivalent[of 2 ser_readdata8 3 "[1, 2, 3, 4]" 0 "[]"] by simp

section \<open>Transactions and blocks\<close>

text \<open>
  C23: Transactions.  With or without witnesses, a stream is read as a transaction exactly when it is the serialization
  of that transaction followed by the rest, and the transaction is one the format can carry: no witness
  in the plain format, no outputs without inputs in the extended one.
\<close>

theorem Transaction_roundtrip:
  assumes "\<forall>e. 0 < alloc e"
  shows "UnserializeTransaction alloc fAllowWitness s = Some (tx, s') \<longleftrightarrow>
    ok_tx fAllowWitness tx \<and> s = SerializeTransaction fAllowWitness tx @ s'"
  by (rule codec.unser_iff[OF tx_codec]) (use assms in blast)

theorem Transaction_roundtrip_witness:
  "UnserializeTransaction (\<lambda>_. 5) True (SerializeTransaction True sample_tx @ [9]) = Some (sample_tx, [9])"
  using Transaction_roundtrip[of "\<lambda>_. 5" True "SerializeTransaction True sample_tx @ [9]" sample_tx "[9]"] ok_sample_tx
  by simp

text \<open>
  C24: Blocks.  Reading a block into an object succeeds exactly on the serializations of blocks the format can carry, followed by
  the rest of the stream; the result has that header and those transactions, and the flags that remember
  checks are the object's own, so they are clear when the object was null.  A header takes 80 bytes.
\<close>

theorem Block_roundtrip:
  assumes "\<forall>e. 0 < alloc e"
  shows "(Unserialize_CBlock alloc fAllowWitness obj s = Some (b, s') \<longleftrightarrow>
      ok_block fAllowWitness b \<and> same_flags obj b \<and> s = Serialize_CBlock fAllowWitness b @ s') \<and>
    (Unserialize_CBlock alloc fAllowWitness CBlock_null s = Some (b, s') \<longrightarrow>
      \<not> fChecked b \<and> \<not> m_checked_witness_commitment b \<and> \<not> m_checked_merkle_root b) \<and>
    (ok_block fAllowWitness b \<longrightarrow> length (Serialize_CBlockHeader (header_of b)) = 80)"
proof -
  have r: "Unserialize_CBlock alloc fAllowWitness ob s = Some (b, s') \<longleftrightarrow>
      (ok_block fAllowWitness b \<and> same_flags ob b) \<and> s = Serialize_CBlock fAllowWitness b @ s'" for ob
    by (rule codec.unser_iff[OF block_codec]) (use assms in blast)
  from r[of CBlock_null] have "Unserialize_CBlock alloc fAllowWitness CBlock_null s = Some (b, s') \<longrightarrow>
      \<not> fChecked b \<and> \<not> m_checked_witness_commitment b \<and> \<not> m_checked_merkle_root b"
    by (simp add: same_flags_def CBlock_null_def CBlockHeader.defs)
  with r[of obj] show ?thesis by (simp add: ok_block_def length_Serialize_CBlockHeader)
qed

theorem Block_roundtrip_witness:
  "Unserialize_CBlock (\<lambda>_. 5) True CBlock_null (Serialize_CBlock True (CBlock_null\<lparr>vtx := [sample_tx]\<rparr>) @ [9]) =
    Some (CBlock_null\<lparr>vtx := [sample_tx]\<rparr>, [9])"
proof -
  have "ok_block True (CBlock_null\<lparr>vtx := [sample_tx]\<rparr>)" "same_flags CBlock_null (CBlock_null\<lparr>vtx := [sample_tx]\<rparr>)"
    using ok_sample_tx by (simp_all add: ok_block_def ok_header_def header_of_def same_flags_def CBlock_null_def CBlockHeader_null_def
      CBlockHeader.defs uint256_0_def)
  then show ?thesis
    using Block_roundtrip[of "\<lambda>_. 5" True CBlock_null "Serialize_CBlock True (CBlock_null\<lparr>vtx := [sample_tx]\<rparr>) @ [9]"
        "CBlock_null\<lparr>vtx := [sample_tx]\<rparr>" "[9]"] by simp
qed

text \<open>
  The value of a transaction.  \<open>GetValueOut\<close> returns exactly when every output and the total are within
  the range of money, and then it returns the total; otherwise it throws.
\<close>

theorem GetValueOut_exact:
  "GetValueOut tx = (if (\<forall>o1\<in>set (vout tx). MoneyRange (nValue o1)) \<and> sum_list (map nValue (vout tx)) \<le> MAX_MONEY
    then Some (sum_list (map nValue (vout tx))) else None)"
  using GetValueOut_iff[of tx] by (cases "GetValueOut tx") auto

theorem GetValueOut_exact_witness:
  "GetValueOut sample_tx = Some 5000"
  using GetValueOut_exact[of sample_tx] by (simp add: sample_tx_def MoneyRange_def MAX_MONEY_def COIN_def)

section \<open>The proof-of-work hash\<close>

text \<open>
  C25: Calls of \<open>GetPoWHash\<close> that do not overlap.  Whatever seeds a sequence of calls asks for, from whatever threads, with
  the dataset or without, each call returns the RandomX hash of its header under its own seed,
  as long as the library can allocate and the 64-bit version counter does not wrap.
\<close>

theorem pow_hash_sequential:
  assumes "length cs < 2 ^ 64" "\<forall>(i, h, seed, lib) \<in> set cs. rx_allocs lib \<and> vm_created lib"
  shows "\<exists>g ts. rx_calls randomx fastmode cs rx_global_init (\<lambda>_. rx_thread_init) =
    Some (map (\<lambda>(i, h, seed, lib). randomx seed (Serialize_CBlockHeader h)) cs, g, ts)"
  using rx_calls_ok[of fastmode rx_global_init 0 "\<lambda>_. rx_thread_init" cs randomx] rx_init_ok assms by simp

theorem pow_hash_sequential_witness:
  "\<exists>g ts. rx_calls (\<lambda>k m. k) True [(0, next_header, line_key 1, rx_returns 1), (1, next_header, line_key 2, rx_returns 2),
      (0, next_header, line_key 1, rx_returns 3)] rx_global_init (\<lambda>_. rx_thread_init) =
    Some ([line_key 1, line_key 2, line_key 1], g, ts)"
  using pow_hash_sequential[of "[(0, next_header, line_key 1, rx_returns 1), (1, next_header, line_key 2, rx_returns 2),
      (0, next_header, line_key 1, rx_returns 3)]" "\<lambda>k m. k" True]
  by (simp add: rx_allocs_def rx_returns_def)

text \<open>
  C26: Overlapping calls for one seed.  In every interleaving of threads that all ask for the same seed, with a library whose
  allocations succeed, no thread uses released memory and every finished call has returned the RandomX hash
  under that seed, or zero when some \<open>randomx_create_vm\<close> of the run failed.
\<close>

theorem pow_hash_one_seed:
  assumes "\<forall>i h seed. RxCall i h seed \<in> set evs \<longrightarrow> seed = s" "\<forall>i lib. RxStep i lib \<in> set evs \<longrightarrow> rx_allocs lib"
  shows "\<exists>st. rx_run randomx fastmode evs rx_sys_init = Some st \<and>
    (\<forall>i h seed r. rx_at st i = Rx_done h seed r \<longrightarrow> seed = s \<and>
       (r = randomx s (Serialize_CBlockHeader h) \<or> r = uint256_0 \<and> (\<exists>j lib. RxStep j lib \<in> set evs \<and> \<not> vm_created lib)))"
proof -
  define created where "created \<longleftrightarrow> (\<forall>j lib. RxStep j lib \<in> set evs \<longrightarrow> vm_created lib)"
  have "rx_one_seed created s ev" if "ev \<in> set evs" for ev
    using that assms unfolding rx_one_seed_def created_def by (auto split: rx_event.split)
  then have "\<forall>ev \<in> set evs. rx_one_seed created s ev" by blast
  from rx_one_seed_run[OF this, of randomx fastmode] show ?thesis unfolding created_def by blast
qed

theorem pow_hash_one_seed_witness:
  "\<exists>st. rx_run (\<lambda>k m. k) True two_threads rx_sys_init = Some st \<and>
    rx_at st 0 = Rx_done next_header (line_key 1) (line_key 1) \<and> rx_at st 1 = Rx_done next_header (line_key 1) (line_key 1)"
proof -
  have "\<exists>st a a' r r'. rx_run (\<lambda>k m. k) True two_threads rx_sys_init = Some st \<and> rx_at st 0 = Rx_done next_header a r \<and>
      rx_at st 1 = Rx_done next_header a' r'"
    by (simp add: two_threads_def rx_run_defs)
  then obtain st a a' r r' where st: "rx_run (\<lambda>k m. k) True two_threads rx_sys_init = Some st" "rx_at st 0 = Rx_done next_header a r"
    "rx_at st 1 = Rx_done next_header a' r'" by blast
  have "\<forall>i h seed. RxCall i h seed \<in> set two_threads \<longrightarrow> seed = line_key 1"
    "\<forall>i lib. RxStep i lib \<in> set two_threads \<longrightarrow> rx_allocs lib \<and> vm_created lib"
    by (auto simp: two_threads_def rx_allocs_def rx_returns_def)
  with pow_hash_one_seed[of two_threads "line_key 1" "\<lambda>k m. k" True] st(1)
  have "\<forall>i h seed r. rx_at st i = Rx_done h seed r \<longrightarrow> seed = line_key 1 \<and> r = line_key 1" by fastforce
  with st show ?thesis by metis
qed

text \<open>
  C27: Overlapping calls for two seeds.  For any two different seeds there is an interleaving in which a call for
  the first returns the hash under the second, after which that thread keeps answering with the wrong seed
  without looking at the cache again; and one in which a thread builds its machine on memory that
  another thread has released.
\<close>

theorem pow_hash_race:
  assumes "a \<noteq> b"
  shows "(\<exists>s. rx_run randomx False (rx_race h a b) rx_sys_init = Some s \<and>
      rx_at s 0 = Rx_done h a (randomx b (Serialize_CBlockHeader h)) \<and>
      (\<forall>h' lib. CBlockHeader_GetPoWHash randomx False lib h' a (rx_global s) (rx_thread s 0) =
         Some (randomx b (Serialize_CBlockHeader h'), rx_global s, rx_thread s 0))) \<and>
    rx_run randomx False (rx_release_race h a b) rx_sys_init = None"
  using rx_race_wrong[OF assms] rx_release_race_fault[OF assms] by blast

theorem pow_hash_race_witness:
  "rx_run (\<lambda>k m. k) False (rx_release_race next_header (line_key 1) (line_key 2)) rx_sys_init = None"
proof -
  have "val_le (line_key 1) \<noteq> val_le (line_key 2)" by (simp add: val_line_key)
  then have "line_key 1 \<noteq> line_key 2" by auto
  from pow_hash_race[OF this] show ?thesis by blast
qed

text \<open>
  C28: Failing open.  After any calls of \<open>GetPoWHash\<close> that did not overlap, from any threads and for any seeds, with allocations that
  succeed and fewer than 2^64 calls in all: when a call needs a new virtual machine (its thread has none, or one for another seed or another
  version of the cache) and \<open>randomx_create_vm\<close> fails, it returns zero without an error, and zero passes
  the proof-of-work check for every difficulty field that decodes to a target within the limit.
\<close>

theorem pow_hash_fails_open:
  assumes "\<forall>(i, h, seed, lib) \<in> set cs. rx_allocs lib" "Suc (length cs) < 2 ^ 64"
    and "rx_calls randomx fastmode cs rx_global_init (\<lambda>_. rx_thread_init) = Some (rs, g, ts)"
    and "rx_stale (ts i) seed (rx_cache_version g)" "rx_allocs lib" "\<not> vm_created lib"
    and "length (powLimit params) = 32" "DeriveTarget bits0 (powLimit params) \<noteq> None"
  shows "(\<exists>g' t'. CBlockHeader_GetPoWHash randomx fastmode lib h seed g (ts i) = Some (uint256_0, g', t')) \<and>
    CheckProofOfWork False uint256_0 bits0 params"
proof -
  have t: "\<forall>i. rx_thread_ok 0 rx_global_init ((\<lambda>_. rx_thread_init) i)" and l: "0 + length cs < 2 ^ 64"
    using assms(2) by (simp_all add: rx_init_ok(3))
  obtain rs' g' ts' n where "rx_calls randomx fastmode cs rx_global_init (\<lambda>_. rx_thread_init) = Some (rs', g', ts')"
    "n \<le> 0 + length cs" "rx_ok fastmode g'" "rx_cache_version g' = of_nat n" "\<forall>i. rx_thread_ok n g' (ts' i)"
    using rx_calls_inv[OF rx_init_ok(1,2) t l assms(1)] by blast
  then have n: "n \<le> length cs" "rx_ok fastmode g" "rx_cache_version g = of_nat n" "rx_thread_ok n g (ts i)"
    using assms(3) by simp_all
  have "Suc n < 2 ^ 64" using n(1) assms(2) by simp
  then have "\<exists>g' t'. CBlockHeader_GetPoWHash randomx fastmode lib h seed g (ts i) = Some (rx_expected randomx lib h seed True, g', t')"
    using GetPoWHash_call[OF n(2-4) assms(5)] assms(4) by metis
  then show ?thesis using zero_hash_accepted[OF assms(7), of bits0] assms(6,8) by (simp add: rx_expected_def)
qed

theorem pow_hash_fails_open_witness:
  "\<exists>rs g ts. rx_calls (\<lambda>k m. k) True [(0, next_header, line_key 1, rx_returns 1)] rx_global_init (\<lambda>_. rx_thread_init) = Some (rs, g, ts) \<and>
    (\<exists>g' t'. CBlockHeader_GetPoWHash (\<lambda>k m. k) True ((rx_returns 2)\<lparr>vm_created := False\<rparr>) next_header (line_key 2) g (ts 0) =
      Some (uint256_0, g', t')) \<and> CheckProofOfWork False uint256_0 limit_bits (consensus main_env)"
proof -
  have "line_key 1 \<noteq> line_key 2" using val_line_key[of 1] val_line_key[of 2] by fastforce
  then have "\<exists>rs g ts. rx_calls (\<lambda>k m. k) True [(0, next_header, line_key 1, rx_returns 1)] rx_global_init (\<lambda>_. rx_thread_init) =
      Some (rs, g, ts) \<and> rx_stale (ts 0) (line_key 2) (rx_cache_version g)"
    by (simp add: CBlockHeader_GetPoWHash_def rx_run_defs)
  then obtain rs g ts where c: "rx_calls (\<lambda>k m. k) True [(0, next_header, line_key 1, rx_returns 1)] rx_global_init (\<lambda>_. rx_thread_init) =
      Some (rs, g, ts)" "rx_stale (ts 0) (line_key 2) (rx_cache_version g)" by blast
  have l: "length (powLimit (consensus main_env)) = 32" by (simp add: main_env_def main_consensus_def)
  then have "DeriveTarget limit_bits (powLimit (consensus main_env)) \<noteq> None" using zero_hash_accepted limit_bits_ok(2) by blast
  with pow_hash_fails_open[OF _ _ c, of "(rx_returns 2)\<lparr>vm_created := False\<rparr>" "consensus main_env" limit_bits next_header] c(1) l
  show ?thesis by (simp add: rx_allocs_def rx_returns_def)
qed

section \<open>Hashing\<close>

text \<open>
  C29: A message hashed in pieces.  However a message is cut into calls of \<open>CSHA256::Write\<close>, and whatever the buffer holds
  when the object is created, \<open>HashWriter::GetHash\<close> is SHA-256 of SHA-256 of the whole message.
\<close>

theorem hash_writer_streaming:
  assumes "length junk = 64"
  shows "HashWriter_GetHash (foldl CSHA256_Write (CSHA256_new junk) pieces) = sha256 (sha256 (concat pieces))"
  using HashWriter_GetHash_eq[OF sha_inv_writes[OF sha_inv_new[OF assms]], of pieces] by simp

theorem hash_writer_streaming_witness:
  "HashWriter_GetHash (foldl CSHA256_Write (CSHA256_new stack_junk) [[0x61], [], [0x62, 0x63]]) =
     [0x4f, 0x8b, 0x42, 0xc2, 0x2d, 0xd3, 0x72, 0x9b, 0x51, 0x9b, 0xa6, 0xf6, 0x8d, 0x2d, 0xa7, 0xcc,
      0x5b, 0x2d, 0x60, 0x6d, 0x05, 0xda, 0xed, 0x5a, 0xd5, 0x12, 0x8c, 0xc0, 0x3e, 0x6c, 0x63, 0x58]"
proof -
  have "sha256 (sha256 [0x61, 0x62, 0x63]) =
     [0x4f, 0x8b, 0x42, 0xc2, 0x2d, 0xd3, 0x72, 0x9b, 0x51, 0x9b, 0xa6, 0xf6, 0x8d, 0x2d, 0xa7, 0xcc,
      0x5b, 0x2d, 0x60, 0x6d, 0x05, 0xda, 0xed, 0x5a, 0xd5, 0x12, 0x8c, 0xc0, 0x3e, 0x6c, 0x63, 0x58]" by code_simp
  with hash_writer_streaming[OF length_stack_junk, of "[[0x61], [], [0x62, 0x63]]"] show ?thesis by simp
qed

text \<open>
  C30: The unrolled double hash of Merkle trees.  \<open>SHA256D64\<close>, with its unrolled transform (whose second and third
  message schedules are folded into constants) and whichever of the 8-, 4- and 2-way routines are
  installed, writes for each of the 64-byte blocks SHA-256 of SHA-256 of the block.  The routines
  installed at start-up are parameters, relied on to do so for their own number of blocks.
\<close>

theorem SHA256D64_correct:
  assumes "\<forall>f. way8 = Some f \<longrightarrow> way_ok 8 f" "\<forall>f. way4 = Some f \<longrightarrow> way_ok 4 f" "\<forall>f. way2 = Some f \<longrightarrow> way_ok 2 f"
    and "64 * blocks \<le> length inp"
  shows "SHA256D64 way8 way4 way2 inp blocks = concat (map (\<lambda>i. sha256 (sha256 (take 64 (drop (64 * i) inp)))) [0..<blocks])"
  unfolding SHA256D64_eq[OF assms] by (rule d64_each_concat)

theorem SHA256D64_correct_witness:
  "SHA256D64 None None (Some (d64_each 2)) (replicate 192 0) 3 =
    concat (map (\<lambda>i. sha256 (sha256 (take 64 (drop (64 * i) (replicate 192 0))))) [0..<3])"
  using SHA256D64_correct[of None None "Some (d64_each 2)" 3 "replicate 192 0"] by (simp add: way_ok_def)

section \<open>Merkle trees\<close>

text \<open>
  C31: Merkle branches.  For every transaction of a block of up to \<open>2 ^ 31\<close> transactions, \<open>TransactionMerklePath\<close> returns
  the branch that leads from its identifier to the root \<open>BlockMerkleRoot\<close> computes by the other algorithm.
\<close>

theorem TransactionMerklePath_correct:
  assumes "ways_ok ways" "length junk = 64" "\<And>s. length (H s) = 32"
    and "p < length (vtx b)" "length (vtx b) \<le> 2 ^ 31"
  shows "\<exists>path. TransactionMerklePath junk H b p = Some path \<and>
    merkle_climb merkle_hash (ComputeHash H (vtx b ! p)) p path = fst (BlockMerkleRoot ways check H b)"
proof -
  have "TransactionMerklePath junk H b p = Some (merkle_path merkle_hash (txids H b) p)"
    using MerkleComputation_path[of p "txids H b" merkle_hash] Hash2_eq[OF assms(2)] assms(4,5)
    by (simp add: TransactionMerklePath_def ComputeMerklePath_def txids_def)
  moreover have "hashes_ok (txids H b)" using assms(3) by (rule hashes_ok_txids)
  then have "fst (BlockMerkleRoot ways check H b) = merkle_root merkle_hash (txids H b)"
    using ComputeMerkleRoot_eq[OF assms(1), of "txids H b" check] assms(4)
    by (auto simp: BlockMerkleRoot_def txids_def)
  ultimately show ?thesis using merkle_climb_path[of p "txids H b" merkle_hash] assms(4) by (simp add: txids_def)
qed

theorem TransactionMerklePath_correct_witness:
  "\<exists>path. TransactionMerklePath stack_junk (SerializeHash stack_junk) height_block 0 = Some path \<and>
    merkle_climb merkle_hash (ComputeHash (SerializeHash stack_junk) (vtx height_block ! 0)) 0 path =
      fst (BlockMerkleRoot no_ways True (SerializeHash stack_junk) height_block)"
  by (rule TransactionMerklePath_correct[OF no_ways_ok length_stack_junk])
     (simp_all add: height_block_def CBlockHeader.defs SerializeHash_eq length_stack_junk)

text \<open>
  C32: What a Merkle root commits to.  If \<open>CheckBlock\<close> accepts two blocks with the same root and trees of the same height, they have
  the same transaction identifiers in the same order, or the two trees contain two different messages
  with the same double SHA-256.
\<close>

theorem accepted_blocks_same_root:
  assumes "ways_ok ways" "\<And>s. length (H s) = 32"
    and "map_option fst (CheckBlock ways H signet params x True (fresh b)) = Some (Inr ())"
    and "map_option fst (CheckBlock ways H signet params x True (fresh c)) = Some (Inr ())"
    and "h_hashMerkleRoot b = h_hashMerkleRoot c" "merkle_height (length (vtx b)) = merkle_height (length (vtx c))"
  shows "txids H b = txids H c \<or> clash (merkle_messages (txids H b)) (merkle_messages (txids H c))"
  by (rule accepted_blocks_bound[OF assms(1)]) (use assms in auto)

theorem accepted_blocks_same_root_witness:
  "txids (SerializeHash stack_junk) (CTestNetParams_genesis no_ways stack_junk) = txids (SerializeHash stack_junk) (CRegTestParams_genesis no_ways stack_junk) \<or>
   clash (merkle_messages (txids (SerializeHash stack_junk) (CTestNetParams_genesis no_ways stack_junk)))
     (merkle_messages (txids (SerializeHash stack_junk) (CRegTestParams_genesis no_ways stack_junk)))"
proof (rule accepted_blocks_same_root[OF no_ways_ok, where signet = "\<lambda>_ _. True" and params = "main_consensus uint256_0" and x = True],
    unfold CTestNetParams_genesis_def CRegTestParams_genesis_def)
  show "length (SerializeHash stack_junk s) = 32" for s by (simp add: SerializeHash_eq length_stack_junk)
qed (rule default_genesis_accepted length_stack_junk no_ways_ok | simp add: main_consensus_def default_merkle length_stack_junk default_genesis_vtx)+

text \<open>
  C33: The genesis blocks.  The assertions on the hash and the Merkle root in the constructors of the main network and of
  testnet4 hold, evaluated through the serialization of the block, SHA-256 and the Merkle tree; the
  blocks of the other networks have the Merkle root of the main network's, and \<open>CheckBlock\<close> accepts it.
\<close>

theorem genesis_blocks:
  assumes "length junk = 64" "ways_ok ways"
  shows "CMainParams ways junk \<noteq> None \<and> CTestNet4Params ways junk \<noteq> None \<and>
    (\<forall>p g. CMainParams ways junk = Some (p, g) \<longrightarrow>
       hashGenesisBlock p = GenesisHash junk g \<and>
       h_hashMerkleRoot (CTestNetParams_genesis ways junk) = h_hashMerkleRoot g \<and>
       h_hashMerkleRoot (SigNetParams_genesis ways junk) = h_hashMerkleRoot g \<and>
       h_hashMerkleRoot (CRegTestParams_genesis ways junk) = h_hashMerkleRoot g \<and>
       map_option fst (CheckBlock ways (SerializeHash junk) signet p True True (fresh g)) = Some (Inr ()))"
  using testnet4_hashes[OF assms(1), of ways] default_genesis_accepted[OF assms]
  by (auto simp: CMainParams_def CTestNet4Params_def main_hash[OF assms(1)] default_merkle[OF assms(1)] CTestNetParams_genesis_def
    SigNetParams_genesis_def CRegTestParams_genesis_def main_consensus_def Let_def)

theorem genesis_blocks_witness:
  "CMainParams no_ways stack_junk \<noteq> None \<and> CTestNet4Params no_ways stack_junk \<noteq> None"
  using genesis_blocks[OF length_stack_junk no_ways_ok] by blast

section \<open>Script numbers and pushes\<close>

text \<open>
  C34: Minimally encoded numbers.  \<open>CScriptNum\<close>, asked for the minimal encoding, reads a number from exactly one byte string,
  the one \<open>serialize\<close> writes, as long as it has at most the number of bytes allowed.
\<close>

theorem script_number_canonical:
  assumes "- (2 ^ 63) \<le> n" "n < 2 ^ 63" "k \<le> 8"
  shows "CScriptNum vch True k = Some n \<longleftrightarrow> vch = ScriptNum_serialize n \<and> length vch \<le> k"
  by (rule CScriptNum_canonical[OF assms])

theorem script_number_canonical_witness:
  "CScriptNum [0xff, 0x80] True 4 = Some (- 255) \<and> CScriptNum [0xff, 0, 0x80] True 4 \<noteq> Some (- 255)"
proof -
  have "ScriptNum_serialize (- 255) = [0xff, 0x80]" by code_simp
  with script_number_canonical[of "- 255" 4] show ?thesis by simp
qed

text \<open>
  C35: Minimal pushes.  An instruction read by \<open>GetScriptOp\<close> passes \<open>CheckMinimalPush\<close> as a push of some data exactly
  when its bytes are the ones \<open>operator<<\<close> appends for the data, and the data is not one of the numbers
  that have an opcode of their own.
\<close>

theorem minimal_push_exact:
  assumes "length s < 2 ^ 32"
  shows "GetScriptOp s = Some (opcode, data, rest) \<and> CheckMinimalPush data opcode = Some True \<longleftrightarrow>
    s = push_data [] data @ rest \<and> opcode = push_opcode (length data) \<and> \<not> small_number data"
  by (rule minimal_push_iff[OF assms])

theorem minimal_push_exact_witness:
  "GetScriptOp [2, 0x11, 0x22, 0xac] = Some (2, [0x11, 0x22], [0xac]) \<and> CheckMinimalPush [0x11, 0x22] 2 = Some True"
  by (subst minimal_push_exact) (simp_all add: push_data_def AppendDataSize_def push_opcode_def small_number_def OP_PUSHDATA1_def)

section \<open>Checks on transactions and blocks\<close>

text \<open>
  C36: The checks on a transaction by itself.  \<open>CheckTransaction\<close> accepts exactly the transactions with inputs and outputs, within
  the size limit, whose outputs are amounts of money and add up to one, that spend no output twice,
  and that are either a coinbase with a script of 2 to 100 bytes or spend no null output; then
  \<open>GetValueOut\<close> does not throw.
\<close>

theorem CheckTransaction_exact:
  "(CheckTransaction tx = Inr () \<longleftrightarrow>
      vin tx \<noteq> [] \<and> vout tx \<noteq> [] \<and> 4 * length (SerializeTransaction False tx) \<le> 4000000 \<and>
      (\<forall>o1 \<in> set (vout tx). 0 \<le> nValue o1 \<and> nValue o1 \<le> MAX_MONEY) \<and> sum_list (map nValue (vout tx)) \<le> MAX_MONEY \<and>
      distinct (map prevout (vin tx)) \<and>
      (if IsCoinBase tx then length (scriptSig (vin tx ! 0)) \<in> {2..100}
       else \<forall>i \<in> set (vin tx). \<not> COutPoint_IsNull (prevout i))) \<and>
   (CheckTransaction tx = Inr () \<longrightarrow> GetValueOut tx = Some (sum_list (map nValue (vout tx))))"
  using CheckTransaction_iff[of tx] tx_valid_GetValueOut[of tx] by (auto simp: tx_valid_def MoneyRange_def)

theorem CheckTransaction_exact_witness:
  "CheckTransaction (hd (vtx height_block)) = Inr () \<and> GetValueOut (hd (vtx height_block)) = Some 0"
proof -
  let ?tx = "hd (vtx height_block)"
  have "length (SerializeTransaction False ?tx) \<le> 1000"
    by (simp add: height_block_def CBlockHeader.defs Serialize_vector_def
      WriteCompactSize_def ser_writedata8_def SerializeTransaction_def Serialize_CTxIn_def Serialize_CTxOut_def ser_writedata32_def
      Serialize_COutPoint_def Serialize_bytes_def COutPoint_null_def Serialize_int64_def ser_writedata64_def uint256_0_def Serialize_uint256_def)
  then have "CheckTransaction ?tx = Inr ()"
    using CheckTransaction_exact[of ?tx] by (simp add: height_block_def CBlockHeader.defs IsCoinBase_def COutPoint_null_def COutPoint_IsNull_def MAX_MONEY_def COIN_def)
  moreover have "sum_list (map nValue (vout ?tx)) = 0" by (simp add: height_block_def CBlockHeader.defs)
  ultimately show ?thesis using conjunct2[OF CheckTransaction_exact[of ?tx]] by simp
qed

text \<open>
  C37: The checks on a block by itself.  On a block not checked before, \<open>CheckBlock\<close> always answers, and accepts exactly the blocks with a valid
  signet solution where one is asked for, with the Merkle root of their transactions and no repeated subtree, and with a
  coinbase first and only there, valid transactions, and size and signature operations within the limits.
\<close>

theorem CheckBlock_exact:
  assumes "ways_ok ways" "\<And>s. length (H s) = 32"
  shows "\<exists>r. map_option fst (CheckBlock ways H signet params x y (fresh b)) = Some r \<and>
    (r = Inr () \<longleftrightarrow> (signet_blocks params \<and> x \<longrightarrow> signet (header_of b) (vtx b)) \<and> (y \<longrightarrow> merkle_valid H b) \<and> block_valid b)"
  by (rule CheckBlock_fresh[OF assms])

theorem CheckBlock_exact_witness:
  "map_option fst (CheckBlock no_ways (SerializeHash stack_junk) (\<lambda>_ _. False) (main_consensus uint256_0) True True
    (fresh (CRegTestParams_genesis no_ways stack_junk))) = Some (Inr ())"
  using CheckBlock_exact[OF no_ways_ok, of "SerializeHash stack_junk" "\<lambda>_ _. False" "main_consensus uint256_0" True True
      "CRegTestParams_genesis no_ways stack_junk"]
    default_genesis_valid[OF length_stack_junk, of no_ways]
  by (auto simp: SerializeHash_eq length_stack_junk main_consensus_def CRegTestParams_genesis_def)

text \<open>
  C38: The flags that remember checks.  Whatever sequence of \<open>CheckBlock\<close>, \<open>IsBlockMutated\<close> and \<open>ContextualCheckBlock\<close> runs on a block, each answers
  what it would have answered on a block no check had touched: the flags \<open>fChecked\<close>, \<open>m_checked_merkle_root\<close> and
  \<open>m_checked_witness_commitment\<close> the checks leave behind never change a later answer.
\<close>

theorem block_checks_cached:
  "run_checks ways junk H signet params M cs (fresh b) =
    those (map (\<lambda>c. map_option fst (run_check ways junk H signet params M c (fresh b))) cs)"
  using run_checks_cached[OF flags_ok_fresh, of ways junk H signet params M cs b] by (simp add: fresh_def)

text \<open>
  C39: The height in the coinbase.  Two blocks with the same coinbase script that \<open>ContextualCheckBlock\<close> accepts, where the
  rule is active, have parents of the same height: no coinbase is valid at two heights.
\<close>

theorem coinbase_fits_one_height:
  assumes "ContextualCheckBlock ways junk H params M (Some p) b = Some (Inr (), b')" "M p = Some i"
    and "ContextualCheckBlock ways junk H params M (Some q) c = Some (Inr (), c')" "M q = Some j"
    and "DeploymentActiveAfter params (Some i) DEPLOYMENT_HEIGHTINCB" "DeploymentActiveAfter params (Some j) DEPLOYMENT_HEIGHTINCB"
    and "scriptSig (hd (vin (hd (vtx b)))) = scriptSig (hd (vin (hd (vtx c))))" "length (scriptSig (hd (vin (hd (vtx b))))) < 2 ^ 31"
    and "nHeight i < 2 ^ 31 - 1" "nHeight j < 2 ^ 31 - 1"
  shows "nHeight i = nHeight j"
proof -
  have "coinbase_height_ok b (int (nHeight i) + 1) = Some True" "coinbase_height_ok c (int (nHeight j) + 1) = Some True"
    using ContextualCheckBlock_height[OF assms(1), of "Some i"] ContextualCheckBlock_height[OF assms(3), of "Some j"] assms(2,4,5,6)
    by simp_all
  from coinbase_height_unique[OF this assms(7,8)] assms(9,10) show ?thesis by simp
qed

theorem coinbase_fits_one_height_witness:
  "nHeight (line_block (\<lambda>_. limit_bits) (\<lambda>_. 0) 3) = nHeight (line_block (\<lambda>_. limit_bits) (\<lambda>_. 0) 3) \<and>
   (\<forall>c. ContextualCheckBlock no_ways stack_junk (\<lambda>s. s) (consensus main_env) (m_block_index (fst short_state)) (Some (line_key 2))
      height_block \<noteq> Some (Inr (), c))"
proof -
  note a = height_block_accepted[of no_ways stack_junk "\<lambda>s. s"]
  note s = short_state_def short_blocks short_index height_block_def CBlockHeader.defs DeploymentActiveAfter_def main_env_def main_consensus_def
  have "nHeight (line_block (\<lambda>_. limit_bits) (\<lambda>_. 0) 3) = nHeight (line_block (\<lambda>_. limit_bits) (\<lambda>_. 0) 3)"
    by (rule coinbase_fits_one_height[OF a _ a]) (simp_all add: s)
  moreover have "nHeight (line_block (\<lambda>_. limit_bits) (\<lambda>_. 0) 3) = nHeight (line_block (\<lambda>_. limit_bits) (\<lambda>_. 0) 2)"
    if "ContextualCheckBlock no_ways stack_junk (\<lambda>s. s) (consensus main_env) (m_block_index (fst short_state)) (Some (line_key 2))
      height_block = Some (Inr (), c)" for c
    by (rule coinbase_fits_one_height[OF a _ that]) (simp_all add: s)
  ultimately show ?thesis by (auto simp: short_blocks)
qed

text \<open>
  C40: The supply.  Every height has a subsidy, it halves every interval, and with an interval of up to
  210000 blocks all subsidies together never exceed \<open>MAX_MONEY\<close>; after 33 halvings nothing is added.
\<close>

theorem subsidy_supply:
  assumes "nSubsidyHalvingInterval params = int I" "0 < I" "I \<le> 210000"
  shows "\<exists>subsidy. (\<forall>h. GetBlockSubsidy (int h) params = Some (subsidy h)) \<and> subsidy 0 = 50 * COIN \<and>
    (\<forall>h. subsidy (h + I) = subsidy h div 2) \<and>
    (\<forall>n. sum subsidy {..<n} \<le> MAX_MONEY) \<and> (\<forall>n \<ge> 33 * I. sum subsidy {..<n} = 9999999989 * int I)"
proof (intro exI[of _ "\<lambda>h. subsidy_at (h div I)"] conjI allI impI)
  show "subsidy_at ((h + I) div I) = subsidy_at (h div I) div 2" for h
    using assms(2) zdiv_zmult2_eq[of 2 5000000000 "2 ^ (h div I)"] by (simp add: subsidy_at_def div_add_self2 mult.commute)
  have "9999999989 * int I \<le> MAX_MONEY" using assms(3) by (simp add: MAX_MONEY_def COIN_def)
  with subsidy_sum(1)[OF assms(2)] show "(\<Sum>h<n. subsidy_at (h div I)) \<le> MAX_MONEY" for n by (rule order_trans)
qed (use GetBlockSubsidy_eq[OF assms(1,2)] subsidy_sum(2)[OF assms(2)] in \<open>simp_all add: subsidy_at_def COIN_def\<close>)

theorem subsidy_supply_witness:
  "\<exists>subsidy. (\<forall>h. GetBlockSubsidy (int h) (main_consensus uint256_0) = Some (subsidy h)) \<and>
    (\<forall>n. sum subsidy {..<n} \<le> MAX_MONEY) \<and> (\<forall>n \<ge> 33 * 210000. sum subsidy {..<n} = 2099999997690000)"
  using subsidy_supply[of "main_consensus uint256_0" 210000] by (auto simp: main_consensus_def)

end
